(* ===== verification/Prelude.thy ===== *)
theory Prelude
  imports Main "HOL-Library.Word" "HOL-Library.Monad_Syntax"
begin

text \<open>
  Shared vocabulary of the development: the machine types of the kernel's C code, the
  collections of rewrite rules the component theories extend, and generic facts about words,
  lists and aligned intervals that several components use.

  Undefined behaviour of C (a null or out-of-range access) is the value \<open>None\<close> of an
  \<open>option\<close> result, so a definition of type \<open>\<dots> \<Rightarrow> 's option\<close> returns \<open>Some\<close> exactly
  when the C code touches only memory it may touch. Addresses and sizes are \<open>64 word\<close>
  (\<open>uintptr_t\<close>, \<open>size_t\<close> and \<open>unsigned long\<close> on AArch64), so their arithmetic wraps as the
  hardware's does.
\<close>

unbundle bit_operations_syntax

section \<open>Machine types\<close>

type_synonym u8 = "8 word"
type_synonym u32 = "32 word"
type_synonym u64 = "64 word"

section \<open>Collections of rules\<close>

named_theorems list_ops \<open>definitions of the intrusive list operations\<close>
named_theorems mb_defs \<open>definitions of the early allocator\<close>
named_theorems page_ops \<open>definitions of the page allocator\<close>

section \<open>Words as natural numbers\<close>

lemma unat_add_nowrap:
  "unat a + unat b < 2 ^ LENGTH('a) \<Longrightarrow> unat (a + b) = unat a + unat b" for a b :: "'a::len word"
  by (simp add: unat_word_ariths)

lemma unat_sub_le:
  "b \<le> a \<Longrightarrow> unat (a - b) = unat a - unat b" for a b :: "'a::len word"
  by (rule unat_sub)

lemma unat_sub_wrap: "unat a < unat b \<Longrightarrow> unat (a - b) = 2 ^ 64 + unat a - unat b" for a b :: u64
  by (simp add: unat_sub_if')

lemma word_add_diff_cancel: "a + (b - a) = b" for a b :: "'a::len word"
  by simp

lemma u64_bound: "unat (w :: u64) < 2 ^ 64"
  using unsigned_less [of w, where ?'a = nat] by simp

lemma unat_pow2: "k < 64 \<Longrightarrow> unat (2 ^ k :: u64) = 2 ^ k"
  using unat_of_nat [of "2 ^ k", where ?'a = 64] power_strict_increasing [of k 64 "2::nat"] by simp

lemma unat_push_bit_one: "k < 64 \<Longrightarrow> unat (push_bit k 1 :: u64) = 2 ^ k"
  by (simp add: push_bit_of_1 unat_pow2)

lemma bit_u64_iff: "bit (w :: u64) k \<longleftrightarrow> odd (unat w div 2 ^ k)"
  using bit_unsigned_iff [of w k, where ?'a = nat] by (simp add: bit_iff_odd)

end
