(* ===== verification/List_Head.thy ===== *)
theory List_Head
  imports Prelude
begin

text \<open>
  The intrusive doubly linked list of \<^verbatim>\<open>include/miaow/list.h\<close>. A \<^verbatim>\<open>struct list_head\<close> is a
  record of two nullable pointers; the memory that holds the nodes is a function from
  addresses to nodes. Every operation is the sequence of field writes the C code performs,
  and following a null pointer is undefined (\<open>None\<close>).
\<close>

section \<open>Nodes and operations\<close>

record 'p list_head =
  nxt :: "'p option"
  prv :: "'p option"

type_synonym 'p node_heap = "'p \<Rightarrow> 'p list_head"

definition set_next :: "'p node_heap \<Rightarrow> 'p \<Rightarrow> 'p option \<Rightarrow> 'p node_heap" where
  "set_next h p v = h(p := (h p)\<lparr>nxt := v\<rparr>)"

definition set_prev :: "'p node_heap \<Rightarrow> 'p \<Rightarrow> 'p option \<Rightarrow> 'p node_heap" where
  "set_prev h p v = h(p := (h p)\<lparr>prv := v\<rparr>)"

definition INIT_LIST_HEAD :: "'p node_heap \<Rightarrow> 'p \<Rightarrow> 'p node_heap" where
  "INIT_LIST_HEAD h list = set_prev (set_next h list (Some list)) list (Some list)"

text \<open>\<^verbatim>\<open>__list_add(entry, prev, next)\<close>: the four writes in the order of the source.\<close>

definition raw_list_add :: "'p node_heap \<Rightarrow> 'p \<Rightarrow> 'p option \<Rightarrow> 'p option \<Rightarrow> 'p node_heap option" where
  "raw_list_add h entry prev_ptr next_ptr = do {
     n \<leftarrow> next_ptr;
     let h = set_prev h n (Some entry);
     let h = set_next h entry (Some n);
     let h = set_prev h entry prev_ptr;
     p \<leftarrow> prev_ptr;
     Some (set_next h p (Some entry))
   }"

definition list_add :: "'p node_heap \<Rightarrow> 'p \<Rightarrow> 'p \<Rightarrow> 'p node_heap option" where
  "list_add h entry head = raw_list_add h entry (Some head) (nxt (h head))"

definition list_add_tail :: "'p node_heap \<Rightarrow> 'p \<Rightarrow> 'p \<Rightarrow> 'p node_heap option" where
  "list_add_tail h entry head = raw_list_add h entry (prv (h head)) (Some head)"

definition list_del :: "'p node_heap \<Rightarrow> 'p \<Rightarrow> 'p node_heap option" where
  "list_del h entry = do {
     p \<leftarrow> prv (h entry);
     let h = set_next h p (nxt (h entry));
     n \<leftarrow> nxt (h entry);
     let h = set_prev h n (prv (h entry));
     let h = set_next h entry None;
     Some (set_prev h entry None)
   }"

definition list_empty :: "'p node_heap \<Rightarrow> 'p \<Rightarrow> bool" where
  "list_empty h head \<longleftrightarrow> nxt (h head) = Some head"

text \<open>
  \<^verbatim>\<open>list_first_entry\<close> is the successor of the head: entries are identified with their
  embedded node, so \<^verbatim>\<open>container_of\<close> is the identity.
\<close>

definition list_first_entry :: "'p node_heap \<Rightarrow> 'p \<Rightarrow> 'p option" where
  "list_first_entry h head = nxt (h head)"

text \<open>
  \<^verbatim>\<open>list_for_each_entry\<close>: the entries the loop visits, in order. The loop follows the
  successor pointers until it is back at the head, so it need not return on a damaged list.
\<close>

partial_function (option) list_walk :: "'p node_heap \<Rightarrow> 'p \<Rightarrow> 'p \<Rightarrow> 'p list option" where
  "list_walk h head pos =
     (if pos = head then Some []
      else do { q \<leftarrow> nxt (h pos); ps \<leftarrow> list_walk h head q; Some (pos # ps) })"

definition list_for_each_entry :: "'p node_heap \<Rightarrow> 'p \<Rightarrow> 'p list option" where
  "list_for_each_entry h head = do { q \<leftarrow> list_first_entry h head; list_walk h head q }"

lemmas list_head_defs = set_next_def set_prev_def INIT_LIST_HEAD_def raw_list_add_def
  list_add_def list_add_tail_def list_del_def list_empty_def list_first_entry_def

section \<open>What a list represents\<close>

definition link :: "'p node_heap \<Rightarrow> 'p \<Rightarrow> 'p \<Rightarrow> bool" where
  "link h a b \<longleftrightarrow> nxt (h a) = Some b \<and> prv (h b) = Some a"

fun chain :: "'p node_heap \<Rightarrow> 'p \<Rightarrow> 'p list \<Rightarrow> 'p \<Rightarrow> bool" where
  "chain h a [] b \<longleftrightarrow> link h a b"
| "chain h a (x # xs) b \<longleftrightarrow> link h a x \<and> chain h x xs b"

text \<open>The circular list at \<open>head\<close> holds the entries \<open>xs\<close>, in this order.\<close>

definition dlist :: "'p node_heap \<Rightarrow> 'p \<Rightarrow> 'p list \<Rightarrow> bool" where
  "dlist h head xs \<longleftrightarrow> chain h head xs head \<and> distinct (head # xs)"

lemma chain_append [simp]: "chain h a (xs @ x # ys) b \<longleftrightarrow> chain h a xs x \<and> chain h x ys b"
  by (induction xs arbitrary: a) auto

text \<open>A chain reads the successor fields of all but its last node and the predecessor fields
  of all but its first.\<close>

lemma chain_cong:
  assumes "chain h a xs b"
    and "\<And>p. p \<in> insert a (set xs) \<Longrightarrow> nxt (h' p) = nxt (h p)"
    and "\<And>p. p \<in> insert b (set xs) \<Longrightarrow> prv (h' p) = prv (h p)"
  shows "chain h' a xs b"
  using assms by (induction xs arbitrary: a) (auto simp: link_def)

lemma dlist_cong:
  assumes "dlist h head xs" and "\<And>p. p \<in> insert head (set xs) \<Longrightarrow> h' p = h p"
  shows "dlist h' head xs"
  using assms by (auto simp: dlist_def intro: chain_cong)

lemma dlist_init: "dlist (INIT_LIST_HEAD h head) head []"
  by (simp add: dlist_def link_def list_head_defs)

lemma dlist_first: "dlist h head xs \<Longrightarrow> list_first_entry h head = Some (case xs of [] \<Rightarrow> head | x # _ \<Rightarrow> x)"
  by (cases xs) (auto simp: dlist_def link_def list_head_defs)

lemma dlist_empty_iff: "dlist h head xs \<Longrightarrow> list_empty h head \<longleftrightarrow> xs = []"
  by (cases xs) (auto simp: dlist_def link_def list_head_defs)

lemma list_add_dlist:
  assumes "dlist h head xs" and "e \<notin> set (head # xs)"
  obtains h' where "list_add h e head = Some h'" "dlist h' head (e # xs)"
    "\<And>q. q \<notin> set (e # head # xs) \<Longrightarrow> h' q = h q"
proof (cases xs)
  case Nil
  with assms that show thesis
    by (auto simp: dlist_def link_def list_head_defs)
next
  case (Cons x ys)
  let ?h' = "set_next (set_prev (set_next (set_prev h x (Some e)) e (Some x)) e (Some head)) head (Some e)"
  from assms Cons have add: "list_add h e head = Some ?h'"
    by (auto simp: dlist_def link_def list_add_def raw_list_add_def)
  have "chain ?h' x ys head"
    by (rule chain_cong [of h x ys head]) (use assms Cons in \<open>auto simp: dlist_def list_head_defs\<close>)
  with assms Cons have "dlist ?h' head (e # xs)"
    by (auto simp: dlist_def link_def list_head_defs)
  with add Cons that show thesis
    by (auto simp: list_head_defs)
qed

lemma list_add_tail_dlist:
  assumes "dlist h head xs" and "e \<notin> set (head # xs)"
  obtains h' where "list_add_tail h e head = Some h'" "dlist h' head (xs @ [e])"
    "\<And>q. q \<notin> set (e # head # xs) \<Longrightarrow> h' q = h q"
proof (cases xs rule: rev_cases)
  case Nil
  with assms that show thesis
    by (auto simp: dlist_def link_def list_head_defs)
next
  case (snoc ys x)
  let ?h' = "set_next (set_prev (set_next (set_prev h head (Some e)) e (Some head)) e (Some x)) x (Some e)"
  from assms snoc have add: "list_add_tail h e head = Some ?h'"
    by (auto simp: dlist_def link_def list_add_tail_def raw_list_add_def)
  have "chain ?h' head ys x"
    by (rule chain_cong [of h head ys x]) (use assms snoc in \<open>auto simp: dlist_def list_head_defs\<close>)
  with assms snoc have "dlist ?h' head (xs @ [e])"
    by (auto simp: dlist_def link_def list_head_defs)
  with add snoc that show thesis
    by (auto simp: list_head_defs)
qed

lemma chain_last: "chain h a xs b \<Longrightarrow> prv (h b) = Some (last (a # xs))"
  by (induction xs arbitrary: a) (auto simp: link_def)

lemma chain_first: "chain h a xs b \<Longrightarrow> nxt (h a) = Some (hd (xs @ [b]))"
  by (cases xs) (auto simp: link_def)

text \<open>Removing the node between two chains joins them.\<close>

lemma chain_join:
  assumes "chain h a xs e" and "chain h e ys b"
    and "e \<notin> set (a # b # xs @ ys)" and "distinct (xs @ ys)"
    and "a \<notin> set (xs @ ys)" "b \<notin> set (xs @ ys)"
  defines "h' \<equiv> set_prev (set_next h (last (a # xs)) (Some (hd (ys @ [b])))) (hd (ys @ [b])) (Some (last (a # xs)))"
  shows "chain h' a (xs @ ys) b"
proof (cases xs rule: rev_cases)
  case Nil
  show ?thesis
  proof (cases ys)
    case Nil
    with \<open>xs = []\<close> show ?thesis by (simp add: h'_def link_def list_head_defs)
  next
    case (Cons y zs)
    have "chain h' y zs b"
      by (rule chain_cong [of h y zs b]) (use Cons assms \<open>xs = []\<close> in \<open>auto simp: list_head_defs\<close>)
    with Cons \<open>xs = []\<close> assms show ?thesis by (auto simp: link_def list_head_defs)
  qed
next
  case (snoc ws x)
  have n: "hd (ys @ [b]) \<in> set (b # ys)" by (auto simp: hd_append)
  have ws: "chain h' a ws x"
    by (rule chain_cong [of h a ws x]) (use snoc assms n in \<open>auto simp: list_head_defs\<close>)
  show ?thesis
  proof (cases ys)
    case Nil
    with snoc ws show ?thesis by (auto simp: h'_def link_def list_head_defs)
  next
    case (Cons y zs)
    have "chain h' y zs b"
      by (rule chain_cong [of h y zs b]) (use Cons assms snoc in \<open>auto simp: list_head_defs\<close>)
    with Cons snoc ws assms show ?thesis by (auto simp: link_def list_head_defs)
  qed
qed

lemma list_del_dlist:
  assumes "dlist h head (xs @ e # ys)"
  obtains h' where "list_del h e = Some h'" "dlist h' head (xs @ ys)"
    "h' e = \<lparr>nxt = None, prv = None\<rparr>"
    "\<And>q. q \<notin> set (e # head # xs @ ys) \<Longrightarrow> h' q = h q"
proof -
  let ?p = "last (head # xs)" and ?n = "hd (ys @ [head])"
  let ?h1 = "set_prev (set_next h ?p (Some ?n)) ?n (Some ?p)"
  let ?h' = "set_prev (set_next ?h1 e None) e None"
  from assms have c: "chain h head xs e" "chain h e ys head"
    and d: "distinct (head # xs @ e # ys)" by (auto simp: dlist_def)
  have pn: "?p \<in> set (head # xs)" "?n \<in> set (head # ys)" by (auto simp: hd_append)
  with d have "?p \<noteq> e" "?n \<noteq> e" by auto
  with chain_last [OF c(1)] chain_first [OF c(2)] have del: "list_del h e = Some ?h'"
    by (auto simp: list_del_def set_next_def set_prev_def)
  from c d have "chain ?h1 head (xs @ ys) head"
    by (intro chain_join [of h head xs e ys head]) auto
  then have "chain ?h' head (xs @ ys) head"
    by (rule chain_cong) (use d in \<open>auto simp: list_head_defs\<close>)
  with d have dl: "dlist ?h' head (xs @ ys)" by (auto simp: dlist_def)
  have out: "?h' q = h q" if "q \<notin> set (e # head # xs @ ys)" for q
    using that pn by (auto simp: set_next_def set_prev_def)
  show thesis
    by (rule that [OF del dl]) (use out in \<open>auto simp: set_next_def set_prev_def\<close>)
qed

section \<open>The interface the allocators rely on\<close>

text \<open>
  Several lists live in one memory: the page allocator keeps one list per order and the slab
  allocator one per size class, all threaded through the same \<^verbatim>\<open>struct page\<close> array. A
  \<^emph>\<open>family\<close> says that every head in \<open>H\<close> carries the list \<open>fl\<close> assigns to it and that
  no node is on two lists.
\<close>

definition family :: "('h \<Rightarrow> 'p \<Rightarrow> 'p list \<Rightarrow> bool) \<Rightarrow> 'h \<Rightarrow> 'p set \<Rightarrow> ('p \<Rightarrow> 'p list) \<Rightarrow> bool" where
  "family rep h H fl \<longleftrightarrow>
     (\<forall>a\<in>H. rep h a (fl a)) \<and>
     (\<forall>a\<in>H. \<forall>b\<in>H. a \<noteq> b \<longrightarrow> set (a # fl a) \<inter> set (b # fl b) = {})"

lemma family_upd:
  assumes "family rep h H fl" and "rep h' a ys"
    and "\<And>b. b \<in> H \<Longrightarrow> b \<noteq> a \<Longrightarrow> rep h' b (fl b)"
    and "\<And>b. b \<in> H \<Longrightarrow> b \<noteq> a \<Longrightarrow> set (a # ys) \<inter> set (b # fl b) = {}"
  shows "family rep h' H (fl(a := ys))"
  unfolding family_def
proof (intro conjI ballI impI)
  show "rep h' b ((fl(a := ys)) b)" if "b \<in> H" for b
    using assms that by simp
  show "set (b # (fl(a := ys)) b) \<inter> set (c # (fl(a := ys)) c) = {}"
    if "b \<in> H" "c \<in> H" "b \<noteq> c" for b c
  proof (cases "b = a \<or> c = a")
    case True
    with assms(4) [of b] assms(4) [of c] that show ?thesis by auto
  next
    case False
    with assms(1) that show ?thesis by (simp add: family_def)
  qed
qed

lemma family_disjoint:
  "family rep h H fl \<Longrightarrow> a \<in> H \<Longrightarrow> b \<in> H \<Longrightarrow> b \<noteq> a \<Longrightarrow> set (a # fl a) \<inter> set (b # fl b) = {}"
  by (simp add: family_def)

locale linked_lists =
  fixes init :: "'h \<Rightarrow> 'p \<Rightarrow> 'h"
    and add :: "'h \<Rightarrow> 'p \<Rightarrow> 'p \<Rightarrow> 'h option"
    and del :: "'h \<Rightarrow> 'p \<Rightarrow> 'h option"
    and empty :: "'h \<Rightarrow> 'p \<Rightarrow> bool"
    and first :: "'h \<Rightarrow> 'p \<Rightarrow> 'p option"
    and same :: "'h \<Rightarrow> 'h \<Rightarrow> 'p set \<Rightarrow> bool"
    and rep :: "'h \<Rightarrow> 'p \<Rightarrow> 'p list \<Rightarrow> bool"
  assumes rep_init: "rep (init h a) a []"
    and init_same: "a \<notin> S \<Longrightarrow> same h (init h a) S"
    and rep_add: "\<lbrakk>rep h a xs; e \<notin> set (a # xs)\<rbrakk> \<Longrightarrow>
      \<exists>h'. add h e a = Some h' \<and> rep h' a (e # xs) \<and> (\<forall>S. S \<inter> set (e # a # xs) = {} \<longrightarrow> same h h' S)"
    and rep_del: "\<lbrakk>rep h a xs; e \<in> set xs\<rbrakk> \<Longrightarrow>
      \<exists>h'. del h e = Some h' \<and> rep h' a (remove1 e xs) \<and> (\<forall>S. S \<inter> set (a # xs) = {} \<longrightarrow> same h h' S)"
    and rep_empty: "rep h a xs \<Longrightarrow> empty h a \<longleftrightarrow> xs = []"
    and rep_first: "rep h a (x # xs) \<Longrightarrow> first h a = Some x"
    and rep_distinct: "rep h a xs \<Longrightarrow> distinct (a # xs)"
    and rep_same: "\<lbrakk>rep h a xs; same h h' (set (a # xs))\<rbrakk> \<Longrightarrow> rep h' a xs"
begin

lemma family_add:
  assumes fam: "family rep h H fl" and a: "a \<in> H" and e: "e \<notin> H" "\<And>b. b \<in> H \<Longrightarrow> e \<notin> set (fl b)"
  shows "\<exists>h'. add h e a = Some h' \<and> family rep h' H (fl(a := e # fl a))"
proof -
  from fam a e obtain h' where h': "add h e a = Some h'" "rep h' a (e # fl a)"
    "\<And>S. S \<inter> set (e # a # fl a) = {} \<Longrightarrow> same h h' S"
    using rep_add [of h a "fl a" e] by (auto simp: family_def)
  have apart: "set (a # e # fl a) \<inter> set (b # fl b) = {}" if "b \<in> H" "b \<noteq> a" for b
    using family_disjoint [OF fam a that] e that by auto
  have "rep h' b (fl b)" if "b \<in> H" "b \<noteq> a" for b
  proof (rule rep_same [of h])
    show "rep h b (fl b)" using fam that by (simp add: family_def)
    show "same h h' (set (b # fl b))" using apart [OF that] by (intro h'(3)) auto
  qed
  from family_upd [OF fam h'(2) this apart] h'(1) show ?thesis by blast
qed

lemma family_del:
  assumes fam: "family rep h H fl" and a: "a \<in> H" and e: "e \<in> set (fl a)"
  shows "\<exists>h'. del h e = Some h' \<and> family rep h' H (fl(a := remove1 e (fl a)))"
proof -
  from fam a e obtain h' where h': "del h e = Some h'" "rep h' a (remove1 e (fl a))"
    "\<And>S. S \<inter> set (a # fl a) = {} \<Longrightarrow> same h h' S"
    using rep_del [of h a "fl a" e] by (auto simp: family_def)
  note apart = family_disjoint [OF fam a]
  have "rep h' b (fl b)" if "b \<in> H" "b \<noteq> a" for b
  proof (rule rep_same [of h])
    show "rep h b (fl b)" using fam that by (simp add: family_def)
    show "same h h' (set (b # fl b))" using apart [OF that] by (intro h'(3)) auto
  qed
  moreover have "set (a # remove1 e (fl a)) \<inter> set (b # fl b) = {}" if "b \<in> H" "b \<noteq> a" for b
    using apart [OF that] set_remove1_subset [of e "fl a"] by auto
  ultimately have "family rep h' H (fl(a := remove1 e (fl a)))"
    by (intro family_upd [OF fam h'(2)])
  with h'(1) show ?thesis by blast
qed

lemma family_init:
  assumes fam: "family rep h H fl" and a: "a \<notin> H" "\<And>b. b \<in> H \<Longrightarrow> a \<notin> set (fl b)"
  shows "family rep (init h a) (insert a H) (fl(a := []))"
proof -
  have "rep (init h a) b (fl b)" if "b \<in> H" for b
    by (rule rep_same [of h]) (use fam that a in \<open>auto simp: family_def intro: init_same\<close>)
  moreover have "set [a] \<inter> set (b # fl b) = {}" if "b \<in> H" for b
    using a that by auto
  ultimately have "family rep (init h a) H (fl(a := []))"
    by (intro family_upd [OF fam rep_init]) auto
  with a show ?thesis by (auto simp: family_def rep_init)
qed

lemma family_first:
  assumes "family rep h H fl" and "a \<in> H"
  shows "empty h a \<longleftrightarrow> fl a = []" and "fl a = x # xs \<Longrightarrow> first h a = Some x"
proof -
  from assms have r: "rep h a (fl a)" by (simp add: family_def)
  then show "empty h a \<longleftrightarrow> fl a = []" by (rule rep_empty)
  show "first h a = Some x" if "fl a = x # xs" using r that by (auto intro: rep_first)
qed

lemma family_distinct: "family rep h H fl \<Longrightarrow> a \<in> H \<Longrightarrow> distinct (a # fl a)"
  by (rule rep_distinct [of h]) (simp add: family_def)

end

text \<open>The list header provides the interface.\<close>

definition same_nodes :: "'p node_heap \<Rightarrow> 'p node_heap \<Rightarrow> 'p set \<Rightarrow> bool" where
  "same_nodes h h' S \<longleftrightarrow> (\<forall>p\<in>S. h' p = h p)"

interpretation lh: linked_lists INIT_LIST_HEAD list_add list_del list_empty list_first_entry
  same_nodes dlist
proof (unfold_locales, goal_cases)
  case (1 h a)
  show ?case by (rule dlist_init)
next
  case (2 a S h)
  then show ?case by (auto simp: same_nodes_def list_head_defs)
next
  case (3 h a xs e)
  then show ?case by (rule list_add_dlist) (fastforce simp: same_nodes_def)
next
  case (4 h a xs e)
  then obtain us vs where xs: "xs = us @ e # vs" "e \<notin> set us"
    by (meson split_list_first)
  with 4 obtain h' where "list_del h e = Some h'" "dlist h' a (us @ vs)"
    "\<And>q. q \<notin> set (e # a # us @ vs) \<Longrightarrow> h' q = h q"
    using list_del_dlist by metis
  with xs show ?case by (fastforce simp: same_nodes_def remove1_append)
next
  case (5 h a xs)
  then show ?case by (rule dlist_empty_iff)
next
  case (6 h a x xs)
  then show ?case by (auto dest: dlist_first)
next
  case (7 h a xs)
  then show ?case by (simp add: dlist_def)
next
  case (8 h a xs h')
  then show ?case by (auto simp: same_nodes_def intro: dlist_cong)
qed

section \<open>Properties\<close>

lemma list_walk_chain:
  "chain h p xs head \<Longrightarrow> distinct (head # p # xs) \<Longrightarrow> list_walk h head p = Some (p # xs)"
proof (induction xs arbitrary: p)
  case Nil
  then show ?case
    by (subst list_walk.simps) (auto simp: link_def list_walk.simps [of h head head])
next
  case (Cons x xs)
  then show ?case by (subst list_walk.simps) (auto simp: link_def)
qed

lemma list_for_each_dlist: "dlist h head xs \<Longrightarrow> list_for_each_entry h head = Some xs"
proof (cases xs)
  case Nil
  assume "dlist h head xs"
  with Nil show ?thesis
    by (simp add: list_for_each_entry_def dlist_first list_walk.simps [of h head head])
next
  case (Cons x ys)
  assume d: "dlist h head xs"
  with Cons have "list_walk h head x = Some (x # ys)"
    by (intro list_walk_chain) (auto simp: dlist_def)
  with d Cons show ?thesis by (simp add: list_for_each_entry_def dlist_first)
qed

end
