(* ===== verification/List_Props.thy ===== *)
theory List_Props
  imports List_Head
begin

text \<open>
  The linked list against its abstract specification: a script of insertions at either end,
  removals and re-initialisations acts on the pointer structure as it acts on a list of entries.
\<close>

datatype 'p list_op = Add 'p | Add_tail 'p | Del 'p | Reinit

fun run_op :: "'p \<Rightarrow> 'p list_op \<Rightarrow> 'p node_heap \<Rightarrow> 'p node_heap option" where
  "run_op head (Add e) h = list_add h e head"
| "run_op head (Add_tail e) h = list_add_tail h e head"
| "run_op head (Del e) h = list_del h e"
| "run_op head Reinit h = Some (INIT_LIST_HEAD h head)"

fun spec_op :: "'p list_op \<Rightarrow> 'p list \<Rightarrow> 'p list" where
  "spec_op (Add e) xs = e # xs"
| "spec_op (Add_tail e) xs = xs @ [e]"
| "spec_op (Del e) xs = remove1 e xs"
| "spec_op Reinit xs = []"

text \<open>An entry is inserted only when it is on no list, and removed only when it is on this one.\<close>

fun op_ok :: "'p \<Rightarrow> 'p list_op \<Rightarrow> 'p list \<Rightarrow> bool" where
  "op_ok head (Add e) xs \<longleftrightarrow> e \<notin> set (head # xs)"
| "op_ok head (Add_tail e) xs \<longleftrightarrow> e \<notin> set (head # xs)"
| "op_ok head (Del e) xs \<longleftrightarrow> e \<in> set xs"
| "op_ok head Reinit xs \<longleftrightarrow> True"

fun run_ops :: "'p \<Rightarrow> 'p list_op list \<Rightarrow> 'p node_heap \<Rightarrow> 'p node_heap option" where
  "run_ops head [] h = Some h"
| "run_ops head (c # cs) h = do { h \<leftarrow> run_op head c h; run_ops head cs h }"

fun script_ok :: "'p \<Rightarrow> 'p list_op list \<Rightarrow> 'p list \<Rightarrow> bool" where
  "script_ok head [] xs \<longleftrightarrow> True"
| "script_ok head (c # cs) xs \<longleftrightarrow> op_ok head c xs \<and> script_ok head cs (spec_op c xs)"

text \<open>The entries a script mentions: no other node of the memory is written.\<close>

fun op_nodes :: "'p list_op \<Rightarrow> 'p set" where
  "op_nodes (Add e) = {e}"
| "op_nodes (Add_tail e) = {e}"
| "op_nodes (Del e) = {e}"
| "op_nodes Reinit = {}"

lemma spec_op_set: "set (spec_op c xs) \<subseteq> set xs \<union> op_nodes c"
  by (cases c) (auto dest: notin_set_remove1)

lemma run_op_dlist:
  assumes "dlist h head xs" and "op_ok head c xs"
  shows "\<exists>h'. run_op head c h = Some h' \<and> dlist h' head (spec_op c xs) \<and>
           (\<forall>q. q \<notin> insert head (set xs) \<union> op_nodes c \<longrightarrow> h' q = h q)"
proof (cases c)
  case (Add e)
  then show ?thesis using list_add_dlist [OF assms(1), of e] assms(2) by (metis (mono_tags, lifting)
      UnCI insertCI list.set(2) op_nodes.simps(1) op_ok.simps(1) run_op.simps(1) spec_op.simps(1) insertE)
next
  case (Add_tail e)
  then show ?thesis using list_add_tail_dlist [OF assms(1), of e] assms(2) by (metis (mono_tags, lifting)
      UnCI insertCI list.set(2) op_nodes.simps(2) op_ok.simps(2) run_op.simps(2) spec_op.simps(2) insertE)
next
  case (Del e)
  then obtain ys zs where xs: "xs = ys @ e # zs" "e \<notin> set ys" using assms(2) split_list_first [of e xs] by auto
  from list_del_dlist [OF assms(1) [unfolded xs(1)]] obtain h' where
    "list_del h e = Some h'" "dlist h' head (ys @ zs)" "\<And>q. q \<notin> set (e # head # ys @ zs) \<Longrightarrow> h' q = h q" by metis
  with Del xs show ?thesis by (auto simp: remove1_append)
next
  case Reinit
  then show ?thesis using dlist_init by (auto simp: list_head_defs)
qed

lemma run_ops_dlist:
  assumes "dlist h head xs" and "script_ok head cs xs"
  shows "\<exists>h'. run_ops head cs h = Some h' \<and> dlist h' head (fold spec_op cs xs) \<and>
           (\<forall>q. q \<notin> insert head (set xs) \<union> \<Union> (op_nodes ` set cs) \<longrightarrow> h' q = h q)"
  using assms
proof (induction cs arbitrary: h xs)
  case Nil
  then show ?case by simp
next
  case (Cons c cs)
  then obtain h1 where h1: "run_op head c h = Some h1" "dlist h1 head (spec_op c xs)"
    "\<And>q. q \<notin> insert head (set xs) \<union> op_nodes c \<Longrightarrow> h1 q = h q"
    using run_op_dlist [of h head xs c] by auto
  with Cons.IH [OF h1(2)] Cons.prems obtain h' where h': "run_ops head cs h1 = Some h'"
    "dlist h' head (fold spec_op cs (spec_op c xs))"
    "\<And>q. q \<notin> insert head (set (spec_op c xs)) \<union> \<Union> (op_nodes ` set cs) \<Longrightarrow> h' q = h1 q" by auto
  moreover have "h' q = h q" if "q \<notin> insert head (set xs) \<union> \<Union> (op_nodes ` set (c # cs))" for q
    using that h1(3) [of q] h'(3) [of q] spec_op_set [of c xs] by auto
  ultimately show ?case using h1(1) by auto
qed

text \<open>
  C17: starting from a freshly initialised head, any script of \<^verbatim>\<open>list_add\<close>, \<^verbatim>\<open>list_add_tail\<close>, \<^verbatim>\<open>list_del\<close>
  and \<^verbatim>\<open>INIT_LIST_HEAD\<close> that inserts entries only while they are off the list and removes only
  entries on it runs without following a null pointer; afterwards \<^verbatim>\<open>list_for_each_entry\<close>
  terminates and visits the entries in the order of the abstract list, \<^verbatim>\<open>list_empty\<close> answers for
  it, and no node the script does not mention was written.
\<close>

theorem list_script_refines:
  assumes "script_ok head cs []"
  shows "\<exists>h'. run_ops head cs (INIT_LIST_HEAD h head) = Some h' \<and>
    list_for_each_entry h' head = Some (fold spec_op cs []) \<and>
    (list_empty h' head \<longleftrightarrow> fold spec_op cs [] = []) \<and>
    (\<forall>q. q \<notin> insert head (\<Union> (op_nodes ` set cs)) \<longrightarrow> h' q = h q)"
proof -
  from run_ops_dlist [OF dlist_init assms, of h] obtain h' where
    r: "run_ops head cs (INIT_LIST_HEAD h head) = Some h'" "dlist h' head (fold spec_op cs [])"
    "\<And>q. q \<notin> insert head (\<Union> (op_nodes ` set cs)) \<Longrightarrow> h' q = INIT_LIST_HEAD h head q" by auto
  then show ?thesis using list_for_each_dlist [OF r(2)] dlist_empty_iff [OF r(2)]
    by (auto simp: list_head_defs)
qed

theorem list_script_refines_witness:
  "\<exists>h'. run_ops (0::nat) [Add_tail 1, Add_tail 2, Add 3, Del 1, Add 1, Del 2]
          (INIT_LIST_HEAD (\<lambda>_. \<lparr>nxt = None, prv = None\<rparr>) 0) = Some h' \<and>
        list_for_each_entry h' 0 = Some [1, 3]"
  using list_script_refines [of "0::nat" "[Add_tail 1, Add_tail 2, Add 3, Del 1, Add 1, Del 2]"] by auto

end
