(* ===== verification/Buddy_Blocks.thy ===== *)
theory Buddy_Blocks
  imports Prelude
begin

text \<open>
  The buddy system as an abstract specification: a set of blocks \<open>(order, pfn)\<close>, each the
  \<open>2 ^ order\<close> page frames from an aligned \<open>pfn\<close>. Freeing joins a block with its free buddy
  as long as there is one; allocating splits a block. The page allocator of
  \<^verbatim>\<open>mm/page_alloc.c\<close> is shown to implement these two operations.
\<close>

section \<open>Aligned blocks\<close>

type_synonym block = "nat \<times> nat"

definition blk :: "nat \<Rightarrow> nat \<Rightarrow> nat set" where
  "blk k p = {p..<p + 2 ^ k}"

definition buddy :: "nat \<Rightarrow> nat \<Rightarrow> nat" where
  "buddy k p = (if even (p div 2 ^ k) then p + 2 ^ k else p - 2 ^ k)"

definition parent :: "nat \<Rightarrow> nat \<Rightarrow> nat" where
  "parent k p = (if even (p div 2 ^ k) then p else p - 2 ^ k)"

lemma blk_div: "2 ^ k dvd p \<Longrightarrow> blk k p = {x. x div 2 ^ k = p div 2 ^ k}" for p :: nat
proof -
  assume "2 ^ k dvd p"
  then obtain c where c: "p = 2 ^ k * c" ..
  have "x \<in> blk k p \<longleftrightarrow> x div 2 ^ k = c" for x
  proof
    assume "x \<in> blk k p"
    then have "2 ^ k * c \<le> x" "x < 2 ^ k * Suc c" by (auto simp: blk_def c)
    then show "x div 2 ^ k = c" by (intro div_nat_eqI) (auto simp: mult.commute)
  next
    assume "x div 2 ^ k = c"
    then show "x \<in> blk k p"
      using div_mult_mod_eq [of x "2 ^ k"] mod_less_divisor [of "2 ^ k" x]
      by (auto simp: blk_def c mult.commute simp del: mod_less_divisor)
  qed
  then show ?thesis by (auto simp: c)
qed

lemma blk_nonempty: "p \<in> blk k p"
  by (simp add: blk_def)

lemma blk_subset: "blk k p \<subseteq> {lo..<hi} \<longleftrightarrow> lo \<le> p \<and> p + 2 ^ k \<le> hi"
  by (simp add: blk_def)

lemma card_blk [simp]: "card (blk k p) = 2 ^ k"
  by (simp add: blk_def)

lemma finite_blk [simp]: "finite (blk k p)"
  by (simp add: blk_def)

text \<open>Two aligned blocks are nested or apart.\<close>

lemma blk_nested:
  assumes "2 ^ a dvd p" "2 ^ b dvd q" "a \<le> b" "blk a p \<inter> blk b q \<noteq> {}"
  shows "blk a p \<subseteq> blk b q"
proof -
  have up: "x div 2 ^ b = x div 2 ^ a div 2 ^ (b - a)" for x :: nat
    using \<open>a \<le> b\<close> by (simp add: div_mult2_eq [symmetric] power_add [symmetric])
  from assms obtain x where "x div 2 ^ a = p div 2 ^ a" "x div 2 ^ b = q div 2 ^ b"
    by (auto simp: blk_div)
  then have "p div 2 ^ a div 2 ^ (b - a) = q div 2 ^ b" by (metis up)
  then show ?thesis by (auto simp: blk_div assms) (metis up)
qed

lemma blk_inj: "blk k p = blk k q \<Longrightarrow> p = q"
  using blk_nonempty [of p k] blk_nonempty [of q k] by (auto simp: blk_def)

lemma even_div_odd_le: "odd (p div 2 ^ k) \<Longrightarrow> 2 ^ k \<le> p" for p :: nat
  by (metis div_less dvd_0_right not_less)

text \<open>Joining a block with its buddy gives the block of the next order.\<close>

lemma buddy_aligned: "2 ^ k dvd p \<Longrightarrow> 2 ^ k dvd buddy k p"
  by (auto simp: buddy_def)

lemma parent_aligned: "2 ^ k dvd p \<Longrightarrow> 2 ^ Suc k dvd parent k p"
proof -
  assume "2 ^ k dvd p"
  then obtain c where c: "p = 2 ^ k * c" ..
  show ?thesis
  proof (cases "even c")
    case True
    with c show ?thesis by (auto simp: parent_def mult.commute)
  next
    case False
    then obtain d where "c = Suc (2 * d)" by (auto elim: oddE)
    with c show ?thesis by (auto simp: parent_def algebra_simps)
  qed
qed

lemma blk_parent: "2 ^ k dvd p \<Longrightarrow> blk (Suc k) (parent k p) = blk k p \<union> blk k (buddy k p)"
  using even_div_odd_le [of p k] by (auto simp: blk_def parent_def buddy_def)

lemma buddy_disjoint: "blk k p \<inter> blk k (buddy k p) = {}"
  using even_div_odd_le [of p k] by (auto simp: blk_def buddy_def)

lemma buddy_mult: "buddy k (2 ^ k * c) = 2 ^ k * (if even c then Suc c else c - 1)"
  by (cases c) (auto simp: buddy_def)

lemma parent_mult: "parent k (2 ^ k * c) = 2 ^ k * (if even c then c else c - 1)"
  by (cases c) (auto simp: parent_def)

lemma buddy_buddy: "2 ^ k dvd p \<Longrightarrow> buddy k (buddy k p) = p"
  by (auto simp: buddy_mult elim!: dvdE oddE)

lemma parent_buddy: "2 ^ k dvd p \<Longrightarrow> parent k (buddy k p) = parent k p"
  by (auto simp: buddy_mult parent_mult elim!: dvdE oddE)

lemma buddy_neq: "buddy k p \<noteq> p"
  using buddy_disjoint [of k p] blk_nonempty [of p k] by auto

section \<open>Block sets\<close>

definition frames :: "block set \<Rightarrow> nat set" where
  "frames S = (\<Union>(k, p)\<in>S. blk k p)"

text \<open>
  A well-formed block set for a maximal order \<open>M\<close> and the frames \<open>{lo..<hi}\<close>: every block is
  aligned and inside, and no two blocks share a frame.
\<close>

definition blocks_wf :: "nat \<Rightarrow> nat \<Rightarrow> nat \<Rightarrow> block set \<Rightarrow> bool" where
  "blocks_wf M lo hi S \<longleftrightarrow>
     (\<forall>(k, p)\<in>S. k \<le> M \<and> 2 ^ k dvd p \<and> lo \<le> p \<and> p + 2 ^ k \<le> hi) \<and>
     (\<forall>(k, p)\<in>S. \<forall>(l, q)\<in>S. (k, p) \<noteq> (l, q) \<longrightarrow> blk k p \<inter> blk l q = {})"

text \<open>No block below the maximal order has a free buddy of its own order.\<close>

definition coalesced :: "nat \<Rightarrow> block set \<Rightarrow> bool" where
  "coalesced M S \<longleftrightarrow> (\<forall>(k, p)\<in>S. k < M \<longrightarrow> (k, buddy k p) \<notin> S)"

lemma blocks_wfI:
  assumes "\<And>k p. (k, p) \<in> S \<Longrightarrow> k \<le> M \<and> 2 ^ k dvd p \<and> lo \<le> p \<and> p + 2 ^ k \<le> hi"
    and "\<And>k p l q. (k, p) \<in> S \<Longrightarrow> (l, q) \<in> S \<Longrightarrow> (k, p) \<noteq> (l, q) \<Longrightarrow> blk k p \<inter> blk l q = {}"
  shows "blocks_wf M lo hi S"
  using assms unfolding blocks_wf_def by blast

lemma blocks_wfD:
  assumes "blocks_wf M lo hi S" and "(k, p) \<in> S"
  shows "k \<le> M" "2 ^ k dvd p" "lo \<le> p" "p + 2 ^ k \<le> hi" "blk k p \<subseteq> {lo..<hi}"
  using assms by (fastforce simp: blocks_wf_def blk_def)+

lemma blocks_wf_apart:
  "\<lbrakk>blocks_wf M lo hi S; (k, p) \<in> S; (l, q) \<in> S; blk k p \<inter> blk l q \<noteq> {}\<rbrakk> \<Longrightarrow> (k, p) = (l, q)"
  unfolding blocks_wf_def by blast

lemma frames_insert [simp]: "frames (insert (k, p) S) = blk k p \<union> frames S"
  by (simp add: frames_def)

lemma frames_empty [simp]: "frames {} = {}"
  by (simp add: frames_def)

lemma frames_iff: "x \<in> frames S \<longleftrightarrow> (\<exists>k p. (k, p) \<in> S \<and> x \<in> blk k p)"
  by (auto simp: frames_def)

lemma blk_frames: "(k, p) \<in> S \<Longrightarrow> blk k p \<subseteq> frames S"
  unfolding frames_def by blast

lemma blocks_wf_subset: "blocks_wf M lo hi S \<Longrightarrow> T \<subseteq> S \<Longrightarrow> blocks_wf M lo hi T"
  unfolding blocks_wf_def by blast

lemma blocks_wf_insert:
  assumes "blocks_wf M lo hi S" and "k \<le> M" "2 ^ k dvd p" "lo \<le> p" "p + 2 ^ k \<le> hi"
    and "blk k p \<inter> frames S = {}"
  shows "blocks_wf M lo hi (insert (k, p) S)"
  using assms unfolding blocks_wf_def frames_def by (auto split: prod.splits)

lemma frames_remove:
  assumes "blocks_wf M lo hi S" and "(k, p) \<in> S"
  shows "frames (S - {(k, p)}) = frames S - blk k p"
proof -
  have "x \<notin> blk k p" if "(l, q) \<in> S - {(k, p)}" "x \<in> blk l q" for x l q
    using blocks_wf_apart [OF assms, of l q] that by auto
  then show ?thesis using assms(2) by (fastforce simp: frames_iff)
qed

lemma coalesced_subset: "coalesced M S \<Longrightarrow> T \<subseteq> S \<Longrightarrow> coalesced M T"
  unfolding coalesced_def by blast

lemma coalesced_insert:
  assumes "coalesced M S" and "2 ^ k dvd p" and "k < M \<Longrightarrow> (k, buddy k p) \<notin> S"
    and "\<And>l q. (l, q) \<in> S \<Longrightarrow> 2 ^ l dvd q"
  shows "coalesced M (insert (k, p) S)"
  using assms buddy_neq [of k p] buddy_buddy
  unfolding coalesced_def by (auto split: prod.splits)

section \<open>Freeing and allocating blocks\<close>

function free_block :: "nat \<Rightarrow> block set \<Rightarrow> nat \<Rightarrow> nat \<Rightarrow> block set" where
  "free_block M S k p =
     (if k < M \<and> (k, buddy k p) \<in> S
      then free_block M (S - {(k, buddy k p)}) (Suc k) (parent k p)
      else insert (k, p) S)"
  by pat_completeness auto
termination
  by (relation "measure (\<lambda>(M, S, k, p). M - k)") auto

declare free_block.simps [simp del]

definition alloc_block :: "block set \<Rightarrow> nat \<Rightarrow> nat \<Rightarrow> nat \<Rightarrow> block set" where
  "alloc_block S k c p = S - {(c, p)} \<union> {(j, p + 2 ^ j) | j. k \<le> j \<and> j < c}"

lemma free_block_props:
  assumes "blocks_wf M lo hi S" "k \<le> M" "2 ^ k dvd p" "lo \<le> p" "p + 2 ^ k \<le> hi"
    and "blk k p \<inter> frames S = {}"
  shows "blocks_wf M lo hi (free_block M S k p) \<and> frames (free_block M S k p) = frames S \<union> blk k p \<and>
         (coalesced M S \<longrightarrow> coalesced M (free_block M S k p))"
  using assms
proof (induction M S k p rule: free_block.induct)
  case (1 M S k p)
  show ?case
  proof (cases "k < M \<and> (k, buddy k p) \<in> S")
    case True
    let ?S = "S - {(k, buddy k p)}" and ?p = "parent k p"
    note b = blocks_wfD [OF "1.prems"(1), of k "buddy k p"]
    have fr: "frames ?S = frames S - blk k (buddy k p)"
      using frames_remove "1.prems"(1) True by blast
    have up: "blk (Suc k) ?p = blk k p \<union> blk k (buddy k p)"
      using "1.prems"(3) by (rule blk_parent)
    have "blk (Suc k) ?p \<subseteq> {lo..<hi}"
      using up b(5) True "1.prems"(4,5) by (simp add: blk_subset)
    then have lo: "lo \<le> ?p" and hi: "?p + 2 ^ Suc k \<le> hi" by (simp_all add: blk_subset)
    have "blocks_wf M lo hi (free_block M ?S (Suc k) ?p) \<and>
        frames (free_block M ?S (Suc k) ?p) = frames ?S \<union> blk (Suc k) ?p \<and>
        (coalesced M ?S \<longrightarrow> coalesced M (free_block M ?S (Suc k) ?p))"
    proof (rule "1.IH" [OF True _ _ _ lo hi])
      show "blocks_wf M lo hi ?S" using "1.prems"(1) by (rule blocks_wf_subset) auto
      show "Suc k \<le> M" using True by simp
      show "2 ^ Suc k dvd ?p" using "1.prems"(3) by (rule parent_aligned)
      show "blk (Suc k) ?p \<inter> frames ?S = {}" using fr up "1.prems"(6) by auto
    qed
    moreover have "frames ?S \<union> blk (Suc k) ?p = frames S \<union> blk k p"
      using fr up True by (auto simp: frames_iff)
    moreover have "coalesced M S \<longrightarrow> coalesced M ?S" by (auto intro: coalesced_subset)
    ultimately show ?thesis using True by (simp add: free_block.simps [of M S k p])
  next
    case False
    then have eq: "free_block M S k p = insert (k, p) S"
      by (subst free_block.simps) (simp only: if_False)
    have "blocks_wf M lo hi (insert (k, p) S)" using "1.prems" by (intro blocks_wf_insert)
    moreover have "coalesced M (insert (k, p) S)" if "coalesced M S"
      using that "1.prems" False blocks_wfD(2) [OF "1.prems"(1)] by (intro coalesced_insert) auto
    ultimately show ?thesis by (auto simp: eq)
  qed
qed

lemma alloc_block_frames:
  assumes "k \<le> c"
  shows "blk c p = blk k p \<union> (\<Union>j\<in>{k..<c}. blk j (p + 2 ^ j)) \<and>
         blk k p \<inter> (\<Union>j\<in>{k..<c}. blk j (p + 2 ^ j)) = {}"
  using assms
proof (induction c rule: dec_induct)
  case base
  show ?case by simp
next
  case (step c)
  have "blk (Suc c) p = blk c p \<union> blk c (p + 2 ^ c)" "blk c p \<inter> blk c (p + 2 ^ c) = {}"
    by (auto simp: blk_def)
  with step show ?case by (auto simp: atLeastLessThanSuc)
qed

lemma half_apart: "j < l \<Longrightarrow> blk j (p + 2 ^ j) \<inter> blk l (p + 2 ^ l) = {}"
proof -
  assume "j < l"
  then have "(2::nat) ^ j + 2 ^ j \<le> 2 ^ l"
    using power_increasing [of "Suc j" l "2::nat"] by simp
  then show ?thesis by (auto simp: blk_def)
qed

lemma aligned_half:
  assumes "2 ^ c dvd p" "j < c"
  shows "2 ^ j dvd p + 2 ^ j" "blk j (p + 2 ^ j) \<subseteq> blk c p" "buddy j (p + 2 ^ j) = p"
proof -
  show "2 ^ j dvd p + 2 ^ j" using assms by (meson dvd_add dvd_refl dvd_trans le_imp_power_dvd less_imp_le)
  show "blk j (p + 2 ^ j) \<subseteq> blk c p" using power_increasing [of "Suc j" c "2::nat"] assms(2) by (auto simp: blk_def)
  have "2 ^ Suc j dvd p" using assms by (meson Suc_leI dvd_trans le_imp_power_dvd)
  then show "buddy j (p + 2 ^ j) = p" by (auto simp: buddy_def elim!: dvdE) presburger
qed

lemma alloc_block_cases:
  assumes "(l, q) \<in> alloc_block S k c p"
  obtains (old) "(l, q) \<in> S" "(l, q) \<noteq> (c, p)" | (half) "q = p + 2 ^ l" "k \<le> l" "l < c"
  using assms by (auto simp: alloc_block_def)

lemma alloc_block_wf:
  assumes wf: "blocks_wf M lo hi S" and mem: "(c, p) \<in> S"
  shows "blocks_wf M lo hi (alloc_block S k c p)"
proof (rule blocks_wfI)
  note b = blocks_wfD [OF wf mem]
  show "l \<le> M \<and> 2 ^ l dvd q \<and> lo \<le> q \<and> q + 2 ^ l \<le> hi" if "(l, q) \<in> alloc_block S k c p" for l q
    using that
  proof (cases rule: alloc_block_cases)
    case half
    then have "blk l q \<subseteq> {lo..<hi}" using aligned_half(2) [OF b(2) half(3)] b(5) by blast
    then show ?thesis using half b(1) aligned_half(1) [OF b(2) half(3)] by (simp add: blk_subset)
  qed (use blocks_wfD [OF wf, of l q] in simp)
  have in_c: "blk l q \<subseteq> blk c p" if "q = p + 2 ^ l" "l < c" for l q using aligned_half(2) [OF b(2) that(2)] that(1) by simp
  have off: "blk c p \<inter> blk j r = {}" if "(j, r) \<in> S" "(j, r) \<noteq> (c, p)" for j r using blocks_wf_apart [OF wf mem that(1)] that(2) by auto
  show "blk l q \<inter> blk j r = {}" if m: "(l, q) \<in> alloc_block S k c p" "(j, r) \<in> alloc_block S k c p" and ne: "(l, q) \<noteq> (j, r)" for l q j r
    using m(1)
  proof (cases rule: alloc_block_cases)
    case lq: old
    from m(2) show ?thesis
      by (cases rule: alloc_block_cases) (use blocks_wf_apart [OF wf lq(1), of j r] ne off [OF lq] in_c in blast)+
  next
    case lq: half
    from m(2) show ?thesis
    proof (cases rule: alloc_block_cases)
      case old
      then show ?thesis using off [OF old] in_c [OF lq(1,3)] by blast
    next
      case half
      then show ?thesis using lq ne half_apart [of l j p] half_apart [of j l p] by (cases l j rule: linorder_cases) auto
    qed
  qed
qed

text \<open>The buddy of every half that is put back contains the block that was taken.\<close>

lemma alloc_block_coalesced:
  assumes wf: "blocks_wf M lo hi S" and co: "coalesced M S" and mem: "(c, p) \<in> S"
  shows "coalesced M (alloc_block S k c p)"
  unfolding coalesced_def
proof (clarify)
  fix l q
  assume lq: "(l, q) \<in> alloc_block S k c p" and bd: "(l, buddy l q) \<in> alloc_block S k c p" and "l < M"
  have al: "2 ^ l dvd q" using blocks_wfD(2) [OF alloc_block_wf [OF wf mem] lq] .
  have no: "(l, p) \<notin> alloc_block S k c p"
    using blocks_wf_apart [OF wf mem, of l p] blk_nonempty by (auto elim!: alloc_block_cases)
  note bud = aligned_half(3) [OF blocks_wfD(2) [OF wf mem]]
  from lq show False
  proof (cases rule: alloc_block_cases)
    case half
    with bud [of l] bd no show False by simp
  next
    case lq_old: old
    from bd show False
    proof (cases rule: alloc_block_cases)
      case half
      with bud [of l] buddy_buddy [OF al] lq no show False by simp
    next
      case old
      with lq_old(1) \<open>l < M\<close> co show False by (auto simp: coalesced_def)
    qed
  qed
qed

lemma alloc_block_props:
  assumes wf: "blocks_wf M lo hi S" and co: "coalesced M S" and mem: "(c, p) \<in> S" and k: "k \<le> c"
  shows "blocks_wf M lo hi (alloc_block S k c p) \<and> coalesced M (alloc_block S k c p) \<and>
         frames (alloc_block S k c p) = frames S - blk k p"
proof (intro conjI)
  show "blocks_wf M lo hi (alloc_block S k c p)" by (rule alloc_block_wf [OF wf mem])
  show "coalesced M (alloc_block S k c p)" by (rule alloc_block_coalesced [OF wf co mem])
  define U where "U = (\<Union>j\<in>{k..<c}. blk j (p + 2 ^ j))"
  have "frames (alloc_block S k c p) = frames (S - {(c, p)}) \<union> U"
    by (fastforce simp: alloc_block_def frames_iff U_def)
  moreover have "blk c p = blk k p \<union> U" "blk k p \<inter> U = {}"
    using alloc_block_frames [OF k, of p] by (auto simp: U_def)
  ultimately show "frames (alloc_block S k c p) = frames S - blk k p"
    using frames_remove [OF wf mem] blk_frames [OF mem] by blast
qed

section \<open>The block set is determined by the free frames\<close>

text \<open>
  A coalesced block set has exactly one shape for a given set of free frames: this is why
  releasing everything restores the free lists.
\<close>

lemma coalesced_no_refinement:
  assumes wf: "blocks_wf M lo hi S" "blocks_wf M lo hi T" and co: "coalesced M S"
    and fr: "frames T \<subseteq> frames S" and lq: "(l, q) \<in> T" and kp: "(k, p) \<in> S"
    and meet: "blk k p \<inter> blk l q \<noteq> {}"
  shows "l \<le> k"
proof (rule ccontr)
  assume "\<not> l \<le> k"
  then have kl: "k < l" by simp
  note T = blocks_wfD [OF wf(2) lq]
  define inside where "inside m \<longleftrightarrow> m < l \<and> (\<exists>r. (m, r) \<in> S \<and> blk m r \<subseteq> blk l q)" for m
  have "blk k p \<subseteq> blk l q"
    using blk_nested [OF blocks_wfD(2) [OF wf(1) kp] T(2)] kl meet by simp
  with kl kp have "inside k" by (auto simp: inside_def)
  define m where "m = (LEAST m. inside m)"
  from \<open>inside k\<close> have "inside m" unfolding m_def by (rule LeastI)
  then obtain r where m: "m < l" "(m, r) \<in> S" "blk m r \<subseteq> blk l q" by (auto simp: inside_def)
  note r = blocks_wfD [OF wf(1) m(2)]
  have par: "blk (Suc m) (parent m r) \<subseteq> blk l q"
    using blk_nested [OF parent_aligned [OF r(2)] T(2)] m blk_parent [OF r(2)] blk_nonempty [of r m]
    by auto
  then have "buddy m r \<in> blk l q"
    using blk_parent [OF r(2)] blk_nonempty [of "buddy m r" m] by auto
  with lq fr obtain j t where jt: "(j, t) \<in> S" "buddy m r \<in> blk j t" by (force simp: frames_iff)
  note t = blocks_wfD [OF wf(1) jt(1)]
  have meet': "blk m (buddy m r) \<inter> blk j t \<noteq> {}" using jt(2) blk_nonempty [of "buddy m r" m] by auto
  show False
  proof (cases "m < j")
    case True
    then have "blk (Suc m) (parent m r) \<subseteq> blk j t"
      using blk_nested [OF parent_aligned [OF r(2)] t(2)] meet' blk_parent [OF r(2)] by auto
    then have "r \<in> blk j t" using blk_parent [OF r(2)] blk_nonempty [of r m] by auto
    then have "(j, t) = (m, r)" using blocks_wf_apart [OF wf(1) jt(1) m(2)] blk_nonempty [of r m] by auto
    with True show False by simp
  next
    case False
    then have sub: "blk j t \<subseteq> blk m (buddy m r)"
      using blk_nested [OF t(2) buddy_aligned [OF r(2)]] meet' by (auto simp: Int_commute)
    then have "blk j t \<subseteq> blk l q" using par blk_parent [OF r(2)] by auto
    with jt False m have "inside j" by (auto simp: inside_def)
    then have "m \<le> j" unfolding m_def by (rule Least_le)
    with False have "j = m" by simp
    with sub jt(2) have "t = buddy m r" by (auto simp: blk_def)
    with jt \<open>j = m\<close> m co r(1) T(1) show False by (auto simp: coalesced_def)
  qed
qed

theorem blocks_canonical:
  assumes wf: "blocks_wf M lo hi S" "blocks_wf M lo hi T" and co: "coalesced M S" "coalesced M T"
    and fr: "frames S = frames T"
  shows "S = T"
proof -
  have sub: "A \<subseteq> B" if wf: "blocks_wf M lo hi A" "blocks_wf M lo hi B"
    and co: "coalesced M A" "coalesced M B" and fr: "frames A = frames B" for A B
  proof (clarify)
    fix k p assume kp: "(k, p) \<in> A"
    then have "p \<in> frames B" using blk_frames blk_nonempty fr by blast
    then obtain l q where lq: "(l, q) \<in> B" "p \<in> blk l q" by (auto simp: frames_iff)
    then have meet: "blk k p \<inter> blk l q \<noteq> {}" using blk_nonempty [of p k] by auto
    have "l \<le> k" using coalesced_no_refinement [OF wf co(1) _ lq(1) kp meet] fr by simp
    moreover have "k \<le> l"
      using coalesced_no_refinement [OF wf(2,1) co(2) _ kp lq(1)] meet fr by (simp add: Int_commute)
    ultimately have "k = l" by simp
    note al = blocks_wfD(2) [OF wf(1) kp] blocks_wfD(2) [OF wf(2) lq(1)]
    have "blk k p = blk l q"
      using blk_nested [OF al] blk_nested [OF al(2,1)] meet \<open>k = l\<close> by (simp add: Int_commute)
    then have "p = q" using \<open>k = l\<close> by (auto intro: blk_inj)
    with lq \<open>k = l\<close> show "(k, p) \<in> B" by simp
  qed
  show ?thesis using sub [OF wf co fr] sub [OF wf(2,1) co(2,1) fr [symmetric]] by blast
qed

corollary alloc_free_block:
  assumes "blocks_wf M lo hi S" "coalesced M S" "(c, p) \<in> S" "k \<le> c"
  shows "free_block M (alloc_block S k c p) k p = S"
proof -
  note a = alloc_block_props [OF assms]
  note b = blocks_wfD [OF assms(1,3)]
  have kp: "k \<le> M" "2 ^ k dvd p" "p + 2 ^ k \<le> hi"
    using b assms(4) power_increasing [OF assms(4), of "2::nat"]
    by (auto intro: dvd_trans [OF le_imp_power_dvd] simp del: power_increasing_iff)
  have sub: "blk k p \<subseteq> frames S"
    using blk_frames [OF assms(3)] alloc_block_frames [OF assms(4), of p] by blast
  note f = free_block_props [OF conjunct1 [OF a] kp(1,2) b(3) kp(3)]
  show ?thesis
    by (rule blocks_canonical [OF _ assms(1) _ assms(2)]) (use f a sub in auto)
qed

end
