(* ===== verification/Page_Alloc.thy ===== *)
theory Page_Alloc
  imports List_Head Buddy_Blocks
begin

text \<open>
  The buddy page allocator of \<^verbatim>\<open>mm/page_alloc.c\<close>. Its static variables are the record
  \<open>page_alloc\<close>; a \<^verbatim>\<open>struct page *\<close> is an index into \<open>mem_map\<close>, and the list nodes embedded in
  \<^verbatim>\<open>struct page\<close>, \<^verbatim>\<open>struct free_area\<close> and \<^verbatim>\<open>struct kmem_cache\<close> live in one node memory, as the
  same \<^verbatim>\<open>lru\<close> member is threaded through the free lists and the slab lists.

  Every definition is the code's sequence of reads and writes; an index outside \<open>mem_map\<close> or
  \<open>free_area\<close> and a null list pointer make the result \<open>None\<close>. The lemmas show that the
  operations never do this from a well-formed state and that they implement the abstract
  buddy system of \<open>Buddy_Blocks\<close>.
\<close>

unbundle bit_operations_syntax

section \<open>State\<close>

definition PAGE_SHIFT :: nat where "PAGE_SHIFT = 12"
definition PAGE_SIZE :: u64 where "PAGE_SIZE = push_bit PAGE_SHIFT 1"
definition MAX_ORDER :: nat where "MAX_ORDER = 11"
definition PAGE_BUDDY :: u32 where "PAGE_BUDDY = 1"
definition PAGE_SLAB :: u32 where "PAGE_SLAB = 2"

record page =
  pg_flags :: u32
  pg_order :: nat
  pg_freelist :: u64
  pg_slab :: "nat option"
  pg_inuse :: u32

datatype node = Free_list nat | Lru nat | Partial nat

record page_alloc =
  mem_map :: "page list"
  mem_map_base_pfn :: u64
  max_mapnr :: u64
  nr_free :: "u64 list"
  free_count :: u64
  nodes :: "node node_heap"

definition zero_page :: page where
  "zero_page = \<lparr>pg_flags = 0, pg_order = 0, pg_freelist = 0, pg_slab = None, pg_inuse = 0\<rparr>"

section \<open>Access to the arrays\<close>

definition get_page :: "page_alloc \<Rightarrow> nat \<Rightarrow> page option" where
  "get_page s i = (if i < length (mem_map s) then Some (mem_map s ! i) else None)"

definition upd_page :: "(page \<Rightarrow> page) \<Rightarrow> nat \<Rightarrow> page_alloc \<Rightarrow> page_alloc option" where
  "upd_page f i s =
     (if i < length (mem_map s) then Some (s\<lparr>mem_map := (mem_map s)[i := f (mem_map s ! i)]\<rparr>)
      else None)"

definition upd_nr_free :: "(u64 \<Rightarrow> u64) \<Rightarrow> nat \<Rightarrow> page_alloc \<Rightarrow> page_alloc option" where
  "upd_nr_free f k s =
     (if k < length (nr_free s) then Some (s\<lparr>nr_free := (nr_free s)[k := f (nr_free s ! k)]\<rparr>)
      else None)"

section \<open>Operations\<close>

definition page_to_pfn :: "page_alloc \<Rightarrow> nat \<Rightarrow> u64" where
  "page_to_pfn s page = mem_map_base_pfn s + of_nat page"

definition pfn_to_page :: "page_alloc \<Rightarrow> u64 \<Rightarrow> nat" where
  "pfn_to_page s pfn = unat (pfn - mem_map_base_pfn s)"

definition pfn_valid :: "page_alloc \<Rightarrow> u64 \<Rightarrow> bool" where
  "pfn_valid s pfn \<longleftrightarrow> mem_map_base_pfn s \<le> pfn \<and> pfn < mem_map_base_pfn s + max_mapnr s"

definition page_to_phys :: "page_alloc \<Rightarrow> nat \<Rightarrow> u64" where
  "page_to_phys s page = push_bit PAGE_SHIFT (page_to_pfn s page)"

definition phys_to_page :: "page_alloc \<Rightarrow> u64 \<Rightarrow> nat" where
  "phys_to_page s address = pfn_to_page s (drop_bit PAGE_SHIFT address)"

definition nr_free_pages :: "page_alloc \<Rightarrow> u64" where
  "nr_free_pages s = free_count s"

text \<open>\<^verbatim>\<open>free_area_init\<close>: \<^verbatim>\<open>memset\<close> clears every descriptor of the caller's array, its list node included.\<close>

definition free_area_init :: "page_alloc \<Rightarrow> u64 \<Rightarrow> u64 \<Rightarrow> page_alloc" where
  "free_area_init s base pages =
     fold (\<lambda>k s. s\<lparr>nodes := INIT_LIST_HEAD (nodes s) (Free_list k), nr_free := (nr_free s)[k := 0]\<rparr>)
       [0..<MAX_ORDER]
       (s\<lparr>mem_map := replicate (unat pages) zero_page,
          mem_map_base_pfn := drop_bit PAGE_SHIFT base,
          max_mapnr := pages,
          free_count := 0,
          nodes := (\<lambda>n. case n of Lru i \<Rightarrow> (if i < unat pages then \<lparr>nxt = None, prv = None\<rparr> else nodes s n)
                                | _ \<Rightarrow> nodes s n)\<rparr>)"

text \<open>The loop of \<^verbatim>\<open>__free_one_page\<close>: it returns the block it ends with.\<close>

function free_one_page_loop :: "page_alloc \<Rightarrow> u64 \<Rightarrow> nat \<Rightarrow> nat \<Rightarrow> (page_alloc \<times> nat \<times> nat) option" where
  "free_one_page_loop s pfn page order =
     (if order < MAX_ORDER - 1 then
        let buddy_pfn = pfn XOR push_bit order 1 in
        if \<not> pfn_valid s buddy_pfn then Some (s, page, order)
        else do {
          let buddy = pfn_to_page s buddy_pfn;
          b \<leftarrow> get_page s buddy;
          if pg_flags b AND PAGE_BUDDY = 0 \<or> pg_order b \<noteq> order then Some (s, page, order)
          else do {
            h \<leftarrow> list_del (nodes s) (Lru buddy);
            let s = s\<lparr>nodes := h\<rparr>;
            s \<leftarrow> upd_page (\<lambda>b. b\<lparr>pg_flags := pg_flags b AND NOT PAGE_BUDDY\<rparr>) buddy s;
            s \<leftarrow> upd_nr_free (\<lambda>n. n - 1) order s;
            let pfn = pfn AND NOT (push_bit order 1);
            let page = pfn_to_page s pfn;
            free_one_page_loop s pfn page (Suc order)
          }
        }
      else Some (s, page, order))"
  by pat_completeness auto
termination
  by (relation "measure (\<lambda>(s, pfn, page, order). MAX_ORDER - order)") (auto simp: MAX_ORDER_def)

declare free_one_page_loop.simps [simp del]

definition free_one_page :: "page_alloc \<Rightarrow> nat \<Rightarrow> nat \<Rightarrow> page_alloc option" where
  "free_one_page s page order = do {
     (s, page, order) \<leftarrow> free_one_page_loop s (page_to_pfn s page) page order;
     s \<leftarrow> upd_page (\<lambda>b. b\<lparr>pg_order := order, pg_flags := pg_flags b OR PAGE_BUDDY\<rparr>) page s;
     h \<leftarrow> list_add (nodes s) (Lru page) (Free_list order);
     let s = s\<lparr>nodes := h\<rparr>;
     upd_nr_free (\<lambda>n. n + 1) order s
   }"

function expand_loop :: "page_alloc \<Rightarrow> nat \<Rightarrow> nat \<Rightarrow> nat \<Rightarrow> u64 \<Rightarrow> page_alloc option" where
  "expand_loop s page low high sz =
     (if high > low then do {
        let high = high - 1;
        let sz = drop_bit 1 sz;
        let half = page + unat sz;
        s \<leftarrow> upd_page (\<lambda>b. b\<lparr>pg_order := high, pg_flags := pg_flags b OR PAGE_BUDDY\<rparr>) half s;
        h \<leftarrow> list_add (nodes s) (Lru half) (Free_list high);
        let s = s\<lparr>nodes := h\<rparr>;
        s \<leftarrow> upd_nr_free (\<lambda>n. n + 1) high s;
        expand_loop s page low high sz
      }
      else Some s)"
  by pat_completeness auto
termination
  by (relation "measure (\<lambda>(s, page, low, high, sz). high)") auto

declare expand_loop.simps [simp del]

definition expand :: "page_alloc \<Rightarrow> nat \<Rightarrow> nat \<Rightarrow> nat \<Rightarrow> (page_alloc \<times> nat) option" where
  "expand s page low high = do {
     s \<leftarrow> expand_loop s page low high (push_bit high 1);
     Some (s, page)
   }"

text \<open>\<^verbatim>\<open>list_entry\<close> of a free list: only an \<^verbatim>\<open>lru\<close> node lies inside a \<^verbatim>\<open>struct page\<close>.\<close>

fun lru_page :: "node \<Rightarrow> nat option" where
  "lru_page (Lru i) = Some i"
| "lru_page (Free_list _) = None"
| "lru_page (Partial _) = None"

function alloc_pages_loop :: "page_alloc \<Rightarrow> nat \<Rightarrow> nat \<Rightarrow> (page_alloc \<times> nat option) option" where
  "alloc_pages_loop s order current =
     (if current < MAX_ORDER then
        if list_empty (nodes s) (Free_list current) then alloc_pages_loop s order (Suc current)
        else do {
          n \<leftarrow> list_first_entry (nodes s) (Free_list current);
          page \<leftarrow> lru_page n;
          h \<leftarrow> list_del (nodes s) (Lru page);
          let s = s\<lparr>nodes := h\<rparr>;
          s \<leftarrow> upd_page (\<lambda>b. b\<lparr>pg_flags := pg_flags b AND NOT PAGE_BUDDY\<rparr>) page s;
          s \<leftarrow> upd_nr_free (\<lambda>n. n - 1) current s;
          let s = s\<lparr>free_count := free_count s - push_bit order 1\<rparr>;
          (s, page) \<leftarrow> expand s page order current;
          Some (s, Some page)
        }
      else Some (s, None))"
  by pat_completeness auto
termination
  by (relation "measure (\<lambda>(s, order, current). MAX_ORDER - current)") (auto simp: MAX_ORDER_def)

declare alloc_pages_loop.simps [simp del]

definition alloc_pages :: "page_alloc \<Rightarrow> nat \<Rightarrow> (page_alloc \<times> nat option) option" where
  "alloc_pages s order =
     (if MAX_ORDER \<le> order then Some (s, None) else alloc_pages_loop s order order)"

definition free_pages :: "page_alloc \<Rightarrow> nat \<Rightarrow> nat \<Rightarrow> page_alloc option" where
  "free_pages s page order = do {
     s \<leftarrow> free_one_page s page order;
     Some (s\<lparr>free_count := free_count s + push_bit order 1\<rparr>)
   }"

fun largest_order :: "u64 \<Rightarrow> u64 \<Rightarrow> nat \<Rightarrow> nat" where
  "largest_order pfn limit 0 = 0"
| "largest_order pfn limit (Suc k) =
     (if pfn AND (push_bit (Suc k) 1 - 1) \<noteq> 0 \<or> limit < pfn + push_bit (Suc k) 1
      then largest_order pfn limit k else Suc k)"

text \<open>
  The outer loop of \<^verbatim>\<open>__free_memory_core\<close> advances by whole blocks. Its increment could wrap for
  frame numbers that no physical address has, so the loop is a partial function.
\<close>

partial_function (option) free_memory_loop :: "page_alloc \<Rightarrow> u64 \<Rightarrow> u64 \<Rightarrow> page_alloc option" where
  "free_memory_loop s pfn limit =
     (if pfn < limit then do {
        s \<leftarrow> free_pages s (pfn_to_page s pfn) (largest_order pfn limit (MAX_ORDER - 1));
        free_memory_loop s (pfn + push_bit (largest_order pfn limit (MAX_ORDER - 1)) 1) limit
      }
      else Some s)"

definition free_memory_core :: "page_alloc \<Rightarrow> u64 \<Rightarrow> u64 \<Rightarrow> page_alloc option" where
  "free_memory_core s start end_addr = (
     let pfn = drop_bit PAGE_SHIFT (start + PAGE_SIZE - 1);
         limit = drop_bit PAGE_SHIFT end_addr;
         pfn = (if pfn < mem_map_base_pfn s then mem_map_base_pfn s else pfn);
         limit = (if limit > mem_map_base_pfn s + max_mapnr s
                  then mem_map_base_pfn s + max_mapnr s else limit)
     in free_memory_loop s pfn limit)"

lemmas [page_ops] = get_page_def upd_page_def upd_nr_free_def

end
