(* ===== verification/Page_Alloc_Inv.thy ===== *)
theory Page_Alloc_Inv
  imports Page_Alloc
begin

text \<open>
  The well-formedness invariant of the page allocator, its preservation by every operation and
  the refinement of the abstract buddy system.
\<close>

unbundle bit_operations_syntax

section \<open>Bit operations on frame numbers and flags\<close>

lemma unat_pow2_le: "k < 64 \<Longrightarrow> odd (unat (w :: u64) div 2 ^ k) \<Longrightarrow> 2 ^ k \<le> w"
  using even_div_odd_le [of "unat w" k] by (simp add: word_le_nat_alt unat_pow2)

lemma unat_buddy:
  assumes "k < 64" and "unat (pfn :: u64) + 2 ^ k < 2 ^ 64"
  shows "unat (pfn XOR push_bit k 1) = buddy k (unat pfn)"
proof -
  have "pfn XOR push_bit k 1 = (if bit pfn k then pfn - 2 ^ k else pfn + 2 ^ k)"
    unfolding flip_bit_eq_xor [symmetric] by (simp add: flip_bit_eq_if unset_bit_eq set_bit_eq)
  then show ?thesis
    using assms unat_pow2_le [of k pfn]
    by (simp add: bit_u64_iff buddy_def unat_sub_le unat_add_nowrap unat_pow2)
qed

lemma unat_parent:
  assumes "k < 64"
  shows "unat ((pfn :: u64) AND NOT (push_bit k 1)) = parent k (unat pfn)"
proof -
  have "pfn AND NOT (push_bit k 1) = (if bit pfn k then pfn - 2 ^ k else pfn)"
    unfolding unset_bit_eq_and_not [symmetric] by (simp add: unset_bit_eq)
  then show ?thesis
    using assms unat_pow2_le [of k pfn]
    by (simp add: bit_u64_iff parent_def unat_sub_le unat_pow2)
qed

definition is_buddy :: "page \<Rightarrow> bool" where
  "is_buddy p \<longleftrightarrow> pg_flags p AND PAGE_BUDDY \<noteq> 0"

lemma is_buddy_bit: "is_buddy p \<longleftrightarrow> bit (pg_flags p) 0"
  by (simp add: is_buddy_def PAGE_BUDDY_def and_one_eq bit_0 mod2_eq_if)

lemma flag_ops [simp]:
  "is_buddy (p\<lparr>pg_flags := pg_flags p AND NOT PAGE_BUDDY\<rparr>) = False"
  "is_buddy (p\<lparr>pg_order := k, pg_flags := pg_flags p OR PAGE_BUDDY\<rparr>) = True"
  by (simp_all add: is_buddy_bit PAGE_BUDDY_def bit_and_iff bit_or_iff bit_not_iff bit_1_iff)

section \<open>The invariant\<close>

text \<open>
  The list heads of the page allocator and of the first \<open>K\<close> size-class caches; \<open>fl\<close> gives the
  pages on the free list of each order and \<open>pl\<close> the slab pages on each partial list.
\<close>

definition heads :: "nat \<Rightarrow> node set" where
  "heads K = Free_list ` {..<MAX_ORDER} \<union> Partial ` {..<K}"

fun node_list :: "(nat \<Rightarrow> nat list) \<Rightarrow> (nat \<Rightarrow> nat list) \<Rightarrow> node \<Rightarrow> node list" where
  "node_list fl pl (Free_list k) = map Lru (fl k)"
| "node_list fl pl (Partial c) = map Lru (pl c)"
| "node_list fl pl (Lru i) = []"

abbreviation base :: "page_alloc \<Rightarrow> nat" where
  "base s \<equiv> unat (mem_map_base_pfn s)"

abbreviation n_pages :: "page_alloc \<Rightarrow> nat" where
  "n_pages s \<equiv> length (mem_map s)"

definition blocks_of :: "nat \<Rightarrow> (nat \<Rightarrow> nat list) \<Rightarrow> block set" where
  "blocks_of B fl = {(k, B + i) | k i. k < MAX_ORDER \<and> i \<in> set (fl k)}"

definition map_wf :: "page_alloc \<Rightarrow> bool" where
  "map_wf s \<longleftrightarrow> unat (max_mapnr s) = n_pages s \<and> base s + n_pages s < 2 ^ 52 \<and> length (nr_free s) = MAX_ORDER"

definition tags_ok :: "page_alloc \<Rightarrow> (nat \<Rightarrow> nat list) \<Rightarrow> bool" where
  "tags_ok s fl \<longleftrightarrow>
     (\<forall>k<MAX_ORDER. nr_free s ! k = of_nat (length (fl k))) \<and>
     (\<forall>i<n_pages s. is_buddy (mem_map s ! i) \<longleftrightarrow> (\<exists>k<MAX_ORDER. i \<in> set (fl k))) \<and>
     (\<forall>k<MAX_ORDER. \<forall>i\<in>set (fl k). i < n_pages s \<and> pg_order (mem_map s ! i) = k)"

definition zone_wf :: "nat \<Rightarrow> (nat \<Rightarrow> nat list) \<Rightarrow> page_alloc \<Rightarrow> (nat \<Rightarrow> nat list) \<Rightarrow> bool" where
  "zone_wf K pl s fl \<longleftrightarrow>
     map_wf s \<and> family dlist (nodes s) (heads K) (node_list fl pl) \<and> tags_ok s fl \<and>
     blocks_wf (MAX_ORDER - 1) (base s) (base s + n_pages s) (blocks_of (base s) fl) \<and>
     (\<forall>c<K. \<forall>i\<in>set (pl c). base s + i \<notin> frames (blocks_of (base s) fl))"

text \<open>
  A block that is not free and that no slab uses: what the caller of \<^verbatim>\<open>__free_pages\<close> must hand in,
  and what \<^verbatim>\<open>alloc_pages\<close> hands out.
\<close>

definition freeable :: "nat \<Rightarrow> (nat \<Rightarrow> nat list) \<Rightarrow> page_alloc \<Rightarrow> (nat \<Rightarrow> nat list) \<Rightarrow> nat \<Rightarrow> nat \<Rightarrow> bool" where
  "freeable K pl s fl page k \<longleftrightarrow>
     k < MAX_ORDER \<and> 2 ^ k dvd base s + page \<and> page + 2 ^ k \<le> n_pages s \<and>
     blk k (base s + page) \<inter> frames (blocks_of (base s) fl) = {} \<and>
     (\<forall>c<K. \<forall>j\<in>set (pl c). base s + j \<notin> blk k (base s + page))"

lemma heads_simps [simp]:
  "Lru i \<notin> heads K" "Free_list k \<in> heads K \<longleftrightarrow> k < MAX_ORDER" "Partial c \<in> heads K \<longleftrightarrow> c < K"
  by (auto simp: heads_def)

lemma heads_cases:
  assumes "n \<in> heads K"
  obtains k where "n = Free_list k" "k < MAX_ORDER" | c where "n = Partial c" "c < K"
  using assms by (auto simp: heads_def)

lemma node_list_upd: "(node_list fl pl)(Free_list k := map Lru ys) = node_list (fl(k := ys)) pl"
  by (rule ext) (case_tac x, auto)

lemma blocks_of_iff: "(k, p) \<in> blocks_of B fl \<longleftrightarrow> k < MAX_ORDER \<and> B \<le> p \<and> p - B \<in> set (fl k)"
  by (auto simp: blocks_of_def) (metis le_add_diff_inverse)

lemma blocks_of_mem: "k < MAX_ORDER \<Longrightarrow> (k, B + i) \<in> blocks_of B fl \<longleftrightarrow> i \<in> set (fl k)"
  by (auto simp: blocks_of_iff)

lemma blocks_of_insert:
  "k < MAX_ORDER \<Longrightarrow> blocks_of B (fl(k := i # fl k)) = insert (k, B + i) (blocks_of B fl)"
  by (auto simp: blocks_of_def)

lemma blocks_of_remove:
  "distinct (fl k) \<Longrightarrow> blocks_of B (fl(k := remove1 i (fl k))) = blocks_of B fl - {(k, B + i)}"
  by (auto simp: blocks_of_def)

lemma map_remove1_Lru: "remove1 (Lru i) (map Lru xs) = map Lru (remove1 i xs)"
  by (induction xs) auto

lemma family_list_distinct:
  "zone_wf K pl s fl \<Longrightarrow> k < MAX_ORDER \<Longrightarrow> distinct (fl k)"
  using lh.family_distinct [of "nodes s" "heads K" "node_list fl pl" "Free_list k"]
  by (auto simp: zone_wf_def distinct_map)

text \<open>Each page is on at most one free list.\<close>

lemma one_list:
  assumes "zone_wf K pl s fl" "k < MAX_ORDER" "l < MAX_ORDER" "i \<in> set (fl k)" "i \<in> set (fl l)"
  shows "k = l"
  using assms unfolding zone_wf_def tags_ok_def by metis

section \<open>Taking a block off its list and putting one on\<close>

definition clear_buddy :: "page \<Rightarrow> page" where
  "clear_buddy b = b\<lparr>pg_flags := pg_flags b AND NOT PAGE_BUDDY\<rparr>"

definition set_buddy :: "nat \<Rightarrow> page \<Rightarrow> page" where
  "set_buddy k b = b\<lparr>pg_order := k, pg_flags := pg_flags b OR PAGE_BUDDY\<rparr>"

lemma length_pred_u64: "xs \<noteq> [] \<Longrightarrow> of_nat (length xs - Suc 0) = of_nat (length xs) - (1 :: u64)"
  by (cases xs) auto

lemma take_block:
  assumes wf: "zone_wf K pl s fl" and k: "k < MAX_ORDER" and i: "i \<in> set (fl k)"
  defines "t \<equiv> \<lambda>h. s\<lparr>nodes := h, mem_map := (mem_map s)[i := clear_buddy (mem_map s ! i)],
                     nr_free := (nr_free s)[k := nr_free s ! k - 1]\<rparr>"
  shows "i < n_pages s" "k < length (nr_free s)"
    and "\<exists>h. list_del (nodes s) (Lru i) = Some h \<and> zone_wf K pl (t h) (fl(k := remove1 i (fl k)))"
proof -
  show n: "i < n_pages s" "k < length (nr_free s)"
    using wf k i by (auto simp: zone_wf_def tags_ok_def map_wf_def)
  note d = family_list_distinct [OF wf k]
  let ?fl = "fl(k := remove1 i (fl k))"
  from wf k i obtain h where h: "list_del (nodes s) (Lru i) = Some h"
    "family dlist h (heads K) (node_list ?fl pl)"
    using lh.family_del [of "nodes s" "heads K" "node_list fl pl" "Free_list k" "Lru i"]
    by (auto simp: zone_wf_def map_remove1_Lru node_list_upd)
  have "tags_ok (t h) ?fl"
    unfolding tags_ok_def
  proof (intro conjI allI impI ballI)
    fix l assume "l < MAX_ORDER"
    then show "nr_free (t h) ! l = of_nat (length (?fl l))"
      using wf k n i d length_pos_if_in_set [OF i]
      by (auto simp: t_def zone_wf_def tags_ok_def nth_list_update length_remove1 length_pred_u64)
  next
    fix j assume j: "j < n_pages (t h)"
    show "is_buddy (mem_map (t h) ! j) \<longleftrightarrow> (\<exists>l<MAX_ORDER. j \<in> set (?fl l))"
    proof (cases "j = i")
      case True
      have "\<not> (\<exists>l<MAX_ORDER. i \<in> set (?fl l))" using one_list [OF wf _ k _ i] d by auto
      with True n show ?thesis by (simp add: t_def clear_buddy_def)
    next
      case False
      have "(\<exists>l<MAX_ORDER. j \<in> set (?fl l)) \<longleftrightarrow> (\<exists>l<MAX_ORDER. j \<in> set (fl l))"
        using False d by auto
      with False j wf show ?thesis by (simp add: t_def zone_wf_def tags_ok_def)
    qed
  next
    fix l j assume l: "l < MAX_ORDER" and "j \<in> set (?fl l)"
    then have "j \<in> set (fl l)" using set_remove1_subset [of i "fl k"] by (auto split: if_splits)
    then have "j < n_pages s \<and> pg_order (mem_map s ! j) = l"
      using wf l unfolding zone_wf_def tags_ok_def by blast
    then show "j < n_pages (t h)" "pg_order (mem_map (t h) ! j) = l"
      by (cases "j = i"; simp add: t_def clear_buddy_def)+
  qed
  moreover have "blocks_of (base s) ?fl \<subseteq> blocks_of (base s) fl"
    using blocks_of_remove [of fl k "base s" i] d by auto
  ultimately have "zone_wf K pl (t h) ?fl"
    using wf h(2) blocks_wf_subset
    by (fastforce simp: zone_wf_def t_def map_wf_def frames_def)
  with h(1) show "\<exists>h. list_del (nodes s) (Lru i) = Some h \<and> zone_wf K pl (t h) ?fl"
    by blast
qed

lemma tags_ok_put:
  assumes tags: "tags_ok s fl" and n: "i < n_pages s" "k < length (nr_free s)" "k < MAX_ORDER" and out: "\<And>l. l < MAX_ORDER \<Longrightarrow> i \<notin> set (fl l)"
  shows "tags_ok (s\<lparr>mem_map := (mem_map s)[i := set_buddy k (mem_map s ! i)], nodes := h, nr_free := (nr_free s)[k := nr_free s ! k + 1]\<rparr>)
    (fl(k := i # fl k))" (is "tags_ok ?t ?fl")
  unfolding tags_ok_def
proof (intro conjI allI impI ballI)
  show "nr_free ?t ! l = of_nat (length (?fl l))" if "l < MAX_ORDER" for l
    using that tags n by (auto simp: tags_ok_def nth_list_update)
  show "is_buddy (mem_map ?t ! j) \<longleftrightarrow> (\<exists>l<MAX_ORDER. j \<in> set (?fl l))" if j: "j < n_pages ?t" for j
  proof (cases "j = i")
    case True
    with n show ?thesis by (auto simp: set_buddy_def)
  next
    case False
    then have "(\<exists>l<MAX_ORDER. j \<in> set (?fl l)) \<longleftrightarrow> (\<exists>l<MAX_ORDER. j \<in> set (fl l))" by auto
    with False j tags show ?thesis by (simp add: tags_ok_def)
  qed
  fix l j assume l: "l < MAX_ORDER" "j \<in> set (?fl l)"
  then have "j \<in> set (fl l) \<or> j = i \<and> l = k" by (auto split: if_splits)
  moreover have "j < n_pages s \<and> pg_order (mem_map s ! j) = l" if "j \<in> set (fl l)"
    using tags l(1) that unfolding tags_ok_def by blast
  ultimately show "j < n_pages ?t" "pg_order (mem_map ?t ! j) = l"
    using n out [OF l(1)] by (cases "j = i"; auto simp: set_buddy_def)+
qed

lemma put_block:
  assumes wf: "zone_wf K pl s fl" and fr: "freeable K pl s fl i k"
  defines "t \<equiv> \<lambda>h. s\<lparr>mem_map := (mem_map s)[i := set_buddy k (mem_map s ! i)], nodes := h,
                     nr_free := (nr_free s)[k := nr_free s ! k + 1]\<rparr>"
  shows "i < n_pages s" "k < length (nr_free s)"
    and "\<exists>h. list_add (nodes s) (Lru i) (Free_list k) = Some h \<and> zone_wf K pl (t h) (fl(k := i # fl k))"
proof -
  from fr have k: "k < MAX_ORDER" and al: "2 ^ k dvd base s + i" and hi: "i + 2 ^ k \<le> n_pages s"
    and free: "blk k (base s + i) \<inter> frames (blocks_of (base s) fl) = {}"
    and part: "\<And>c j. c < K \<Longrightarrow> j \<in> set (pl c) \<Longrightarrow> base s + j \<notin> blk k (base s + i)"
    by (auto simp: freeable_def)
  show n: "i < n_pages s" "k < length (nr_free s)"
    using wf k less_le_trans [OF _ hi, of i] by (auto simp: zone_wf_def map_wf_def)
  let ?fl = "fl(k := i # fl k)"
  have out: "i \<notin> set (fl l)" if "l < MAX_ORDER" for l
  proof
    assume "i \<in> set (fl l)"
    then have "base s + i \<in> frames (blocks_of (base s) fl)"
      using blk_frames [of l "base s + i" "blocks_of (base s) fl"] blk_nonempty [of "base s + i" l]
        blocks_of_mem [OF that] by blast
    with free blk_nonempty [of "base s + i" k] show False by blast
  qed
  have "Lru i \<notin> set (node_list fl pl n)" if "n \<in> heads K" for n
    using that out part blk_nonempty [of "base s + i" k] by (auto elim!: heads_cases)
  with wf k obtain h where h: "list_add (nodes s) (Lru i) (Free_list k) = Some h"
    "family dlist h (heads K) (node_list ?fl pl)"
    using lh.family_add [of "nodes s" "heads K" "node_list fl pl" "Free_list k" "Lru i"]
      node_list_upd [of fl pl k "i # fl k"]
    by (auto simp: zone_wf_def)
  have "tags_ok (t h) ?fl" unfolding t_def using wf by (intro tags_ok_put [OF _ n k out]) (simp_all add: zone_wf_def)
  moreover have bl: "blocks_of (base s) ?fl = insert (k, base s + i) (blocks_of (base s) fl)"
    using k by (rule blocks_of_insert)
  moreover have "blocks_wf (MAX_ORDER - 1) (base s) (base s + n_pages s) (insert (k, base s + i) (blocks_of (base s) fl))"
    using wf k al hi free by (intro blocks_wf_insert) (auto simp: zone_wf_def)
  ultimately have "zone_wf K pl (t h) ?fl"
    using wf h(2) part by (auto simp: zone_wf_def t_def map_wf_def)
  with h(1) show "\<exists>h. list_add (nodes s) (Lru i) (Free_list k) = Some h \<and> zone_wf K pl (t h) ?fl"
    by blast
qed

section \<open>Frame numbers\<close>

lemma MAX_ORDER_bound: "k < MAX_ORDER \<Longrightarrow> k < 64 \<and> (2::nat) ^ k \<le> 1024"
  using power_increasing [of k 10 "2::nat"] by (simp add: MAX_ORDER_def)

lemma pfn_valid_iff:
  "map_wf s \<Longrightarrow> pfn_valid s w \<longleftrightarrow> base s \<le> unat w \<and> unat w < base s + n_pages s"
  by (simp add: map_wf_def pfn_valid_def word_le_nat_alt word_less_nat_alt unat_add_nowrap)

lemma pfn_to_page_eq: "base s \<le> unat w \<Longrightarrow> pfn_to_page s w = unat w - base s"
  by (simp add: pfn_to_page_def word_le_nat_alt unat_sub_le)

lemma unat_page_to_pfn: "map_wf s \<Longrightarrow> i \<le> n_pages s \<Longrightarrow> unat (page_to_pfn s i) = base s + i"
  by (simp add: map_wf_def page_to_pfn_def unat_word_ariths unat_of_nat)

lemma pfn_page_roundtrip: "map_wf s \<Longrightarrow> i \<le> n_pages s \<Longrightarrow> pfn_to_page s (page_to_pfn s i) = i"
  by (simp add: pfn_to_page_eq unat_page_to_pfn)

section \<open>Freeing\<close>

text \<open>What an operation on the frames \<open>F\<close> leaves alone.\<close>

definition same_outside :: "nat set \<Rightarrow> page_alloc \<Rightarrow> page_alloc \<Rightarrow> bool" where
  "same_outside F s s' \<longleftrightarrow>
     mem_map_base_pfn s' = mem_map_base_pfn s \<and> max_mapnr s' = max_mapnr s \<and> n_pages s' = n_pages s \<and>
     (\<forall>j. base s + j \<notin> F \<longrightarrow> mem_map s' ! j = mem_map s ! j)"

lemma same_outside_refl [simp]: "same_outside F s s"
  by (simp add: same_outside_def)

lemma same_outside_trans:
  "same_outside F s t \<Longrightarrow> same_outside G t u \<Longrightarrow> F \<subseteq> H \<Longrightarrow> G \<subseteq> H \<Longrightarrow> same_outside H s u"
  unfolding same_outside_def by fastforce

lemma same_outside_upd:
  assumes "base s + i \<in> F"
  shows "same_outside F s (s\<lparr>nodes := h, mem_map := (mem_map s)[i := b], nr_free := ns\<rparr>)"
    and "same_outside F s (s\<lparr>mem_map := (mem_map s)[i := b], nodes := h, nr_free := ns\<rparr>)"
  using assms by (auto simp: same_outside_def nth_list_update_neq) (metis nth_list_update_neq)+

lemma buddy_listed_iff:
  assumes wf: "zone_wf K pl s fl" and k: "k < MAX_ORDER" and j: "j < n_pages s"
  shows "is_buddy (mem_map s ! j) \<and> pg_order (mem_map s ! j) = k \<longleftrightarrow> (k, base s + j) \<in> blocks_of (base s) fl"
  using assms unfolding zone_wf_def tags_ok_def blocks_of_mem [OF k] by metis

lemma freeable_join:
  assumes wf: "zone_wf K pl s fl" and fr: "freeable K pl s fl page k" and k: "Suc k < MAX_ORDER"
    and b: "(k, buddy k (base s + page)) \<in> blocks_of (base s) fl"
    and t: "same_outside F s t" "blocks_of (base s) fl' = blocks_of (base s) fl - {(k, buddy k (base s + page))}"
  shows "base s \<le> parent k (base s + page) \<and> freeable K pl t fl' (parent k (base s + page) - base s) (Suc k)"
proof -
  let ?p = "base s + page" and ?S = "blocks_of (base s) fl"
  let ?q = "parent k ?p"
  from fr have al: "2 ^ k dvd ?p" by (simp add: freeable_def)
  from wf have bw: "blocks_wf (MAX_ORDER - 1) (base s) (base s + n_pages s) ?S" by (simp add: zone_wf_def)
  have up: "blk (Suc k) ?q = blk k ?p \<union> blk k (buddy k ?p)" using al by (rule blk_parent)
  have "blk (Suc k) ?q \<subseteq> {base s..<base s + n_pages s}"
    using up blocks_wfD(5) [OF bw b] fr by (simp add: freeable_def blk_subset)
  then have q: "base s \<le> ?q" "?q + 2 ^ Suc k \<le> base s + n_pages s" by (simp_all add: blk_subset)
  have rest: "frames (?S - {(k, buddy k ?p)}) = frames ?S - blk k (buddy k ?p)"
    using bw b by (rule frames_remove)
  have "base s + j \<notin> blk (Suc k) ?q" if "c < K" "j \<in> set (pl c)" for c j
    using that wf fr up blk_frames [OF b] by (auto simp: zone_wf_def freeable_def)
  with q fr t k rest up parent_aligned [OF al] show ?thesis
    by (auto simp: freeable_def same_outside_def)
qed

lemma free_loop_stop:
  assumes "freeable K pl s fl page k"
    and "k < MAX_ORDER - 1 \<Longrightarrow> (k, buddy k (base s + page)) \<notin> blocks_of (base s) fl"
  shows "free_block (MAX_ORDER - 1) (blocks_of (base s) fl) k (base s + page) =
         insert (k, base s + page) (blocks_of (base s) fl)"
  using assms(2) by (subst free_block.simps) auto

lemma free_loop_buddy:
  assumes "zone_wf K pl s fl" "freeable K pl s fl page k" "unat (pfn :: u64) = base s + page"
  shows "unat (pfn XOR push_bit k 1) = buddy k (base s + page)"
proof -
  have "map_wf s" "k < MAX_ORDER" using assms(1,2) by (simp_all add: zone_wf_def freeable_def)
  then show ?thesis using assms(2,3) MAX_ORDER_bound [of k] by (subst unat_buddy) (auto simp: freeable_def map_wf_def)
qed

lemma free_loop_ends:
  assumes wf: "zone_wf K pl s fl" and fr: "freeable K pl s fl page k" and pfn: "unat pfn = base s + page"
    and no: "\<not> (k < MAX_ORDER - 1 \<and> (k, buddy k (base s + page)) \<in> blocks_of (base s) fl)"
  shows "free_one_page_loop s pfn page k = Some (s, page, k)"
proof (cases "k < MAX_ORDER - 1 \<and> pfn_valid s (pfn XOR push_bit k 1)")
  case True
  let ?b = "buddy k (base s + page)"
  note xor = free_loop_buddy [OF wf fr pfn]
  have mw: "map_wf s" and k: "k < MAX_ORDER" using wf fr by (simp_all add: zone_wf_def freeable_def)
  have v: "base s \<le> ?b" "?b < base s + n_pages s" using True xor pfn_valid_iff [OF mw] by auto
  have "\<not> (is_buddy (mem_map s ! (?b - base s)) \<and> pg_order (mem_map s ! (?b - base s)) = k)"
    using buddy_listed_iff [OF wf k, of "?b - base s"] v True no by auto
  with True v xor show ?thesis
    by (subst free_one_page_loop.simps) (auto simp: Let_def get_page_def pfn_to_page_eq is_buddy_def)
next
  case False
  then show ?thesis by (subst free_one_page_loop.simps) auto
qed

lemma free_loop_joins:
  assumes wf: "zone_wf K pl s fl" and fr: "freeable K pl s fl page k" and pfn: "unat pfn = base s + page"
    and k': "Suc k < MAX_ORDER" and b: "(k, buddy k (base s + page)) \<in> blocks_of (base s) fl"
  defines "q \<equiv> parent k (base s + page)"
  shows "\<exists>t fl'. free_one_page_loop s pfn page k = free_one_page_loop t (pfn AND NOT (push_bit k 1)) (q - base s) (Suc k) \<and>
    zone_wf K pl t fl' \<and> freeable K pl t fl' (q - base s) (Suc k) \<and> unat (pfn AND NOT (push_bit k 1)) = q \<and> base s \<le> q \<and>
    blocks_of (base s) fl' = blocks_of (base s) fl - {(k, buddy k (base s + page))} \<and>
    same_outside (frames (blocks_of (base s) fl)) s t \<and> free_count t = free_count s"
proof -
  have mw: "map_wf s" and k: "k < MAX_ORDER" using wf fr by (simp_all add: zone_wf_def freeable_def)
  define j where "j = buddy k (base s + page) - base s"
  have j: "base s + j = buddy k (base s + page)" "j \<in> set (fl k)" using b by (auto simp: j_def blocks_of_iff)
  let ?fl = "fl(k := remove1 j (fl k))"
  note n = take_block(1,2) [OF wf k j(2)]
  from take_block(3) [OF wf k j(2)] obtain h t where h: "list_del (nodes s) (Lru j) = Some h"
    "zone_wf K pl t ?fl" and t_def: "t = s\<lparr>nodes := h, mem_map := (mem_map s)[j := clear_buddy (mem_map s ! j)],
       nr_free := (nr_free s)[k := nr_free s ! k - 1]\<rparr>" by blast
  have S': "blocks_of (base s) ?fl = blocks_of (base s) fl - {(k, buddy k (base s + page))}"
    using blocks_of_remove [of fl k "base s" j] family_list_distinct [OF wf k] j(1) by simp
  have same: "same_outside (frames (blocks_of (base s) fl)) s t"
    unfolding t_def
    by (rule same_outside_upd) (use blk_frames [OF b] blk_nonempty [of "base s + j" k] j in auto)
  have fr': "base s \<le> q" "freeable K pl t ?fl (q - base s) (Suc k)"
    using freeable_join [OF wf fr k' b same S'] by (simp_all add: q_def)
  have pfn': "unat (pfn AND NOT (push_bit k 1)) = q"
    using pfn MAX_ORDER_bound [OF k] unat_parent [of k pfn] by (simp add: q_def)
  have page': "pfn_to_page t (pfn AND NOT (push_bit k 1)) = q - base s"
    using pfn' fr'(1) by (simp add: pfn_to_page_eq t_def)
  have tag: "is_buddy (mem_map s ! j)" "pg_order (mem_map s ! j) = k"
    using buddy_listed_iff [OF wf k n(1)] b j(1) by simp_all
  have val: "pfn_valid s (pfn XOR push_bit k 1)" "pfn_to_page s (pfn XOR push_bit k 1) = j"
    using free_loop_buddy [OF wf fr pfn] j(1) n(1) pfn_valid_iff [OF mw] by (auto simp: pfn_to_page_eq)
  have "free_one_page_loop s pfn page k = free_one_page_loop t (pfn AND NOT (push_bit k 1)) (q - base s) (Suc k)"
    using val tag h(1) n less_diff_conv [of k MAX_ORDER 1] k' page'
    by (subst free_one_page_loop.simps)
      (simp add: Let_def get_page_def upd_page_def upd_nr_free_def is_buddy_def t_def clear_buddy_def)
  moreover have "free_count t = free_count s" by (simp add: t_def)
  ultimately show ?thesis using h(2) S' same fr' pfn' by blast
qed

lemma free_loop_refines:
  assumes "zone_wf K pl s fl" and "freeable K pl s fl page k" and "unat pfn = base s + page"
  shows "\<exists>s' page' k' fl'. free_one_page_loop s pfn page k = Some (s', page', k') \<and>
           zone_wf K pl s' fl' \<and> freeable K pl s' fl' page' k' \<and> free_count s' = free_count s \<and>
           same_outside (frames (blocks_of (base s) fl)) s s' \<and>
           free_block (MAX_ORDER - 1) (blocks_of (base s) fl) k (base s + page) =
             insert (k', base s + page') (blocks_of (base s) fl')"
  using assms
proof (induction "MAX_ORDER - k" arbitrary: s pfn page k fl rule: less_induct)
  case less
  let ?S = "blocks_of (base s) fl" and ?b = "buddy k (base s + page)"
  note wf = less.prems(1) and fr = less.prems(2) and pfn = less.prems(3)
  show ?case
  proof (cases "k < MAX_ORDER - 1 \<and> (k, ?b) \<in> ?S")
    case False
    from False wf fr free_loop_stop [OF fr] free_loop_ends [OF wf fr pfn False] show ?thesis by fastforce
  next
    case True
    define q where "q = parent k (base s + page)"
    from True have "Suc k < MAX_ORDER" "(k, ?b) \<in> ?S" by auto
    from free_loop_joins [OF wf fr pfn this, folded q_def] obtain t ft where
      step: "free_one_page_loop s pfn page k = free_one_page_loop t (pfn AND NOT (push_bit k 1)) (q - base s) (Suc k)"
      and t: "zone_wf K pl t ft" "freeable K pl t ft (q - base s) (Suc k)" "unat (pfn AND NOT (push_bit k 1)) = q" "base s \<le> q"
        "blocks_of (base s) ft = ?S - {(k, ?b)}" "same_outside (frames ?S) s t" "free_count t = free_count s" by blast
    have bs: "base t = base s" using t(6) by (simp add: same_outside_def)
    have "MAX_ORDER - Suc k < MAX_ORDER - k" using True by auto
    moreover have "unat (pfn AND NOT (push_bit k 1)) = base t + (q - base s)" using t(3,4) bs by simp
    ultimately obtain s' page' k' fl' where IH:
      "free_one_page_loop t (pfn AND NOT (push_bit k 1)) (q - base s) (Suc k) = Some (s', page', k')"
      "zone_wf K pl s' fl'" "freeable K pl s' fl' page' k'" "free_count s' = free_count t"
      "same_outside (frames (blocks_of (base t) ft)) t s'"
      "free_block (MAX_ORDER - 1) (blocks_of (base t) ft) (Suc k) (base t + (q - base s)) =
        insert (k', base t + page') (blocks_of (base t) fl')"
      using less.hyps [OF _ t(1,2)] by blast
    have "same_outside (frames ?S) s s'"
      by (rule same_outside_trans [OF t(6) IH(5)]) (use bs t(5) in \<open>auto simp: frames_def\<close>)
    moreover have "free_block (MAX_ORDER - 1) ?S k (base s + page) =
        insert (k', base s + page') (blocks_of (base s) fl')"
      using IH(6) t(4,5) True bs by (subst free_block.simps) (simp add: q_def)
    ultimately show ?thesis using step IH t(7) by auto
  qed
qed

lemma free_block_frames:
  assumes "zone_wf K pl s fl" and "freeable K pl s fl page k"
  shows "frames (free_block (MAX_ORDER - 1) (blocks_of (base s) fl) k (base s + page)) =
         frames (blocks_of (base s) fl) \<union> blk k (base s + page)"
  using assms free_block_props [of "MAX_ORDER - 1" "base s" "base s + n_pages s" "blocks_of (base s) fl" k "base s + page"]
  by (auto simp: zone_wf_def freeable_def)

lemma free_one_page_refines:
  assumes wf: "zone_wf K pl s fl" and fr: "freeable K pl s fl page k"
  shows "\<exists>s' fl'. free_one_page s page k = Some s' \<and> zone_wf K pl s' fl' \<and> free_count s' = free_count s \<and>
           blocks_of (base s) fl' = free_block (MAX_ORDER - 1) (blocks_of (base s) fl) k (base s + page) \<and>
           same_outside (frames (blocks_of (base s) fl')) s s'"
proof -
  have "map_wf s" "page \<le> n_pages s" using wf fr by (auto simp: zone_wf_def freeable_def)
  then have "unat (page_to_pfn s page) = base s + page" by (rule unat_page_to_pfn)
  from free_loop_refines [OF wf fr this] obtain t p l fl1 where
    t: "free_one_page_loop s (page_to_pfn s page) page k = Some (t, p, l)"
      "zone_wf K pl t fl1" "freeable K pl t fl1 p l" "free_count t = free_count s"
      "same_outside (frames (blocks_of (base s) fl)) s t"
      "free_block (MAX_ORDER - 1) (blocks_of (base s) fl) k (base s + page) =
         insert (l, base s + p) (blocks_of (base s) fl1)" by blast
  have bs: "base t = base s" using t(5) by (simp add: same_outside_def)
  from t(3) have l: "l < MAX_ORDER" by (simp add: freeable_def)
  note n = put_block(1,2) [OF t(2,3)]
  from put_block(3) [OF t(2,3)] obtain h u where
    h: "list_add (nodes t) (Lru p) (Free_list l) = Some h" "zone_wf K pl u (fl1(l := p # fl1 l))" and
    u: "u = t\<lparr>mem_map := (mem_map t)[p := set_buddy l (mem_map t ! p)], nodes := h,
              nr_free := (nr_free t)[l := nr_free t ! l + 1]\<rparr>" by blast
  let ?fl = "fl1(l := p # fl1 l)"
  have bl: "blocks_of (base s) ?fl = free_block (MAX_ORDER - 1) (blocks_of (base s) fl) k (base s + page)"
    using blocks_of_insert [OF l] t(6) by simp
  have "same_outside (blk l (base s + p)) t u"
    unfolding u by (rule same_outside_upd(2)) (simp add: bs blk_nonempty)
  then have "same_outside (frames (blocks_of (base s) fl) \<union> blk l (base s + p)) s u"
    by (rule same_outside_trans [OF t(5)]) auto
  then have "same_outside (frames (blocks_of (base s) ?fl)) s u"
    by (rule same_outside_trans [OF same_outside_refl])
      (use free_block_frames [OF wf fr] bl t(6) in auto)
  moreover have "free_one_page s page k = Some u"
    using t(1) h(1) n by (simp add: free_one_page_def upd_page_def upd_nr_free_def u set_buddy_def)
  moreover have "free_count u = free_count s" using t(4) by (simp add: u)
  ultimately show ?thesis using h(2) bl by blast
qed

section \<open>The full invariant and \<^verbatim>\<open>__free_pages\<close>\<close>

definition zone_inv :: "nat \<Rightarrow> (nat \<Rightarrow> nat list) \<Rightarrow> page_alloc \<Rightarrow> (nat \<Rightarrow> nat list) \<Rightarrow> bool" where
  "zone_inv K pl s fl \<longleftrightarrow>
     zone_wf K pl s fl \<and> coalesced (MAX_ORDER - 1) (blocks_of (base s) fl) \<and>
     unat (free_count s) = card (frames (blocks_of (base s) fl))"

lemma zone_wf_frames:
  assumes "zone_wf K pl s fl"
  shows "frames (blocks_of (base s) fl) \<subseteq> {base s..<base s + n_pages s}"
    and "finite (frames (blocks_of (base s) fl))" and "card (frames (blocks_of (base s) fl)) \<le> n_pages s"
proof -
  show sub: "frames (blocks_of (base s) fl) \<subseteq> {base s..<base s + n_pages s}"
    using assms blocks_wfD(5) by (fastforce simp: zone_wf_def frames_iff)
  then show "finite (frames (blocks_of (base s) fl))" by (rule finite_subset) simp
  show "card (frames (blocks_of (base s) fl)) \<le> n_pages s"
    using card_mono [OF _ sub] by simp
qed

lemma zone_wf_free_count [simp]: "zone_wf K pl (s\<lparr>free_count := c\<rparr>) fl \<longleftrightarrow> zone_wf K pl s fl"
  by (simp add: zone_wf_def map_wf_def tags_ok_def)

lemma free_pages_inv:
  assumes inv: "zone_inv K pl s fl" and fr: "freeable K pl s fl page k"
  shows "\<exists>s' fl'. free_pages s page k = Some s' \<and> zone_inv K pl s' fl' \<and>
           blocks_of (base s) fl' = free_block (MAX_ORDER - 1) (blocks_of (base s) fl) k (base s + page) \<and>
           frames (blocks_of (base s) fl') = frames (blocks_of (base s) fl) \<union> blk k (base s + page) \<and>
           same_outside (frames (blocks_of (base s) fl')) s s'"
proof -
  from inv have wf: "zone_wf K pl s fl" by (simp add: zone_inv_def)
  let ?S = "blocks_of (base s) fl"
  from free_one_page_refines [OF wf fr] obtain t fl' where t: "free_one_page s page k = Some t"
    "zone_wf K pl t fl'" "free_count t = free_count s"
    "blocks_of (base s) fl' = free_block (MAX_ORDER - 1) ?S k (base s + page)"
    "same_outside (frames (blocks_of (base s) fl')) s t" by blast
  let ?s' = "t\<lparr>free_count := free_count t + push_bit k 1\<rparr>"
  have bs: "base t = base s" "n_pages t = n_pages s" using t(5) by (simp_all add: same_outside_def)
  have f: "frames (blocks_of (base s) fl') = frames ?S \<union> blk k (base s + page)"
    using free_block_frames [OF wf fr] t(4) by simp
  have card: "card (frames (blocks_of (base s) fl')) = card (frames ?S) + 2 ^ k"
    unfolding f using fr zone_wf_frames(2) [OF wf] by (subst card_Un_disjoint) (auto simp: freeable_def)
  have k: "k < 64" using fr MAX_ORDER_bound by (simp add: freeable_def)
  have "map_wf t" using t(2) by (simp add: zone_wf_def)
  then have "card (frames ?S) + 2 ^ k < 2 ^ 64"
    using zone_wf_frames(3) [OF t(2)] card bs by (simp add: map_wf_def)
  then have "unat (free_count ?s') = card (frames (blocks_of (base s) fl'))"
    using inv t(3) card unat_push_bit_one [OF k] by (simp add: zone_inv_def unat_add_nowrap)
  moreover have "coalesced (MAX_ORDER - 1) (blocks_of (base s) fl')"
    using inv fr free_block_props [of "MAX_ORDER - 1" "base s" "base s + n_pages s" ?S k "base s + page"] t(4)
    by (auto simp: zone_inv_def zone_wf_def freeable_def)
  ultimately have "zone_inv K pl ?s' fl'" using t(2) bs by (simp add: zone_inv_def)
  moreover have "free_pages s page k = Some ?s'" using t(1) by (simp add: free_pages_def)
  moreover have "same_outside (frames (blocks_of (base s) fl')) s ?s'" using t(5) by (simp add: same_outside_def)
  ultimately show ?thesis using t(4) f by blast
qed

section \<open>Allocating\<close>

lemma freeable_half:
  assumes fr: "freeable K pl s fl page (Suc k)"
  shows "freeable K pl s fl (page + 2 ^ k) k" "freeable K pl s fl page k"
proof -
  have sub: "blk k (base s + (page + 2 ^ k)) \<subseteq> blk (Suc k) (base s + page)" "blk k (base s + page) \<subseteq> blk (Suc k) (base s + page)"
    by (auto simp: blk_def)
  from fr have al: "2 ^ k dvd base s + page" by (auto simp: freeable_def elim: dvd_mult_right [rotated] intro: dvd_trans [of _ "2 ^ Suc k"])
  then have "2 ^ k dvd base s + page + 2 ^ k" by simp
  with fr sub al show "freeable K pl s fl (page + 2 ^ k) k" "freeable K pl s fl page k"
    by (auto simp: freeable_def add.assoc)
qed

lemma drop_push_bit_one: "Suc k < 64 \<Longrightarrow> drop_bit 1 (push_bit (Suc k) 1 :: u64) = push_bit k 1"
  by (simp only: word_unat_eq_iff unat_drop_bit_eq unat_push_bit_one Suc_lessD) (simp add: drop_bit_eq_div)

lemma expand_loop_refines:
  assumes "zone_wf K pl s fl" and "freeable K pl s fl page high" and "low \<le> high"
  shows "\<exists>s' fl'. expand_loop s page low high (push_bit high 1) = Some s' \<and> zone_wf K pl s' fl' \<and>
           free_count s' = free_count s \<and> freeable K pl s' fl' page low \<and>
           same_outside (blk high (base s + page)) s s' \<and>
           blocks_of (base s) fl' = blocks_of (base s) fl \<union> {(j, base s + page + 2 ^ j) | j. low \<le> j \<and> j < high}"
  using assms
proof (induction high arbitrary: s fl)
  case 0
  then have "expand_loop s page low 0 (push_bit 0 1) = Some s" by (subst expand_loop.simps) simp
  with 0 show ?case by fastforce
next
  case (Suc k)
  show ?case
  proof (cases "low = Suc k")
    case True
    then have "expand_loop s page low (Suc k) (push_bit (Suc k) 1) = Some s" by (subst expand_loop.simps) simp
    with Suc.prems True show ?thesis by fastforce
  next
    case False
    with Suc.prems have low: "low \<le> k" by simp
    let ?half = "page + 2 ^ k" and ?p = "base s + page"
    note half = freeable_half [OF Suc.prems(2)]
    have k: "k < MAX_ORDER" "k < 64" "Suc k < 64"
      using Suc.prems(2) MAX_ORDER_bound [of "Suc k"] by (auto simp: freeable_def)
    note n = put_block(1,2) [OF Suc.prems(1) half(1)]
    from put_block(3) [OF Suc.prems(1) half(1)] obtain h t where
      h: "list_add (nodes s) (Lru ?half) (Free_list k) = Some h" "zone_wf K pl t (fl(k := ?half # fl k))" and
      t: "t = s\<lparr>mem_map := (mem_map s)[?half := set_buddy k (mem_map s ! ?half)], nodes := h,
              nr_free := (nr_free s)[k := nr_free s ! k + 1]\<rparr>" by blast
    let ?fl = "fl(k := ?half # fl k)"
    have bs: "base t = base s" "n_pages t = n_pages s" by (simp_all add: t)
    have bl: "blocks_of (base s) ?fl = insert (k, ?p + 2 ^ k) (blocks_of (base s) fl)"
      using blocks_of_insert [OF k(1)] by (simp add: add.assoc)
    have "blk k ?p \<inter> blk k (?p + 2 ^ k) = {}" by (auto simp: blk_def)
    with half(2) bl bs have "freeable K pl t ?fl page k" by (auto simp: freeable_def)
    from Suc.IH [OF h(2) this low] obtain s' fl' where IH:
      "expand_loop t page low k (push_bit k 1) = Some s'" "zone_wf K pl s' fl'" "free_count s' = free_count t"
      "freeable K pl s' fl' page low" "same_outside (blk k (base t + page)) t s'"
      "blocks_of (base t) fl' = blocks_of (base t) ?fl \<union> {(j, base t + page + 2 ^ j) | j. low \<le> j \<and> j < k}"
      by blast
    have "expand_loop s page low (Suc k) (push_bit (Suc k) 1) = expand_loop t page low k (push_bit k 1)"
      using low h(1) n drop_push_bit_one [OF k(3)] unat_push_bit_one [OF k(2)]
      by (subst expand_loop.simps) (simp add: Let_def upd_page_def upd_nr_free_def t set_buddy_def)
    moreover have "same_outside (blk (Suc k) ?p) s s'"
    proof (rule same_outside_trans [OF _ IH(5)])
      show "same_outside (blk (Suc k) ?p) s t"
        unfolding t by (rule same_outside_upd(2)) (simp add: blk_def)
    qed (auto simp: bs blk_def)
    moreover have "blocks_of (base s) fl' = blocks_of (base s) fl \<union> {(j, ?p + 2 ^ j) | j. low \<le> j \<and> j < Suc k}"
      using IH(6) bl bs low by (auto simp: less_Suc_eq)
    moreover have "free_count t = free_count s" by (simp add: t)
    ultimately show ?thesis using IH by auto
  qed
qed

lemma alloc_pages_loop_skip:
  assumes "zone_wf K pl s fl" and "\<And>j. c \<le> j \<Longrightarrow> j < d \<Longrightarrow> fl j = []" and "c \<le> d" "d \<le> MAX_ORDER"
  shows "alloc_pages_loop s k c = alloc_pages_loop s k d"
  using assms(3,2,4)
proof (induction rule: inc_induct)
  case base
  show ?case by simp
next
  case (step m)
  have "list_empty (nodes s) (Free_list m)"
    using assms(1) step lh.family_first(1) [of "nodes s" "heads K" "node_list fl pl" "Free_list m"]
    by (simp add: zone_wf_def)
  with step show ?case by (subst alloc_pages_loop.simps) auto
qed

lemma alloc_pages_loop_take:
  assumes wf: "zone_wf K pl s fl" and c: "c < MAX_ORDER" "k \<le> c" and ne: "fl c = page # ps"
  shows "\<exists>s' fl'. alloc_pages_loop s k c = Some (s', Some page) \<and> zone_wf K pl s' fl' \<and>
           free_count s' = free_count s - push_bit k 1 \<and> freeable K pl s' fl' page k \<and>
           same_outside (frames (blocks_of (base s) fl)) s s' \<and>
           blocks_of (base s) fl' = alloc_block (blocks_of (base s) fl) k c (base s + page)"
proof -
  let ?S = "blocks_of (base s) fl" and ?fl = "fl(c := remove1 page (fl c))"
  have i: "page \<in> set (fl c)" using ne by simp
  note n = take_block(1,2) [OF wf c(1) i]
  from take_block(3) [OF wf c(1) i] obtain h t where h: "list_del (nodes s) (Lru page) = Some h"
    "zone_wf K pl t ?fl" and t: "t = s\<lparr>nodes := h, mem_map := (mem_map s)[page := clear_buddy (mem_map s ! page)],
         nr_free := (nr_free s)[c := nr_free s ! c - 1]\<rparr>" by blast
  have b: "(c, base s + page) \<in> ?S" using blocks_of_mem [OF c(1)] i by simp
  from wf have bw: "blocks_wf (MAX_ORDER - 1) (base s) (base s + n_pages s) ?S" by (simp add: zone_wf_def)
  have bs: "base t = base s" "n_pages t = n_pages s" by (simp_all add: t)
  have bl: "blocks_of (base s) ?fl = ?S - {(c, base s + page)}"
    using family_list_distinct [OF wf c(1)] by (rule blocks_of_remove)
  define u where "u = t\<lparr>free_count := free_count t - push_bit k 1\<rparr>"
  have u: "zone_wf K pl u ?fl" "base u = base s" "n_pages u = n_pages s" using h(2) bs by (simp_all add: u_def)
  have "freeable K pl u ?fl page c"
    using blocks_wfD [OF bw b] frames_remove [OF bw b] bl blk_frames [OF b] wf u c(1)
    by (auto simp: freeable_def zone_wf_def)
  from expand_loop_refines [OF u(1) this c(2)] obtain s' fl' where e:
    "expand_loop u page k c (push_bit c 1) = Some s'" "zone_wf K pl s' fl'" "free_count s' = free_count u"
    "freeable K pl s' fl' page k" "same_outside (blk c (base u + page)) u s'"
    "blocks_of (base u) fl' = blocks_of (base u) ?fl \<union> {(j, base u + page + 2 ^ j) | j. k \<le> j \<and> j < c}" by blast
  have fam: "family dlist (nodes s) (heads K) (node_list fl pl)" using wf by (simp add: zone_wf_def)
  have first: "\<not> list_empty (nodes s) (Free_list c)" "list_first_entry (nodes s) (Free_list c) = Some (Lru page)"
    using lh.family_first [OF fam, of "Free_list c"] c(1) ne by simp_all
  have "alloc_pages_loop s k c = Some (s', Some page)"
    using first h(1) n c(1) e(1)
    by (subst alloc_pages_loop.simps)
      (simp add: upd_page_def upd_nr_free_def u_def t clear_buddy_def expand_def)
  moreover have "same_outside (frames ?S) s s'"
  proof (rule same_outside_trans [OF _ e(5)])
    show "same_outside (frames ?S) s u"
      using same_outside_upd(1) [of s page "frames ?S"] blk_frames [OF b] blk_nonempty
      by (fastforce simp: u_def t same_outside_def)
  qed (use blk_frames [OF b] u in auto)
  moreover have "free_count u = free_count s - push_bit k 1" by (simp add: u_def t)
  ultimately show ?thesis using e u bl by (auto simp: alloc_block_def)
qed

lemma alloc_pages_cases:
  assumes inv: "zone_inv K pl s fl" and k: "k < MAX_ORDER"
  obtains (none) "alloc_pages s k = Some (s, None)" "\<And>j. k \<le> j \<Longrightarrow> j < MAX_ORDER \<Longrightarrow> fl j = []"
  | (block) c page s' fl' where "alloc_pages s k = Some (s', Some page)" "zone_inv K pl s' fl'"
      "k \<le> c" "c < MAX_ORDER" "(c, base s + page) \<in> blocks_of (base s) fl"
      "\<And>j. k \<le> j \<Longrightarrow> j < c \<Longrightarrow> fl j = []"
      "blocks_of (base s) fl' = alloc_block (blocks_of (base s) fl) k c (base s + page)"
      "frames (blocks_of (base s) fl') = frames (blocks_of (base s) fl) - blk k (base s + page)"
      "blk k (base s + page) \<subseteq> frames (blocks_of (base s) fl)"
      "freeable K pl s' fl' page k" "same_outside (frames (blocks_of (base s) fl)) s s'"
proof (cases "\<exists>c. k \<le> c \<and> c < MAX_ORDER \<and> fl c \<noteq> []")
  case False
  then have emp: "fl j = []" if "k \<le> j" "j < MAX_ORDER" for j using that by auto
  with inv k have "alloc_pages_loop s k k = alloc_pages_loop s k MAX_ORDER"
    by (intro alloc_pages_loop_skip [of K pl s fl]) (auto simp: zone_inv_def)
  also have "\<dots> = Some (s, None)" by (subst alloc_pages_loop.simps) simp
  finally have "alloc_pages s k = Some (s, None)" using k by (simp add: alloc_pages_def)
  then show thesis by (rule none) (rule emp)
next
  case True
  define c where "c = (LEAST c. k \<le> c \<and> c < MAX_ORDER \<and> fl c \<noteq> [])"
  have c: "k \<le> c" "c < MAX_ORDER" "fl c \<noteq> []"
    using LeastI_ex [OF True] by (simp_all add: c_def)
  have emp: "fl j = []" if "k \<le> j" "j < c" for j
    using not_less_Least [of j "\<lambda>c. k \<le> c \<and> c < MAX_ORDER \<and> fl c \<noteq> []"] that c(2) by (auto simp: c_def)
  from c(3) obtain page ps where ne: "fl c = page # ps" by (auto simp: neq_Nil_conv)
  from inv have wf: "zone_wf K pl s fl" by (simp add: zone_inv_def)
  let ?S = "blocks_of (base s) fl"
  from alloc_pages_loop_take [OF wf c(2,1) ne] obtain s' fl' where a:
    "alloc_pages_loop s k c = Some (s', Some page)" "zone_wf K pl s' fl'"
    "free_count s' = free_count s - push_bit k 1" "freeable K pl s' fl' page k"
    "same_outside (frames ?S) s s'" "blocks_of (base s) fl' = alloc_block ?S k c (base s + page)" by blast
  have bs: "base s' = base s" "n_pages s' = n_pages s" using a(5) by (simp_all add: same_outside_def)
  have b: "(c, base s + page) \<in> ?S" using blocks_of_mem [OF c(2)] ne by simp
  have al: "coalesced (MAX_ORDER - 1) (blocks_of (base s) fl')"
    "frames (blocks_of (base s) fl') = frames ?S - blk k (base s + page)"
    using alloc_block_props [OF _ _ b c(1)] inv a(6) by (auto simp: zone_inv_def zone_wf_def)
  have sub: "blk k (base s + page) \<subseteq> frames ?S"
    using blk_frames [OF b] alloc_block_frames [OF c(1), of "base s + page"] by blast
  have "2 ^ k \<le> card (frames ?S)" using card_mono [OF zone_wf_frames(2) [OF wf] sub] by simp
  moreover have "k < 64" using k MAX_ORDER_bound by simp
  ultimately have "unat (free_count s') = card (frames (blocks_of (base s) fl'))"
    using inv a(3) al(2) unat_push_bit_one [of k] sub
    by (simp add: zone_inv_def card_Diff_subset unat_sub_le word_le_nat_alt)
  with a(2) al(1) bs have inv': "zone_inv K pl s' fl'" by (simp add: zone_inv_def)
  have "alloc_pages s k = Some (s', Some page)"
    using k a(1) alloc_pages_loop_skip [OF wf emp c(1)] c(2) by (simp add: alloc_pages_def)
  then show thesis by (rule block) (use inv' c b emp a al sub in auto)
qed

section \<open>Initialisation\<close>

lemma family_cong: "(\<And>a. a \<in> H \<Longrightarrow> f a = g a) \<Longrightarrow> family rep h H f \<longleftrightarrow> family rep h H g"
  by (simp add: family_def)

definition init_order :: "nat \<Rightarrow> page_alloc \<Rightarrow> page_alloc" where
  "init_order k s = s\<lparr>nodes := INIT_LIST_HEAD (nodes s) (Free_list k), nr_free := (nr_free s)[k := 0]\<rparr>"

lemma init_order_sel [simp]:
  "nodes (init_order k s) = INIT_LIST_HEAD (nodes s) (Free_list k)"
  "nr_free (init_order k s) = (nr_free s)[k := 0]" "mem_map (init_order k s) = mem_map s"
  "mem_map_base_pfn (init_order k s) = mem_map_base_pfn s" "max_mapnr (init_order k s) = max_mapnr s"
  "free_count (init_order k s) = free_count s"
  by (simp_all add: init_order_def)

lemma init_orders:
  "family dlist (nodes (fold init_order [0..<n] s)) (Free_list ` {..<n}) (\<lambda>_. []) \<and>
   (\<forall>k<n. k < length (nr_free s) \<longrightarrow> nr_free (fold init_order [0..<n] s) ! k = 0) \<and>
   length (nr_free (fold init_order [0..<n] s)) = length (nr_free s)"
proof (induction n)
  case 0
  show ?case by (simp add: family_def)
next
  case (Suc n)
  let ?t = "fold init_order [0..<n] s"
  have "family dlist (INIT_LIST_HEAD (nodes ?t) (Free_list n)) (insert (Free_list n) (Free_list ` {..<n})) ((\<lambda>_. [])(Free_list n := []))"
    using Suc by (intro lh.family_init) auto
  moreover have "insert (Free_list n) (Free_list ` {..<n}) = Free_list ` {..<Suc n}" by auto
  ultimately show ?case using Suc by (auto simp: nth_list_update less_Suc_eq fun_upd_idem)
qed

lemma init_orders_same:
  "mem_map (fold init_order ks s) = mem_map s \<and> mem_map_base_pfn (fold init_order ks s) = mem_map_base_pfn s \<and>
   max_mapnr (fold init_order ks s) = max_mapnr s \<and> free_count (fold init_order ks s) = free_count s"
  by (induction ks arbitrary: s) auto

lemma free_area_init_inv:
  assumes "length (nr_free s) = MAX_ORDER" and "unat (drop_bit PAGE_SHIFT base_addr) + unat pages < 2 ^ 52"
  shows "zone_inv 0 pl (free_area_init s base_addr pages) (\<lambda>_. [])"
    and "base (free_area_init s base_addr pages) = unat (drop_bit PAGE_SHIFT base_addr)"
    and "n_pages (free_area_init s base_addr pages) = unat pages"
proof -
  define t where "t = s\<lparr>mem_map := replicate (unat pages) zero_page, mem_map_base_pfn := drop_bit PAGE_SHIFT base_addr,
      max_mapnr := pages, free_count := 0,
      nodes := (\<lambda>n. case n of Lru i \<Rightarrow> (if i < unat pages then \<lparr>nxt = None, prv = None\<rparr> else nodes s n)
                            | _ \<Rightarrow> nodes s n)\<rparr>"
  have eq: "free_area_init s base_addr pages = fold init_order [0..<MAX_ORDER] t"
    by (simp add: free_area_init_def t_def init_order_def [abs_def])
  note same = init_orders_same [of "[0..<MAX_ORDER]" t] and orders = init_orders [of MAX_ORDER t]
  have t: "mem_map t = replicate (unat pages) zero_page" "mem_map_base_pfn t = drop_bit PAGE_SHIFT base_addr"
    "max_mapnr t = pages" "free_count t = 0" "nr_free t = nr_free s" by (simp_all add: t_def)
  show "base (free_area_init s base_addr pages) = unat (drop_bit PAGE_SHIFT base_addr)"
    and "n_pages (free_area_init s base_addr pages) = unat pages"
    by (simp_all add: eq same t)
  have "blocks_of B (\<lambda>_. []) = {}" for B by (simp add: blocks_of_def)
  moreover have "family dlist (nodes (fold init_order [0..<MAX_ORDER] t)) (heads 0) (node_list (\<lambda>_. []) pl)"
    using orders by (subst family_cong [where g = "\<lambda>_. []"]) (auto simp: heads_def)
  moreover have "\<not> is_buddy zero_page" by (simp add: is_buddy_def zero_page_def)
  ultimately show "zone_inv 0 pl (free_area_init s base_addr pages) (\<lambda>_. [])"
    using same orders assms
    by (auto simp: zone_inv_def zone_wf_def eq map_wf_def tags_ok_def t blocks_wf_def coalesced_def)
qed

section \<open>Seeding the allocator\<close>

lemma and_mask_dvd: "k < 64 \<Longrightarrow> (w :: u64) AND (push_bit k 1 - 1) = 0 \<longleftrightarrow> 2 ^ k dvd unat w"
proof -
  have "w AND (push_bit k 1 - 1) = take_bit k w"
    by (simp add: take_bit_eq_mask mask_eq_exp_minus_1)
  moreover have "unat (take_bit k w) = unat w mod 2 ^ k"
    by (subst unsigned_take_bit_eq) (rule take_bit_eq_mod)
  ultimately show ?thesis by (metis dvd_eq_mod_eq_0 unat_eq_0)
qed

lemma largest_order_props:
  assumes "pfn < limit" and "m < MAX_ORDER" and "unat limit < 2 ^ 60"
  shows "largest_order pfn limit m \<le> m \<and> 2 ^ largest_order pfn limit m dvd unat pfn \<and>
         unat pfn + 2 ^ largest_order pfn limit m \<le> unat limit \<and>
         (\<forall>j. largest_order pfn limit m < j \<longrightarrow> j \<le> m \<longrightarrow>
            \<not> (2 ^ j dvd unat pfn \<and> unat pfn + 2 ^ j \<le> unat limit))"
  using assms(2)
proof (induction m)
  case 0
  show ?case using assms(1) by (simp add: word_less_nat_alt)
next
  case (Suc m)
  have m: "Suc m < 64" "(2::nat) ^ Suc m \<le> 1024" using Suc.prems MAX_ORDER_bound by blast+
  have lt: "unat pfn < unat limit" using assms(1) by (simp add: word_less_nat_alt)
  have "unat (pfn + push_bit (Suc m) 1) = unat pfn + 2 ^ Suc m"
    using lt assms(3) m unat_push_bit_one [OF m(1)] by (subst unat_add_nowrap) auto
  then have cond: "(pfn AND (push_bit (Suc m) 1 - 1) \<noteq> 0 \<or> limit < pfn + push_bit (Suc m) 1) \<longleftrightarrow>
      \<not> (2 ^ Suc m dvd unat pfn \<and> unat pfn + 2 ^ Suc m \<le> unat limit)"
    using and_mask_dvd [OF m(1), of pfn] by (auto simp: word_less_nat_alt)
  show ?case
  proof (cases "2 ^ Suc m dvd unat pfn \<and> unat pfn + 2 ^ Suc m \<le> unat limit")
    case True
    then have "largest_order pfn limit (Suc m) = Suc m"
      unfolding largest_order.simps cond by simp
    with True show ?thesis by auto
  next
    case False
    then have eq: "largest_order pfn limit (Suc m) = largest_order pfn limit m"
      unfolding largest_order.simps cond by simp
    show ?thesis unfolding eq using Suc False by (auto simp: le_Suc_eq)
  qed
qed

text \<open>The loop returns, and adds exactly the frames from \<open>pfn\<close> up to \<open>limit\<close>.\<close>

lemma free_memory_loop_inv:
  assumes "zone_inv K pl s fl" and "base s \<le> unat pfn" and "unat limit \<le> base s + n_pages s"
    and "{unat pfn..<unat limit} \<inter> frames (blocks_of (base s) fl) = {}"
    and "\<And>c j. c < K \<Longrightarrow> j \<in> set (pl c) \<Longrightarrow> base s + j \<notin> {unat pfn..<unat limit}"
  shows "\<exists>s' fl'. free_memory_loop s pfn limit = Some s' \<and> zone_inv K pl s' fl' \<and>
           frames (blocks_of (base s) fl') = frames (blocks_of (base s) fl) \<union> {unat pfn..<unat limit} \<and>
           same_outside (frames (blocks_of (base s) fl')) s s'"
  using assms
proof (induction "unat limit - unat pfn" arbitrary: s fl pfn rule: less_induct)
  case less
  note inv = less.prems(1)
  show ?case
  proof (cases "pfn < limit")
    case False
    then have "free_memory_loop s pfn limit = Some s" by (subst free_memory_loop.simps) simp
    with False inv show ?thesis by (fastforce simp: word_less_nat_alt)
  next
    case True
    define k where "k = largest_order pfn limit (MAX_ORDER - 1)"
    define i where "i = pfn_to_page s pfn"
    have mw: "map_wf s" using inv by (simp add: zone_inv_def zone_wf_def)
    have "unat limit < 2 ^ 60" using mw less.prems(3) by (simp add: map_wf_def)
    then have k: "k < MAX_ORDER" "2 ^ k dvd unat pfn" "unat pfn + 2 ^ k \<le> unat limit"
      using largest_order_props [OF True, of "MAX_ORDER - 1"] by (auto simp: k_def MAX_ORDER_def)
    have i: "base s + i = unat pfn" using less.prems(2) by (simp add: i_def pfn_to_page_eq)
    have sub: "blk k (unat pfn) \<subseteq> {unat pfn..<unat limit}" using k(3) by (simp add: blk_subset)
    have "freeable K pl s fl i k"
      using k i sub less.prems(3-5) by (fastforce simp: freeable_def)
    from free_pages_inv [OF inv this] obtain t fl1 where t: "free_pages s i k = Some t" "zone_inv K pl t fl1"
      "frames (blocks_of (base s) fl1) = frames (blocks_of (base s) fl) \<union> blk k (unat pfn)"
      "same_outside (frames (blocks_of (base s) fl1)) s t" by (auto simp: i)
    have bs: "base t = base s" "n_pages t = n_pages s" using t(4) by (simp_all add: same_outside_def)
    let ?pfn = "pfn + push_bit k 1"
    have pfn': "unat ?pfn = unat pfn + 2 ^ k"
      using k MAX_ORDER_bound [OF k(1)] unat_push_bit_one [of k] \<open>unat limit < 2 ^ 60\<close>
      by (subst unat_add_nowrap) auto
    have rest: "{unat ?pfn..<unat limit} = {unat pfn..<unat limit} - blk k (unat pfn)"
      unfolding pfn' by (auto simp: blk_def)
    have "\<exists>s' fl'. free_memory_loop t ?pfn limit = Some s' \<and> zone_inv K pl s' fl' \<and>
        frames (blocks_of (base t) fl') = frames (blocks_of (base t) fl1) \<union> {unat ?pfn..<unat limit} \<and>
        same_outside (frames (blocks_of (base t) fl')) t s'"
    proof (rule less.hyps [OF _ t(2)])
      show "unat limit - unat ?pfn < unat limit - unat pfn"
        unfolding pfn' using True by (intro diff_less_mono2) (simp_all add: word_less_nat_alt)
      show "{unat ?pfn..<unat limit} \<inter> frames (blocks_of (base t) fl1) = {}"
        using rest less.prems(4) t(3) bs by auto
    qed (use less.prems bs pfn' rest in auto)
    then obtain s' fl' where IH: "free_memory_loop t ?pfn limit = Some s'" "zone_inv K pl s' fl'"
      "frames (blocks_of (base s) fl') = frames (blocks_of (base s) fl1) \<union> {unat ?pfn..<unat limit}"
      "same_outside (frames (blocks_of (base s) fl')) t s'" using bs by auto
    have "free_memory_loop s pfn limit = Some s'"
      using True t(1) IH(1) by (subst free_memory_loop.simps) (simp add: k_def i_def)
    moreover have "frames (blocks_of (base s) fl') = frames (blocks_of (base s) fl) \<union> {unat pfn..<unat limit}"
      using IH(3) t(3) rest sub by auto
    moreover have "same_outside (frames (blocks_of (base s) fl')) s s'"
      by (rule same_outside_trans [OF t(4) IH(4)]) (use IH(3) in auto)
    ultimately show ?thesis using IH(2) by blast
  qed
qed

text \<open>The page frames that lie entirely inside the byte range \<open>start..<end\<close>.\<close>

definition whole_frames :: "u64 \<Rightarrow> u64 \<Rightarrow> nat set" where
  "whole_frames start end_addr = {p. unat start \<le> p * 4096 \<and> (p + 1) * 4096 \<le> unat end_addr}"

lemma unat_drop_page: "unat (drop_bit PAGE_SHIFT (w :: u64)) = unat w div 4096"
  unfolding unat_drop_bit_eq by (simp add: drop_bit_eq_div PAGE_SHIFT_def)

lemma free_memory_core_inv:
  assumes inv: "zone_inv K pl s fl" and up: "unat start + 4095 < 2 ^ 64"
    and new: "whole_frames start end_addr \<inter> frames (blocks_of (base s) fl) = {}"
    and part: "\<And>c j. c < K \<Longrightarrow> j \<in> set (pl c) \<Longrightarrow> base s + j \<notin> whole_frames start end_addr"
  shows "\<exists>s' fl'. free_memory_core s start end_addr = Some s' \<and> zone_inv K pl s' fl' \<and>
           frames (blocks_of (base s) fl') = frames (blocks_of (base s) fl) \<union>
             (whole_frames start end_addr \<inter> {base s..<base s + n_pages s}) \<and>
           same_outside (frames (blocks_of (base s) fl')) s s'"
proof -
  define pfn0 where "pfn0 = drop_bit PAGE_SHIFT (start + PAGE_SIZE - 1)"
  define limit0 where "limit0 = drop_bit PAGE_SHIFT end_addr"
  define pfn where "pfn = (if pfn0 < mem_map_base_pfn s then mem_map_base_pfn s else pfn0)"
  define limit where "limit = (if limit0 > mem_map_base_pfn s + max_mapnr s
                  then mem_map_base_pfn s + max_mapnr s else limit0)"
  have mw: "map_wf s" using inv by (simp add: zone_inv_def zone_wf_def)
  have "unat (start + PAGE_SIZE - 1) = unat start + 4095"
    using up unat_add_nowrap [of start 4095] by (simp add: PAGE_SIZE_def PAGE_SHIFT_def add_diff_eq [symmetric])
  then have pfn0: "unat pfn0 = (unat start + 4095) div 4096"
    by (simp add: pfn0_def unat_drop_page)
  have limit0: "unat limit0 = unat end_addr div 4096"
    by (simp add: limit0_def unat_drop_page)
  have pfn: "unat pfn = max (base s) (unat pfn0)"
    by (auto simp: pfn_def word_less_nat_alt)
  have limit: "unat limit = min (base s + n_pages s) (unat limit0)"
    using mw by (auto simp: limit_def word_less_nat_alt map_wf_def unat_add_nowrap)
  have range: "{unat pfn..<unat limit} = whole_frames start end_addr \<inter> {base s..<base s + n_pages s}"
    by (auto simp: pfn limit pfn0 limit0 whole_frames_def)
  have eq: "free_memory_core s start end_addr = free_memory_loop s pfn limit"
    by (simp add: free_memory_core_def pfn_def limit_def pfn0_def limit0_def Let_def)
  show ?thesis
    unfolding eq range [symmetric]
  proof (rule free_memory_loop_inv [OF inv])
    show "{unat pfn..<unat limit} \<inter> frames (blocks_of (base s) fl) = {}" unfolding range using new by auto
    show "base s + j \<notin> {unat pfn..<unat limit}" if "c < K" "j \<in> set (pl c)" for c j
      unfolding range using part [OF that] by auto
  qed (simp_all add: pfn limit)
qed

end
