(* ===== verification/Page_Alloc_Spec.thy ===== *)
theory Page_Alloc_Spec
  imports Page_Alloc_Inv
begin

text \<open>
  What the page allocator promises, stated over its state alone: the free lists are read by
  walking them with \<^verbatim>\<open>list_for_each_entry\<close>, and the free blocks, the free frames and the invariant
  are functions of the state.
\<close>

section \<open>The abstraction\<close>

definition free_list :: "page_alloc \<Rightarrow> nat \<Rightarrow> nat list" where
  "free_list s k = List.map_filter lru_page (the (list_for_each_entry (nodes s) (Free_list k)))"

definition partial_list :: "page_alloc \<Rightarrow> nat \<Rightarrow> nat list" where
  "partial_list s c = List.map_filter lru_page (the (list_for_each_entry (nodes s) (Partial c)))"

definition free_blocks :: "page_alloc \<Rightarrow> block set" where
  "free_blocks s = blocks_of (base s) (free_list s)"

definition free_frames :: "page_alloc \<Rightarrow> nat set" where
  "free_frames s = frames (free_blocks s)"

definition page_inv :: "nat \<Rightarrow> page_alloc \<Rightarrow> bool" where
  "page_inv K s \<longleftrightarrow> zone_inv K (partial_list s) s (free_list s)"

text \<open>A block in use that no slab list mentions.\<close>

definition in_use :: "nat \<Rightarrow> page_alloc \<Rightarrow> nat \<Rightarrow> nat \<Rightarrow> bool" where
  "in_use K s page k \<longleftrightarrow> freeable K (partial_list s) s (free_list s) page k"

lemma map_filter_Lru [simp]: "List.map_filter lru_page (map Lru xs) = xs"
  by (induction xs) (auto simp: List.map_filter_simps)

lemma zone_wf_lists:
  assumes "zone_wf K pl s fl"
  shows "k < MAX_ORDER \<Longrightarrow> free_list s k = fl k" and "c < K \<Longrightarrow> partial_list s c = pl c"
proof -
  have d: "dlist (nodes s) n (node_list fl pl n)" if "n \<in> heads K" for n
    using assms that by (auto simp: zone_wf_def family_def)
  show "k < MAX_ORDER \<Longrightarrow> free_list s k = fl k" using list_for_each_dlist [OF d, of "Free_list k"]
    by (simp add: free_list_def)
  show "c < K \<Longrightarrow> partial_list s c = pl c" using list_for_each_dlist [OF d, of "Partial c"]
    by (simp add: partial_list_def)
qed

lemma blocks_of_cong: "(\<And>k. k < MAX_ORDER \<Longrightarrow> fl k = fl' k) \<Longrightarrow> blocks_of B fl = blocks_of B fl'"
  by (auto simp: blocks_of_def)

lemma zone_inv_cong:
  assumes fl: "\<And>k. k < MAX_ORDER \<Longrightarrow> fl k = fl' k" and pl: "\<And>c. c < K \<Longrightarrow> pl c = pl' c"
  shows "zone_inv K pl s fl \<longleftrightarrow> zone_inv K pl' s fl'"
proof -
  have "family dlist (nodes s) (heads K) (node_list fl pl) \<longleftrightarrow> family dlist (nodes s) (heads K) (node_list fl' pl')"
    by (rule family_cong) (auto elim!: heads_cases simp: fl pl)
  moreover have "blocks_of (base s) fl = blocks_of (base s) fl'" using fl by (rule blocks_of_cong)
  moreover have "tags_ok s fl \<longleftrightarrow> tags_ok s fl'" using fl by (simp add: tags_ok_def cong: conj_cong)
  ultimately show ?thesis using pl by (simp add: zone_inv_def zone_wf_def)
qed

lemma freeable_cong:
  assumes "\<And>k. k < MAX_ORDER \<Longrightarrow> fl k = fl' k" and "\<And>c. c < K \<Longrightarrow> pl c = pl' c"
  shows "freeable K pl s fl page k \<longleftrightarrow> freeable K pl' s fl' page k"
  using assms blocks_of_cong [of fl fl'] by (simp add: freeable_def)

lemma zone_inv_page_inv:
  assumes "zone_inv K pl s fl"
  shows "page_inv K s" and "free_blocks s = blocks_of (base s) fl"
    and "free_frames s = frames (blocks_of (base s) fl)" and "c < K \<Longrightarrow> partial_list s c = pl c"
    and "in_use K s page k \<longleftrightarrow> freeable K pl s fl page k"
proof -
  have wf: "zone_wf K pl s fl" using assms by (simp add: zone_inv_def)
  note eq = zone_wf_lists [OF wf]
  show "page_inv K s" unfolding page_inv_def using assms zone_inv_cong [of "free_list s" fl] eq by simp
  show bl: "free_blocks s = blocks_of (base s) fl" unfolding free_blocks_def by (rule blocks_of_cong) (rule eq)
  show "free_frames s = frames (blocks_of (base s) fl)" by (simp add: free_frames_def bl)
  show "c < K \<Longrightarrow> partial_list s c = pl c" by (rule eq)
  show "in_use K s page k \<longleftrightarrow> freeable K pl s fl page k" unfolding in_use_def by (rule freeable_cong) (simp_all add: eq)
qed

lemma page_invD:
  assumes "page_inv K s"
  shows "blocks_wf (MAX_ORDER - 1) (base s) (base s + n_pages s) (free_blocks s)"
    and "coalesced (MAX_ORDER - 1) (free_blocks s)"
    and "unat (nr_free_pages s) = card (free_frames s)" and "map_wf s"
    and "free_frames s \<subseteq> {base s..<base s + n_pages s}" and "finite (free_frames s)"
  using assms zone_wf_frames [of K "partial_list s" s "free_list s"]
  by (auto simp: page_inv_def zone_inv_def zone_wf_def free_blocks_def free_frames_def nr_free_pages_def)

definition same_slabs :: "nat \<Rightarrow> page_alloc \<Rightarrow> page_alloc \<Rightarrow> bool" where
  "same_slabs K s s' \<longleftrightarrow> (\<forall>c<K. partial_list s' c = partial_list s c)"

section \<open>Operations\<close>

lemma alloc_pages_page_inv:
  assumes inv: "page_inv K s" and k: "k < MAX_ORDER"
  obtains (none) "alloc_pages s k = Some (s, None)" "\<And>j p. (j, p) \<in> free_blocks s \<Longrightarrow> j < k"
  | (block) c page s' where "alloc_pages s k = Some (s', Some page)" "page_inv K s'" "in_use K s' page k"
      "k \<le> c" "(c, base s + page) \<in> free_blocks s" "\<And>j p. (j, p) \<in> free_blocks s \<Longrightarrow> j < k \<or> c \<le> j"
      "free_blocks s' = alloc_block (free_blocks s) k c (base s + page)"
      "blk k (base s + page) \<subseteq> free_frames s" "free_frames s' = free_frames s - blk k (base s + page)"
      "same_slabs K s s'" "same_outside (free_frames s) s s'"
proof -
  let ?fl = "free_list s" and ?pl = "partial_list s"
  have inv': "zone_inv K ?pl s ?fl" using inv by (simp add: page_inv_def)
  show thesis
  proof (rule alloc_pages_cases [OF inv' k], goal_cases none block)
    case none
    show thesis
    proof (rule that(1) [OF none(1)])
      fix j p assume "(j, p) \<in> free_blocks s"
      then have "j < MAX_ORDER" "?fl j \<noteq> []" by (auto simp: free_blocks_def blocks_of_iff)
      with none(2) show "j < k" by (meson not_less)
    qed
  next
    case (block c page s' fl')
    have bs: "base s' = base s" using block(11) by (simp add: same_outside_def)
    have least: "j < k \<or> c \<le> j" if "(j, p) \<in> free_blocks s" for j p
    proof (rule ccontr)
      assume "\<not> ?thesis"
      then have "free_list s j = []" using block(6) [of j] by simp
      with that show False by (simp add: free_blocks_def blocks_of_iff)
    qed
    show thesis
      by (rule that(2) [OF block(1)])
        (use zone_inv_page_inv [OF block(2)] block bs least in
          \<open>auto simp: free_blocks_def free_frames_def same_slabs_def\<close>)
  qed
qed

lemma free_pages_page_inv:
  assumes inv: "page_inv K s" and use: "in_use K s page k"
  obtains s' where "free_pages s page k = Some s'" "page_inv K s'"
    "free_blocks s' = free_block (MAX_ORDER - 1) (free_blocks s) k (base s + page)"
    "free_frames s' = free_frames s \<union> blk k (base s + page)"
    "same_slabs K s s'" "same_outside (free_frames s') s s'"
proof -
  from free_pages_inv [OF inv [unfolded page_inv_def] use [unfolded in_use_def]]
  obtain s' fl' where f: "free_pages s page k = Some s'" "zone_inv K (partial_list s) s' fl'"
    "blocks_of (base s) fl' = free_block (MAX_ORDER - 1) (free_blocks s) k (base s + page)"
    "frames (blocks_of (base s) fl') = free_frames s \<union> blk k (base s + page)"
    "same_outside (frames (blocks_of (base s) fl')) s s'"
    by (auto simp: free_blocks_def free_frames_def)
  have bs: "base s' = base s" using f(5) by (simp add: same_outside_def)
  show thesis
    by (rule that [OF f(1)]) (use zone_inv_page_inv [OF f(2)] f bs in \<open>auto simp: same_slabs_def\<close>)
qed

lemma free_area_init_page_inv:
  assumes "length (nr_free s) = MAX_ORDER" and "unat (drop_bit PAGE_SHIFT base_addr) + unat pages < 2 ^ 52"
  shows "page_inv 0 (free_area_init s base_addr pages)" and "free_frames (free_area_init s base_addr pages) = {}"
    and "base (free_area_init s base_addr pages) = unat (drop_bit PAGE_SHIFT base_addr)"
    and "n_pages (free_area_init s base_addr pages) = unat pages"
  using zone_inv_page_inv [OF free_area_init_inv(1) [OF assms]] free_area_init_inv [OF assms]
  by (simp_all add: blocks_of_def)

lemma free_memory_core_page_inv:
  assumes inv: "page_inv K s" and up: "unat start + 4095 < 2 ^ 64"
    and new: "whole_frames start end_addr \<inter> free_frames s = {}"
    and part: "\<And>c j. c < K \<Longrightarrow> j \<in> set (partial_list s c) \<Longrightarrow> base s + j \<notin> whole_frames start end_addr"
  obtains s' where "free_memory_core s start end_addr = Some s'" "page_inv K s'"
    "free_frames s' = free_frames s \<union> (whole_frames start end_addr \<inter> {base s..<base s + n_pages s})"
    "same_slabs K s s'" "same_outside (free_frames s') s s'"
proof -
  obtain s' fl' where f: "free_memory_core s start end_addr = Some s'" "zone_inv K (partial_list s) s' fl'"
    "frames (blocks_of (base s) fl') = free_frames s \<union> (whole_frames start end_addr \<inter> {base s..<base s + n_pages s})"
    "same_outside (frames (blocks_of (base s) fl')) s s'"
    using free_memory_core_inv [OF inv [unfolded page_inv_def] up new [unfolded free_frames_def free_blocks_def]] part
    by (auto simp: free_blocks_def free_frames_def)
  have bs: "base s' = base s" using f(4) by (simp add: same_outside_def)
  show thesis
    by (rule that [OF f(1)]) (use zone_inv_page_inv [OF f(2)] f bs in \<open>auto simp: same_slabs_def\<close>)
qed

section \<open>Interleaved requests\<close>

text \<open>
  Any sequence of allocations and releases: \<open>H\<close> holds the blocks \<open>(order, page)\<close> handed out and
  not yet released. A release is of a block the client holds, at the order it was allocated with.
\<close>

inductive client_step :: "page_alloc \<times> (nat \<times> nat) set \<Rightarrow> page_alloc \<times> (nat \<times> nat) set \<Rightarrow> bool" where
  alloc: "alloc_pages s k = Some (s', Some page) \<Longrightarrow> client_step (s, H) (s', insert (k, page) H)"
| refused: "alloc_pages s k = Some (s', None) \<Longrightarrow> client_step (s, H) (s', H)"
| release: "(k, page) \<in> H \<Longrightarrow> free_pages s page k = Some s' \<Longrightarrow> client_step (s, H) (s', H - {(k, page)})"

inductive_cases client_stepE: "client_step (s, H) t"

definition held_blocks :: "page_alloc \<Rightarrow> (nat \<times> nat) set \<Rightarrow> block set" where
  "held_blocks s H = (\<lambda>(k, page). (k, base s + page)) ` H"

definition client_inv :: "nat \<Rightarrow> nat set \<Rightarrow> page_alloc \<Rightarrow> (nat \<times> nat) set \<Rightarrow> bool" where
  "client_inv K F s H \<longleftrightarrow>
     page_inv K s \<and> (\<forall>(k, page)\<in>H. in_use K s page k) \<and>
     blocks_wf (MAX_ORDER - 1) (base s) (base s + n_pages s) (held_blocks s H) \<and>
     free_frames s \<inter> frames (held_blocks s H) = {} \<and> free_frames s \<union> frames (held_blocks s H) = F"

lemma held_blocks_insert: "held_blocks s (insert (k, page) H) = insert (k, base s + page) (held_blocks s H)"
  by (simp add: held_blocks_def)

lemma held_blocks_remove: "held_blocks s (H - {(k, page)}) = held_blocks s H - {(k, base s + page)}"
  by (auto simp: held_blocks_def)

lemma in_use_mono:
  assumes "in_use K s page k" and "base s' = base s" "n_pages s' = n_pages s" and "same_slabs K s s'"
    and "blk k (base s + page) \<inter> free_frames s' = {}"
  shows "in_use K s' page k"
  using assms by (auto simp: in_use_def freeable_def same_slabs_def free_frames_def free_blocks_def)

lemma in_useD:
  "in_use K s page k \<Longrightarrow> k < MAX_ORDER \<and> 2 ^ k dvd base s + page \<and> page + 2 ^ k \<le> n_pages s \<and>
     blk k (base s + page) \<inter> free_frames s = {}"
  by (auto simp: in_use_def freeable_def free_frames_def free_blocks_def)

lemma in_use_held: "(k, page) \<in> H \<Longrightarrow> blk k (base s + page) \<subseteq> frames (held_blocks s H)"
  by (rule blk_frames) (force simp: held_blocks_def)

section \<open>The interface of a block allocator\<close>

text \<open>
  What a client of a page allocator relies on: a request is refused without effect or answered with a block of free frames, which are
  no longer free; a block in use can be released; and no operation invalidates a block that somebody else uses.
\<close>

definition clients_ok ::
  "('s \<Rightarrow> bool) \<Rightarrow> ('s \<Rightarrow> nat \<Rightarrow> nat \<Rightarrow> bool) \<Rightarrow> ('s \<Rightarrow> nat set) \<Rightarrow> ('s \<Rightarrow> nat) \<Rightarrow> ('s \<Rightarrow> nat) \<Rightarrow> nat set \<Rightarrow> 's \<Rightarrow> (nat \<times> nat) set \<Rightarrow> bool" where
  "clients_ok valid usable avail origin count F s H \<longleftrightarrow> (
     let B = (\<lambda>(k, page). (k, origin s + page)) ` H in
     valid s \<and> (\<forall>(k, page)\<in>H. usable s page k) \<and> blocks_wf (MAX_ORDER - 1) (origin s) (origin s + count s) B \<and>
     avail s \<inter> frames B = {} \<and> avail s \<union> frames B = F)"

locale block_allocator =
  fixes alloc :: "'s \<Rightarrow> nat \<Rightarrow> ('s \<times> nat option) option"
    and release :: "'s \<Rightarrow> nat \<Rightarrow> nat \<Rightarrow> 's option"
    and valid :: "'s \<Rightarrow> bool"
    and usable :: "'s \<Rightarrow> nat \<Rightarrow> nat \<Rightarrow> bool"
    and avail :: "'s \<Rightarrow> nat set"
    and origin count :: "'s \<Rightarrow> nat"
  assumes alloc_cases: "valid s \<Longrightarrow> alloc s k = Some (s, None) \<or>
      (\<exists>s' page. alloc s k = Some (s', Some page) \<and> valid s' \<and> usable s' page k \<and> origin s' = origin s \<and> count s' = count s \<and>
         blk k (origin s + page) \<subseteq> avail s \<and> avail s' = avail s - blk k (origin s + page))"
    and release_done: "valid s \<Longrightarrow> usable s page k \<Longrightarrow>
      \<exists>s'. release s page k = Some s' \<and> valid s' \<and> origin s' = origin s \<and> count s' = count s \<and> avail s' = avail s \<union> blk k (origin s + page)"
    and usableD: "usable s page k \<Longrightarrow> k < MAX_ORDER \<and> 2 ^ k dvd origin s + page \<and> page + 2 ^ k \<le> count s \<and> blk k (origin s + page) \<inter> avail s = {}"
    and alloc_keeps: "valid s \<Longrightarrow> usable s p j \<Longrightarrow> alloc s k = Some (s', r) \<Longrightarrow> usable s' p j"
    and release_keeps: "valid s \<Longrightarrow> usable s p j \<Longrightarrow> usable s page k \<Longrightarrow> blk j (origin s + p) \<inter> blk k (origin s + page) = {} \<Longrightarrow>
      release s page k = Some s' \<Longrightarrow> usable s' p j"
begin

lemma refused_same: "valid s \<Longrightarrow> alloc s k = Some (s', None) \<Longrightarrow> s' = s"
  using alloc_cases [of s k] by auto

lemma clients_alloc:
  assumes ok: "clients_ok valid usable avail origin count F s H" and al: "alloc s k = Some (s', Some page)"
  shows "clients_ok valid usable avail origin count F s' (insert (k, page) H)" "origin s' = origin s" "count s' = count s"
proof -
  let ?B = "(\<lambda>(k, page). (k, origin s + page)) ` H"
  have i: "valid s" "\<forall>(k, page)\<in>H. usable s page k" "blocks_wf (MAX_ORDER - 1) (origin s) (origin s + count s) ?B"
    "avail s \<inter> frames ?B = {}" "avail s \<union> frames ?B = F" using ok by (simp_all add: clients_ok_def Let_def)
  have a: "valid s'" "usable s' page k" "origin s' = origin s" "count s' = count s" "blk k (origin s + page) \<subseteq> avail s"
    "avail s' = avail s - blk k (origin s + page)" using alloc_cases [OF i(1), of k] al by auto
  show "origin s' = origin s" "count s' = count s" by (rule a)+
  have "\<forall>(j, p)\<in>H. usable s' p j" using i(2) alloc_keeps [OF i(1) _ al] by auto
  moreover have "blocks_wf (MAX_ORDER - 1) (origin s) (origin s + count s) (insert (k, origin s + page) ?B)"
    using i(3,4) a(5) usableD [OF a(2)] a(3,4) by (intro blocks_wf_insert) auto
  ultimately show "clients_ok valid usable avail origin count F s' (insert (k, page) H)"
    using a i(4,5) by (auto simp: clients_ok_def Let_def)
qed

lemma clients_release:
  assumes ok: "clients_ok valid usable avail origin count F s H" and h: "(k, page) \<in> H" and re: "release s page k = Some s'"
  shows "clients_ok valid usable avail origin count F s' (H - {(k, page)})" "origin s' = origin s" "count s' = count s"
proof -
  let ?B = "(\<lambda>(k, page). (k, origin s + page)) ` H"
  have i: "valid s" "\<And>j p. (j, p) \<in> H \<Longrightarrow> usable s p j" "blocks_wf (MAX_ORDER - 1) (origin s) (origin s + count s) ?B"
    "avail s \<inter> frames ?B = {}" "avail s \<union> frames ?B = F" using ok by (auto simp: clients_ok_def Let_def)
  have r: "valid s'" "origin s' = origin s" "count s' = count s" "avail s' = avail s \<union> blk k (origin s + page)"
    using release_done [OF i(1) i(2) [OF h]] re by auto
  show "origin s' = origin s" "count s' = count s" by (rule r)+
  have mem: "(k, origin s + page) \<in> ?B" using h by force
  have img: "(\<lambda>(k, page). (k, origin s + page)) ` (H - {(k, page)}) = ?B - {(k, origin s + page)}" by auto
  have "usable s' p j" if "(j, p) \<in> H" "(j, p) \<noteq> (k, page)" for j p
  proof (rule release_keeps [OF i(1) i(2) [OF that(1)] i(2) [OF h] _ re])
    have "(j, origin s + p) \<in> ?B" using that(1) by force
    from blocks_wf_apart [OF i(3) this mem] that(2) show "blk j (origin s + p) \<inter> blk k (origin s + page) = {}" by auto
  qed
  then show "clients_ok valid usable avail origin count F s' (H - {(k, page)})"
    using r i(4,5) frames_remove [OF i(3) mem] blk_frames [OF mem] blocks_wf_subset [OF i(3), of "?B - {(k, origin s + page)}"]
    by (auto simp: clients_ok_def Let_def img)
qed

end

interpretation pg: block_allocator alloc_pages free_pages "page_inv K" "in_use K" free_frames base n_pages for K
proof (unfold_locales, goal_cases alloc release usable alloc_keeps release_keeps)
  case (alloc s k)
  show ?case
  proof (cases "k < MAX_ORDER")
    case True
    from alloc True show ?thesis
      by (rule alloc_pages_page_inv) (auto simp: same_outside_def)
  qed (simp add: alloc_pages_def)
next
  case (release s page k)
  then show ?case by (rule free_pages_page_inv) (auto simp: same_outside_def)
next
  case (usable s page k)
  then show ?case by (rule in_useD)
next
  case (alloc_keeps s p j k s' r)
  show ?case
  proof (cases "k < MAX_ORDER")
    case True
    from alloc_keeps(1) True show ?thesis
    proof (cases rule: alloc_pages_page_inv)
      case (block c page t)
      then show ?thesis using alloc_keeps in_useD [OF alloc_keeps(2)]
        by (intro in_use_mono [OF alloc_keeps(2)]) (auto simp: same_outside_def)
    qed (use alloc_keeps in simp)
  qed (use alloc_keeps in \<open>simp add: alloc_pages_def\<close>)
next
  case (release_keeps s p j page k s')
  from release_keeps(1,3) show ?case
  proof (cases rule: free_pages_page_inv)
    case (1 t)
    then show ?thesis using release_keeps in_useD [OF release_keeps(2)]
      by (intro in_use_mono [OF release_keeps(2)]) (auto simp: same_outside_def)
  qed
qed

lemma client_inv_clients: "client_inv K F s H \<longleftrightarrow> clients_ok (page_inv K) (in_use K) free_frames base n_pages F s H"
  by (simp add: client_inv_def clients_ok_def held_blocks_def Let_def)

lemma client_step_inv:
  assumes "client_step (s, H) (s', H')" "client_inv K F s H"
  shows "client_inv K F s' H' \<and> base s' = base s \<and> n_pages s' = n_pages s"
  using assms(1)
proof cases
  case (alloc k page)
  then show ?thesis using pg.clients_alloc [OF assms(2) [unfolded client_inv_clients]] by (simp add: client_inv_clients)
next
  case (refused k)
  then show ?thesis using pg.refused_same [of K s k s'] assms(2) by (simp add: client_inv_def)
next
  case (release k page)
  then show ?thesis using pg.clients_release [OF assms(2) [unfolded client_inv_clients]] by (simp add: client_inv_clients)
qed

end
