(* ===== verification/Page_Alloc_Props.thy ===== *)
theory Page_Alloc_Props
  imports Page_Alloc_Spec
begin

text \<open>
  The properties of the page allocator, each with a witness on a zone of eight pages seeded the
  way \<^verbatim>\<open>mem_init\<close> seeds it.
\<close>

section \<open>A concrete zone\<close>

definition static_zone :: page_alloc where
  "static_zone = \<lparr>mem_map = [], mem_map_base_pfn = 0, max_mapnr = 0, nr_free = replicate MAX_ORDER 0,
     free_count = 0, nodes = (\<lambda>_. \<lparr>nxt = None, prv = None\<rparr>)\<rparr>"

definition empty_zone :: page_alloc where
  "empty_zone = free_area_init static_zone 0x40000000 8"

definition example_zone :: page_alloc where
  "example_zone = the (free_memory_core empty_zone 0x40000000 0x40008000)"

lemma page_addr: "unat (drop_bit PAGE_SHIFT (0x40000000 :: u64)) = 0x40000"
  by (simp add: unat_drop_page)

lemma empty_zone:
  "page_inv 0 empty_zone" "free_frames empty_zone = {}" "base empty_zone = 0x40000" "n_pages empty_zone = 8"
  using free_area_init_page_inv [of static_zone "0x40000000" 8]
  by (simp_all add: empty_zone_def static_zone_def page_addr)

lemma whole_example: "whole_frames 0x40000000 0x40008000 = {0x40000..<0x40008}"
  by (auto simp: whole_frames_def)

lemma example_zone:
  "free_memory_core empty_zone 0x40000000 0x40008000 = Some example_zone" "page_inv 0 example_zone"
  "free_frames example_zone = {0x40000..<0x40008}" "base example_zone = 0x40000" "n_pages example_zone = 8"
proof -
  obtain s' where s': "free_memory_core empty_zone 0x40000000 0x40008000 = Some s'" "page_inv 0 s'"
    "free_frames s' = {0x40000..<0x40008}" "same_outside (free_frames s') empty_zone s'"
    by (rule free_memory_core_page_inv [OF empty_zone(1), of "0x40000000" "0x40008000"])
      (simp_all add: empty_zone whole_example)
  then show "free_memory_core empty_zone 0x40000000 0x40008000 = Some example_zone" "page_inv 0 example_zone"
    "free_frames example_zone = {0x40000..<0x40008}" "base example_zone = 0x40000" "n_pages example_zone = 8"
    using empty_zone by (simp_all add: example_zone_def same_outside_def)
qed

lemma example_blocks: "free_blocks example_zone = {(3, 0x40000)}"
proof (rule blocks_canonical)
  show "blocks_wf (MAX_ORDER - 1) 0x40000 0x40008 (free_blocks example_zone)"
    "coalesced (MAX_ORDER - 1) (free_blocks example_zone)"
    using page_invD [OF example_zone(2)] by (simp_all add: example_zone)
  show "blocks_wf (MAX_ORDER - 1) 0x40000 0x40008 {(3, 0x40000)}"
    by (auto simp: blocks_wf_def MAX_ORDER_def)
  show "coalesced (MAX_ORDER - 1) {(3, 0x40000)}"
    by (auto simp: coalesced_def buddy_neq)
  show "frames (free_blocks example_zone) = frames {(3, 0x40000)}"
    using example_zone(3) by (simp add: free_frames_def blk_def)
qed


lemma alloc_pages_free_count:
  assumes "page_inv K s" "page_inv K s'" "free_frames s' = free_frames s - blk k p" "blk k p \<subseteq> free_frames s"
  shows "unat (nr_free_pages s') + 2 ^ k = unat (nr_free_pages s)"
  using assms page_invD(3) [OF assms(1)] page_invD(3) [OF assms(2)] card_mono [OF page_invD(6) [OF assms(1)] assms(4)]
  by (simp add: card_Diff_subset)

lemma free_pages_free_count:
  assumes "page_inv K s" "page_inv K s'" "free_frames s' = free_frames s \<union> blk k p" "blk k p \<inter> free_frames s = {}"
  shows "unat (nr_free_pages s') = unat (nr_free_pages s) + 2 ^ k"
  using assms page_invD(3) [OF assms(1)] page_invD(3) [OF assms(2)] page_invD(6) [OF assms(1)]
  by (simp add: card_Un_disjoint Int_commute)

lemma alloc_pages_order: "alloc_pages s k = Some (s', Some page) \<Longrightarrow> k < MAX_ORDER"
  by (auto simp: alloc_pages_def split: if_splits)

lemma client_run_inv:
  assumes "client_step\<^sup>*\<^sup>* (s, H) (s', H')" and "client_inv K F s H"
  shows "client_inv K F s' H' \<and> base s' = base s \<and> n_pages s' = n_pages s"
  using assms(1)
proof (induction "(s', H')" arbitrary: s' H' rule: rtranclp_induct)
  case base
  then show ?case using assms(2) by simp
next
  case (step t)
  obtain u G where t: "t = (u, G)" by (cases t)
  with step(3) [of u G] have "client_inv K F u G" "base u = base s" "n_pages u = n_pages s" by simp_all
  with client_step_inv [of u G s' H' K F] step(2) t show ?case by simp
qed

lemma client_inv_start: "page_inv K s \<Longrightarrow> client_inv K (free_frames s) s {}"
  by (simp add: client_inv_def held_blocks_def blocks_wf_def frames_def)

section \<open>Properties\<close>

text \<open>
  C12: from every state that satisfies the invariant, \<^verbatim>\<open>alloc_pages\<close> returns without touching memory
  outside its arrays and lists, keeps the invariant, and returns NULL exactly when the order is out
  of range or no free block is large enough; then the state is unchanged.
\<close>

theorem alloc_pages_total:
  assumes inv: "page_inv K s"
  shows "\<exists>s' r. alloc_pages s k = Some (s', r) \<and> page_inv K s' \<and>
           (r = None \<longleftrightarrow> MAX_ORDER \<le> k \<or> (\<forall>(j, p)\<in>free_blocks s. j < k)) \<and> (r = None \<longrightarrow> s' = s)"
proof (cases "k < MAX_ORDER")
  case True
  with inv show ?thesis
  proof (cases rule: alloc_pages_page_inv)
    case none
    then show ?thesis using inv by auto
  next
    case (block c page s')
    have "\<not> (\<forall>(j, p)\<in>free_blocks s. j < k)" using block(4,5) by force
    with True block(1,2) show ?thesis by simp
  qed
qed (use inv in \<open>auto simp: alloc_pages_def\<close>)

theorem alloc_pages_total_witness:
  "(\<exists>s' r. alloc_pages example_zone 1 = Some (s', r) \<and> r \<noteq> None \<and> page_inv 0 s') \<and>
   alloc_pages example_zone 4 = Some (example_zone, None)"
  using alloc_pages_total [OF example_zone(2), of 1] alloc_pages_total [OF example_zone(2), of 4]
  by (auto simp: example_blocks MAX_ORDER_def)

text \<open>
  C13: a block that \<^verbatim>\<open>alloc_pages\<close> hands out is aligned to its size, lies inside the zone, was free
  and is no longer free, while no other frame changes; it is cut from a block of the smallest
  order that fits, and the free lists become those of the abstract splitting step.
\<close>

theorem alloc_pages_refines:
  assumes inv: "page_inv K s" and ret: "alloc_pages s k = Some (s', Some page)"
  shows "2 ^ k dvd base s + page \<and> page + 2 ^ k \<le> n_pages s \<and>
    blk k (base s + page) \<subseteq> free_frames s \<and> free_frames s' = free_frames s - blk k (base s + page) \<and>
    unat (nr_free_pages s') + 2 ^ k = unat (nr_free_pages s) \<and>
    (\<exists>c\<ge>k. (c, base s + page) \<in> free_blocks s \<and> (\<forall>(j, p)\<in>free_blocks s. j < k \<or> c \<le> j) \<and>
       free_blocks s' = alloc_block (free_blocks s) k c (base s + page))"
  using inv alloc_pages_order [OF ret]
proof (cases rule: alloc_pages_page_inv)
  case none
  with ret show ?thesis by simp
next
  case (block c page' s'')
  have eq: "page' = page" "s'' = s'" using ret block(1) by simp_all
  have "base s' = base s" "n_pages s' = n_pages s" using block(11) by (simp_all add: eq same_outside_def)
  with in_useD [OF block(3)] have geo: "2 ^ k dvd base s + page" "page + 2 ^ k \<le> n_pages s" by (simp_all add: eq)
  have cnt: "unat (nr_free_pages s') + 2 ^ k = unat (nr_free_pages s)"
    by (rule alloc_pages_free_count [OF inv block(2) [unfolded eq]]) (use block(8,9) eq in simp_all)
  have "\<exists>c\<ge>k. (c, base s + page) \<in> free_blocks s \<and> (\<forall>(j, p)\<in>free_blocks s. j < k \<or> c \<le> j) \<and>
       free_blocks s' = alloc_block (free_blocks s) k c (base s + page)"
    using block(4-7) eq by (intro exI [of _ c]) auto
  with geo cnt block(8,9) eq show ?thesis by simp
qed

theorem alloc_pages_refines_witness:
  "\<exists>s' page. alloc_pages example_zone 1 = Some (s', Some page) \<and> page = 0 \<and>
     free_frames s' = {0x40002..<0x40008} \<and> unat (nr_free_pages s') = 6"
proof -
  obtain s' page where a: "alloc_pages example_zone 1 = Some (s', Some page)"
    by (rule alloc_pages_page_inv [OF example_zone(2), of 1]) (auto simp: MAX_ORDER_def example_blocks)
  note r = alloc_pages_refines [OF example_zone(2) a]
  have "page = 0" using r by (auto simp: example_blocks example_zone)
  moreover have "unat (nr_free_pages example_zone) = 8"
    using page_invD(3) [OF example_zone(2)] by (simp add: example_zone)
  ultimately show ?thesis using a r by (auto simp: example_zone blk_def)
qed

text \<open>
  C7: \<^verbatim>\<open>__free_pages\<close> on a block in use returns, keeps the invariant, makes exactly the frames of the
  block free, adds their number to the free count, and its effect on the free lists is the
  abstract coalescing step: the block is joined with its buddy as long as the buddy is free at
  the same order.
\<close>

theorem free_pages_refines:
  assumes inv: "page_inv K s" and use: "in_use K s page k"
  shows "\<exists>s'. free_pages s page k = Some s' \<and> page_inv K s' \<and>
    free_blocks s' = free_block (MAX_ORDER - 1) (free_blocks s) k (base s + page) \<and>
    free_frames s' = free_frames s \<union> blk k (base s + page) \<and>
    unat (nr_free_pages s') = unat (nr_free_pages s) + 2 ^ k"
  using inv use
proof (cases rule: free_pages_page_inv)
  case (1 s')
  have "unat (nr_free_pages s') = unat (nr_free_pages s) + 2 ^ k"
    by (rule free_pages_free_count [OF inv 1(2,4)]) (use in_useD [OF use] in simp)
  with 1 show ?thesis by auto
qed

theorem free_pages_refines_witness:
  "\<exists>s'. free_pages empty_zone 3 0 = Some s' \<and> free_frames s' = {0x40003} \<and> unat (nr_free_pages s') = 1"
proof -
  have use: "in_use 0 empty_zone 3 0"
    using empty_zone by (simp add: in_use_def freeable_def MAX_ORDER_def free_frames_def free_blocks_def)
  have "unat (nr_free_pages empty_zone) = 0" using page_invD(3) [OF empty_zone(1)] by (simp add: empty_zone)
  then show ?thesis using free_pages_refines [OF empty_zone(1) use] by (auto simp: empty_zone blk_def)
qed

text \<open>
  Releasing a block right after its allocation restores the free blocks of every order and
  the free count: splitting leaves behind what coalescing puts together again.
\<close>

theorem alloc_free_round_trip:
  assumes inv: "page_inv K s" and ret: "alloc_pages s k = Some (s', Some page)"
  shows "\<exists>s''. free_pages s' page k = Some s'' \<and> page_inv K s'' \<and>
           free_blocks s'' = free_blocks s \<and> nr_free_pages s'' = nr_free_pages s"
  using inv alloc_pages_order [OF ret]
proof (cases rule: alloc_pages_page_inv)
  case none
  with ret show ?thesis by simp
next
  case (block c page' t)
  have eq: "page' = page" "t = s'" using ret block(1) by simp_all
  have bs: "base s' = base s" using block(11) by (simp add: eq same_outside_def)
  note b = block(2,3,7) [unfolded eq]
  from free_pages_page_inv [OF b(1,2)] obtain s'' where f: "free_pages s' page k = Some s''" "page_inv K s''"
    "free_blocks s'' = free_block (MAX_ORDER - 1) (free_blocks s') k (base s' + page)" by metis
  have "free_blocks s'' = free_blocks s"
    using alloc_free_block [OF page_invD(1,2) [OF inv] block(5,4)] b(3) f(3) by (simp add: bs eq)
  moreover from this have "unat (nr_free_pages s'') = unat (nr_free_pages s)"
    using page_invD(3) [OF inv] page_invD(3) [OF f(2)] by (simp add: free_frames_def)
  ultimately show ?thesis using f by (auto simp: word_unat_eq_iff)
qed

theorem alloc_free_round_trip_witness:
  "\<exists>s' page s''. alloc_pages example_zone 0 = Some (s', Some page) \<and> free_pages s' page 0 = Some s'' \<and>
     free_blocks s'' = {(3, 0x40000)}"
proof -
  obtain s' page where a: "alloc_pages example_zone 0 = Some (s', Some page)"
    by (rule alloc_pages_page_inv [OF example_zone(2), of 0]) (auto simp: MAX_ORDER_def example_blocks)
  with alloc_free_round_trip [OF example_zone(2) a] show ?thesis by (auto simp: example_blocks)
qed

text \<open>
  C14: however allocations and releases are interleaved, starting from a zone with no block held:
  the blocks held are aligned, inside the zone and pairwise disjoint, no held frame is free, the
  held and the free frames together are the frames that were free at the start, and every
  further allocation, and every release of a held block, returns.
\<close>

theorem client_run_safe:
  assumes inv: "page_inv K s" and run: "client_step\<^sup>*\<^sup>* (s, {}) (s', H)"
  shows "page_inv K s' \<and>
    blocks_wf (MAX_ORDER - 1) (base s) (base s + n_pages s) (held_blocks s H) \<and>
    free_frames s' \<inter> frames (held_blocks s H) = {} \<and>
    free_frames s' \<union> frames (held_blocks s H) = free_frames s \<and>
    (\<forall>k. \<exists>t. alloc_pages s' k = Some t) \<and> (\<forall>(k, page)\<in>H. \<exists>t. free_pages s' page k = Some t)"
proof -
  from client_run_inv [OF run client_inv_start [OF inv]]
  have ci: "client_inv K (free_frames s) s' H" and bs: "base s' = base s" "n_pages s' = n_pages s" by simp_all
  have hb: "held_blocks s' H = held_blocks s H" by (simp add: held_blocks_def bs)
  have pi: "page_inv K s'" using ci by (simp add: client_inv_def)
  have al: "\<exists>t. alloc_pages s' k = Some t" for k
    by (cases "k < MAX_ORDER") (auto intro: alloc_pages_page_inv [OF pi] simp: alloc_pages_def)
  have fr: "\<exists>t. free_pages s' page k = Some t" if "(k, page) \<in> H" for k page
    by (rule free_pages_page_inv [OF pi, of page k]) (use ci that in \<open>auto simp: client_inv_def\<close>)
  show ?thesis using ci pi al fr by (auto simp: client_inv_def hb bs)
qed

theorem client_run_safe_witness:
  "\<exists>s' H. client_step\<^sup>*\<^sup>* (example_zone, {}) (s', H) \<and> H = {(1, 0)} \<and>
     free_frames s' \<union> frames (held_blocks example_zone H) = {0x40000..<0x40008}"
proof -
  obtain s' page where a: "alloc_pages example_zone 1 = Some (s', Some page)" "page = 0"
    by (rule alloc_pages_page_inv [OF example_zone(2), of 1]) (auto simp: MAX_ORDER_def example_blocks example_zone)
  have run: "client_step\<^sup>*\<^sup>* (example_zone, {}) (s', {(1, 0)})" using client_step.alloc [OF a(1), of "{}"] a(2) by auto
  with client_run_safe [OF example_zone(2) run] show ?thesis by (auto simp: example_zone)
qed

text \<open>
  C15: when every block has been released, in whatever order, the free blocks of every order are
  those of the start and so is the free count: fragmentation never survives.
\<close>

theorem client_run_coalesces:
  assumes inv: "page_inv K s" and run: "client_step\<^sup>*\<^sup>* (s, {}) (s', {})"
  shows "free_blocks s' = free_blocks s \<and> nr_free_pages s' = nr_free_pages s"
proof -
  from client_run_inv [OF run client_inv_start [OF inv]]
  have ci: "client_inv K (free_frames s) s' {}" and bs: "base s' = base s" "n_pages s' = n_pages s" by simp_all
  then have pi: "page_inv K s'" and fr: "free_frames s' = free_frames s"
    by (auto simp: client_inv_def held_blocks_def frames_def)
  have "free_blocks s' = free_blocks s"
    by (rule blocks_canonical [OF page_invD(1) [OF pi, unfolded bs] page_invD(1) [OF inv] page_invD(2) [OF pi]
          page_invD(2) [OF inv]]) (use fr in \<open>simp add: free_frames_def\<close>)
  moreover have "unat (nr_free_pages s') = unat (nr_free_pages s)"
    using page_invD(3) [OF inv] page_invD(3) [OF pi] fr by simp
  ultimately show ?thesis by (simp add: word_unat_eq_iff)
qed

theorem client_run_coalesces_witness:
  "\<exists>s'. client_step\<^sup>*\<^sup>* (example_zone, {}) (s', {}) \<and> s' \<noteq> empty_zone \<and> free_blocks s' = {(3, 0x40000)}"
proof -
  obtain s1 page where a: "alloc_pages example_zone 1 = Some (s1, Some page)"
      and u: "page_inv 0 s1" "in_use 0 s1 page 1"
    by (rule alloc_pages_page_inv [OF example_zone(2), of 1]) (auto simp: MAX_ORDER_def example_blocks)
  obtain s2 where f: "free_pages s1 page 1 = Some s2" by (rule free_pages_page_inv [OF u])
  have "client_step (example_zone, {}) (s1, {(1, page)})" using client_step.alloc [OF a, of "{}"] by simp
  moreover have "client_step (s1, {(1, page)}) (s2, {})" using client_step.release [of 1 page, OF _ f] by fastforce
  ultimately have run: "client_step\<^sup>*\<^sup>* (example_zone, {}) (s2, {})" by auto
  note r = client_run_coalesces [OF example_zone(2) run]
  have "free_blocks s2 \<noteq> free_blocks empty_zone"
    using r empty_zone(2) example_zone(3) by (auto simp: free_frames_def)
  then show ?thesis using run r by (auto simp: example_blocks)
qed

text \<open>
  C16: \<^verbatim>\<open>free_area_init\<close> followed by \<^verbatim>\<open>__free_memory_core\<close> makes free exactly the page frames that lie
  wholly inside the range handed over and inside the zone, as coalesced blocks, and counts them;
  the inner and the outer loop terminate.
\<close>

theorem free_memory_core_seeds:
  assumes len: "length (nr_free s) = MAX_ORDER"
    and zone: "unat (drop_bit PAGE_SHIFT addr) + unat pages < 2 ^ 52" and up: "unat start + 4095 < 2 ^ 64"
  shows "\<exists>s'. free_memory_core (free_area_init s addr pages) start end_addr = Some s' \<and> page_inv 0 s' \<and>
    free_frames s' = {p. unat start \<le> p * 4096 \<and> (p + 1) * 4096 \<le> unat end_addr \<and>
      unat addr div 4096 \<le> p \<and> p < unat addr div 4096 + unat pages} \<and>
    unat (nr_free_pages s') = card (free_frames s')"
proof -
  note i = free_area_init_page_inv [OF len zone]
  obtain s' where f: "free_memory_core (free_area_init s addr pages) start end_addr = Some s'" "page_inv 0 s'"
    "free_frames s' = whole_frames start end_addr \<inter> {unat addr div 4096..<unat addr div 4096 + unat pages}"
    by (rule free_memory_core_page_inv [OF i(1) up, of end_addr]) (simp_all add: i unat_drop_page)
  moreover have "free_frames s' = {p. unat start \<le> p * 4096 \<and> (p + 1) * 4096 \<le> unat end_addr \<and>
      unat addr div 4096 \<le> p \<and> p < unat addr div 4096 + unat pages}"
    unfolding f(3) whole_frames_def by auto
  ultimately show ?thesis using page_invD(3) [OF f(2)] by auto
qed

theorem free_memory_core_seeds_witness:
  "\<exists>s'. free_memory_core (free_area_init static_zone 0x40000000 8) 0x40000001 0x40003fff = Some s' \<and>
     free_frames s' = {0x40001, 0x40002}"
proof -
  have "{p. (0x40000001::nat) \<le> p * 4096 \<and> (p + 1) * 4096 \<le> 0x40003fff \<and>
      0x40000000 div 4096 \<le> p \<and> p < 0x40000000 div 4096 + 8} = {0x40001, 0x40002}" by auto
  moreover have "length (nr_free static_zone) = MAX_ORDER" by (simp add: static_zone_def)
  ultimately show ?thesis using free_memory_core_seeds [of static_zone "0x40000000" 8 "0x40000001" "0x40003fff"]
    by (auto simp: page_addr)
qed

end
