(* ===== verification/Memblock.thy ===== *)
theory Memblock
  imports Prelude
begin

text \<open>
  The early region allocator of \<^verbatim>\<open>mm/memblock.c\<close>: two sorted tables of at most sixteen regions,
  one of usable memory and one of reserved ranges. Addresses and sizes are 64-bit words; the
  counters are \<^verbatim>\<open>unsigned\<close>, kept as \<open>nat\<close> with the wrap-around of their subtractions written
  out. A read, a write or a \<^verbatim>\<open>memmove\<close> outside the table is undefined (\<open>None\<close>), and
  \<^verbatim>\<open>return -1\<close> is an ordinary result.
\<close>

unbundle bit_operations_syntax

section \<open>State\<close>

definition INIT_MEMBLOCK_REGIONS :: nat where "INIT_MEMBLOCK_REGIONS = 16"
definition UINTPTR_MAX :: u64 where "UINTPTR_MAX = - 1"

record memblock_region =
  rg_base :: u64
  rg_size :: u64

record memblock_type =
  cnt :: nat
  total_size :: u64
  regions :: "memblock_region list"

record memblock =
  memory :: memblock_type
  reserved :: memblock_type

record memblock_cursor =
  cur_memory :: nat
  cur_reserved :: nat

text \<open>Subtraction of \<^verbatim>\<open>unsigned\<close> values.\<close>

definition usub :: "nat \<Rightarrow> nat \<Rightarrow> nat" where
  "usub a b = (if b \<le> a then a - b else 2 ^ 32 + a - b)"

definition get_region :: "memblock_type \<Rightarrow> nat \<Rightarrow> memblock_region option" where
  "get_region t i = (if i < length (regions t) then Some (regions t ! i) else None)"

definition set_region :: "memblock_type \<Rightarrow> nat \<Rightarrow> memblock_region \<Rightarrow> memblock_type option" where
  "set_region t i r = (if i < length (regions t) then Some (t\<lparr>regions := (regions t)[i := r]\<rparr>) else None)"

text \<open>\<^verbatim>\<open>memmove(&regions[dst], &regions[src], n * sizeof(struct memblock_region))\<close>.\<close>

definition move_regions :: "memblock_type \<Rightarrow> nat \<Rightarrow> nat \<Rightarrow> nat \<Rightarrow> memblock_type option" where
  "move_regions t dst src n =
     (if dst + n \<le> length (regions t) \<and> src + n \<le> length (regions t)
      then Some (t\<lparr>regions := take dst (regions t) @ take n (drop src (regions t)) @ drop (dst + n) (regions t)\<rparr>)
      else None)"

section \<open>Operations\<close>

definition cap_size :: "u64 \<Rightarrow> u64 \<Rightarrow> u64" where
  "cap_size base sz = (if sz < UINTPTR_MAX - base then sz else UINTPTR_MAX - base)"

definition memblock_insert_region :: "memblock_type \<Rightarrow> nat \<Rightarrow> u64 \<Rightarrow> u64 \<Rightarrow> memblock_type option" where
  "memblock_insert_region t index base sz = do {
     t \<leftarrow> move_regions t (index + 1) index (usub (cnt t) index);
     t \<leftarrow> set_region t index \<lparr>rg_base = base, rg_size = sz\<rparr>;
     Some (t\<lparr>cnt := cnt t + 1, total_size := total_size t + sz\<rparr>)
   }"

definition memblock_remove_region :: "memblock_type \<Rightarrow> nat \<Rightarrow> memblock_type option" where
  "memblock_remove_region t index = do {
     r \<leftarrow> get_region t index;
     let t = t\<lparr>total_size := total_size t - rg_size r\<rparr>;
     t \<leftarrow> move_regions t index (index + 1) (usub (usub (cnt t) index) 1);
     Some (t\<lparr>cnt := usub (cnt t) 1\<rparr>)
   }"

function merge_loop :: "memblock_type \<Rightarrow> nat \<Rightarrow> nat \<Rightarrow> memblock_type option" where
  "merge_loop t index end_rgn =
     (if index < end_rgn then do {
        current \<leftarrow> get_region t index;
        after \<leftarrow> get_region t (index + 1);
        if rg_base current + rg_size current \<noteq> rg_base after then merge_loop t (index + 1) end_rgn
        else do {
          t \<leftarrow> set_region t index (current\<lparr>rg_size := rg_size current + rg_size after\<rparr>);
          t \<leftarrow> move_regions t (index + 1) (index + 2) (usub (usub (cnt t) index) 2);
          merge_loop (t\<lparr>cnt := usub (cnt t) 1\<rparr>) index (end_rgn - 1)
        }
      }
      else Some t)"
  by pat_completeness auto
termination
  by (relation "measure (\<lambda>(t, index, end_rgn). end_rgn - index)") auto

declare merge_loop.simps [simp del]

definition memblock_merge_regions :: "memblock_type \<Rightarrow> nat \<Rightarrow> nat \<Rightarrow> memblock_type option" where
  "memblock_merge_regions t start_rgn end_rgn =
     merge_loop t (if start_rgn \<noteq> 0 then start_rgn - 1 else 0)
       (if end_rgn > usub (cnt t) 1 then usub (cnt t) 1 else end_rgn)"

lemma insert_region_cnt:
  "memblock_insert_region t i b s = Some t' \<Longrightarrow> cnt t' = Suc (cnt t) \<and> length (regions t') = length (regions t)"
  by (auto simp: memblock_insert_region_def move_regions_def set_region_def split: if_splits bind_splits)

text \<open>
  One pass of \<^verbatim>\<open>memblock_add_range\<close>, from the label \<^verbatim>\<open>repeat\<close>: the loop returns the table, the
  remaining base, the index, the number of insertions needed and the range of indices to merge.
\<close>

function add_range_loop ::
  "bool \<Rightarrow> u64 \<Rightarrow> memblock_type \<Rightarrow> u64 \<Rightarrow> nat \<Rightarrow> nat \<Rightarrow> nat \<Rightarrow> nat \<Rightarrow>
     (memblock_type \<times> u64 \<times> nat \<times> nat \<times> nat \<times> nat) option" where
  "add_range_loop ins limit t base index added start_rgn end_rgn =
     (if index < cnt t then do {
        region \<leftarrow> get_region t index;
        let region_base = rg_base region;
        let region_end = region_base + rg_size region;
        if region_base \<ge> limit then Some (t, base, index, added, start_rgn, end_rgn)
        else if region_end \<le> base then add_range_loop ins limit t base (index + 1) added start_rgn end_rgn
        else do {
          let rest = (if region_end < limit then region_end else limit);
          if region_base > base then
            if ins then do {
              t \<leftarrow> memblock_insert_region t index base (region_base - base);
              add_range_loop ins limit t rest (index + 2) (added + 1)
                (if end_rgn = 0 then index else start_rgn) (index + 1)
            }
            else add_range_loop ins limit t rest (index + 1) (added + 1) start_rgn end_rgn
          else add_range_loop ins limit t rest (index + 1) added start_rgn end_rgn
        }
      }
      else Some (t, base, index, added, start_rgn, end_rgn))"
  by pat_completeness auto
termination
  by (relation "measure (\<lambda>(ins, limit, t, base, index, added, s, e). cnt t - index)")
    (auto dest!: insert_region_cnt)

declare add_range_loop.simps [simp del]

definition add_range_pass ::
  "bool \<Rightarrow> u64 \<Rightarrow> memblock_type \<Rightarrow> u64 \<Rightarrow> nat \<Rightarrow> nat \<Rightarrow> (memblock_type \<times> nat \<times> nat \<times> nat) option" where
  "add_range_pass ins limit t base start_rgn end_rgn = do {
     (t, base, index, added, start_rgn, end_rgn) \<leftarrow> add_range_loop ins limit t base 0 0 start_rgn end_rgn;
     if base < limit then
       if ins then do {
         t \<leftarrow> memblock_insert_region t index base (limit - base);
         Some (t, added + 1, if end_rgn = 0 then index else start_rgn, index + 1)
       }
       else Some (t, added + 1, start_rgn, end_rgn)
     else Some (t, added, start_rgn, end_rgn)
   }"

definition memblock_add_range :: "memblock_type \<Rightarrow> u64 \<Rightarrow> u64 \<Rightarrow> (memblock_type \<times> int) option" where
  "memblock_add_range t base sz = (
     let limit = base + cap_size base sz in
     if sz = 0 then Some (t, 0)
     else if cnt t = 0 then do {
       t \<leftarrow> set_region t 0 \<lparr>rg_base = base, rg_size = sz\<rparr>;
       Some (t\<lparr>total_size := sz, cnt := 1\<rparr>, 0)
     }
     else do {
       (t, added, start_rgn, end_rgn) \<leftarrow> add_range_pass False limit t base 0 0;
       if added = 0 then Some (t, 0)
       else if cnt t + added > INIT_MEMBLOCK_REGIONS then Some (t, - 1)
       else do {
         (t, added, start_rgn, end_rgn) \<leftarrow> add_range_pass True limit t base start_rgn end_rgn;
         if added = 0 then Some (t, 0)
         else do {
           t \<leftarrow> memblock_merge_regions t start_rgn end_rgn;
           Some (t, 0)
         }
       }
     })"

text \<open>
  The loop of \<^verbatim>\<open>memblock_isolate_range\<close>. In the second cut \<^verbatim>\<open>index--\<close> undoes the increment of the
  loop, also where it wraps at zero: the lower part is looked at again.
\<close>

function isolate_loop ::
  "u64 \<Rightarrow> u64 \<Rightarrow> memblock_type \<Rightarrow> nat \<Rightarrow> nat \<Rightarrow> nat \<Rightarrow> (memblock_type \<times> nat \<times> nat) option" where
  "isolate_loop base limit t index start_rgn end_rgn =
     (if index < cnt t then do {
        region \<leftarrow> get_region t index;
        let region_base = rg_base region;
        let region_end = region_base + rg_size region;
        if region_base \<ge> limit then Some (t, start_rgn, end_rgn)
        else if region_end \<le> base then isolate_loop base limit t (index + 1) start_rgn end_rgn
        else if region_base < base then do {
          t \<leftarrow> set_region t index \<lparr>rg_base = base, rg_size = rg_size region - (base - region_base)\<rparr>;
          let t = t\<lparr>total_size := total_size t - (base - region_base)\<rparr>;
          t \<leftarrow> memblock_insert_region t index region_base (base - region_base);
          isolate_loop base limit t (index + 1) start_rgn end_rgn
        }
        else if region_end > limit then do {
          t \<leftarrow> set_region t index \<lparr>rg_base = limit, rg_size = rg_size region - (limit - region_base)\<rparr>;
          let t = t\<lparr>total_size := total_size t - (limit - region_base)\<rparr>;
          t \<leftarrow> memblock_insert_region t index region_base (limit - region_base);
          isolate_loop base limit t index start_rgn end_rgn
        }
        else isolate_loop base limit t (index + 1) (if end_rgn = 0 then index else start_rgn) (index + 1)
      }
      else Some (t, start_rgn, end_rgn))"
  by pat_completeness auto

lemma insert_region_room: "memblock_insert_region t i b s = Some t' \<Longrightarrow> i < cnt t \<Longrightarrow> cnt t < length (regions t)"
  by (auto simp: memblock_insert_region_def move_regions_def set_region_def usub_def split: if_splits bind_splits)

lemma insert_region_cnt_room:
  "memblock_insert_region (t\<lparr>total_size := x\<rparr>) i b s = Some t' \<Longrightarrow>
     cnt t' = Suc (cnt t) \<and> length (regions t') = length (regions t) \<and> (i < cnt t \<longrightarrow> cnt t < length (regions t))"
  by (auto dest: insert_region_cnt insert_region_room)

lemma set_region_cnt: "set_region t i r = Some t' \<Longrightarrow> cnt t' = cnt t \<and> length (regions t') = length (regions t)"
  by (auto simp: set_region_def split: if_splits)

termination isolate_loop
  by (relation "measure (\<lambda>(b, l, t, index, s, e). 2 * (length (regions t) - cnt t) + (cnt t - index))")
    (auto dest!: set_region_cnt insert_region_cnt_room)

declare isolate_loop.simps [simp del]

definition memblock_isolate_range ::
  "memblock_type \<Rightarrow> u64 \<Rightarrow> u64 \<Rightarrow> (memblock_type \<times> nat \<times> nat \<times> int) option" where
  "memblock_isolate_range t base sz = (
     let limit = base + cap_size base sz in
     if sz = 0 then Some (t, 0, 0, 0)
     else if cnt t + 2 > INIT_MEMBLOCK_REGIONS then Some (t, 0, 0, - 1)
     else do {
       (t, start_rgn, end_rgn) \<leftarrow> isolate_loop base limit t 0 0 0;
       Some (t, start_rgn, end_rgn, 0)
     })"

fun remove_loop :: "memblock_type \<Rightarrow> nat \<Rightarrow> nat \<Rightarrow> memblock_type option" where
  "remove_loop t start_rgn 0 = Some t"
| "remove_loop t start_rgn (Suc index) =
     (if start_rgn < Suc index then do { t \<leftarrow> memblock_remove_region t index; remove_loop t start_rgn index }
      else Some t)"

definition memblock_remove_range :: "memblock_type \<Rightarrow> u64 \<Rightarrow> u64 \<Rightarrow> (memblock_type \<times> int) option" where
  "memblock_remove_range t base sz = do {
     (t, start_rgn, end_rgn, r) \<leftarrow> memblock_isolate_range t base sz;
     if r \<noteq> 0 then Some (t, - 1)
     else do { t \<leftarrow> remove_loop t start_rgn end_rgn; Some (t, 0) }
   }"

definition memblock_add :: "memblock \<Rightarrow> u64 \<Rightarrow> u64 \<Rightarrow> (memblock \<times> int) option" where
  "memblock_add m base sz = do {
     (t, r) \<leftarrow> memblock_add_range (memory m) base sz; Some (m\<lparr>memory := t\<rparr>, r) }"

definition memblock_reserve :: "memblock \<Rightarrow> u64 \<Rightarrow> u64 \<Rightarrow> (memblock \<times> int) option" where
  "memblock_reserve m base sz = do {
     (t, r) \<leftarrow> memblock_add_range (reserved m) base sz; Some (m\<lparr>reserved := t\<rparr>, r) }"

definition memblock_phys_free :: "memblock \<Rightarrow> u64 \<Rightarrow> u64 \<Rightarrow> (memblock \<times> int) option" where
  "memblock_phys_free m base sz = do {
     (t, r) \<leftarrow> memblock_remove_range (reserved m) base sz; Some (m\<lparr>reserved := t\<rparr>, r) }"

text \<open>
  The inner loop of \<^verbatim>\<open>memblock_next_free\<close> over the gaps between reserved regions, for one memory
  region: the new position and, if a range is found, the range and whether the memory region
  ends first.
\<close>

definition gap_start :: "memblock_type \<Rightarrow> nat \<Rightarrow> u64 option" where
  "gap_start t r = (if r \<noteq> 0 then do { p \<leftarrow> get_region t (r - 1); Some (rg_base p + rg_size p) } else Some 0)"

definition gap_end :: "memblock_type \<Rightarrow> nat \<Rightarrow> u64 option" where
  "gap_end t r = (if r < cnt t then do { p \<leftarrow> get_region t r; Some (rg_base p) } else Some UINTPTR_MAX)"

function next_gap_loop :: "memblock_type \<Rightarrow> u64 \<Rightarrow> u64 \<Rightarrow> nat \<Rightarrow> (nat \<times> (u64 \<times> u64 \<times> bool) option) option" where
  "next_gap_loop t area_start area_end r =
     (if r < cnt t + 1 then do {
        gs \<leftarrow> gap_start t r;
        ge \<leftarrow> gap_end t r;
        if gs \<ge> area_end then Some (r, None)
        else if area_start < ge then
          Some (if area_end \<le> ge then r else r + 1,
            Some (if area_start > gs then area_start else gs, if area_end < ge then area_end else ge, area_end \<le> ge))
        else next_gap_loop t area_start area_end (r + 1)
      }
      else Some (r, None))"
  by pat_completeness auto
termination
  by (relation "measure (\<lambda>(t, a, b, r). cnt t + 1 - r)") auto

declare next_gap_loop.simps [simp del]

function next_free_loop :: "memblock \<Rightarrow> nat \<Rightarrow> nat \<Rightarrow> (nat \<times> nat \<times> (u64 \<times> u64) option) option" where
  "next_free_loop m i r =
     (if i < cnt (memory m) then do {
        area \<leftarrow> get_region (memory m) i;
        (r, found) \<leftarrow> next_gap_loop (reserved m) (rg_base area) (rg_base area + rg_size area) r;
        case found of
          Some (s, e, area_first) \<Rightarrow> Some (if area_first then i + 1 else i, r, Some (s, e))
        | None \<Rightarrow> next_free_loop m (i + 1) r
      }
      else Some (i, r, None))"
  by pat_completeness auto
termination
  by (relation "measure (\<lambda>(m, i, r). cnt (memory m) - i)") auto

declare next_free_loop.simps [simp del]

definition memblock_next_free ::
  "memblock \<Rightarrow> memblock_cursor \<Rightarrow> (memblock_cursor \<times> (u64 \<times> u64) option) option" where
  "memblock_next_free m cursor = do {
     (i, r, found) \<leftarrow> next_free_loop m (cur_memory cursor) (cur_reserved cursor);
     Some (\<lparr>cur_memory = i, cur_reserved = r\<rparr>, found)
   }"

lemma next_gap_loop_progress:
  assumes "next_gap_loop t a b r = Some (r', found)"
  shows "r \<le> r'" and "found = Some (s, e, area_first) \<Longrightarrow> r < cnt t + 1 \<and> (area_first \<or> r < r')"
proof -
  have "r \<le> r' \<and> (found = Some (s, e, area_first) \<longrightarrow> r < cnt t + 1 \<and> (area_first \<or> r < r'))" using assms
  proof (induction r rule: measure_induct_rule [where f = "\<lambda>r. cnt t + 1 - r"])
    case (less r)
    have "r < cnt t + 1 \<Longrightarrow> next_gap_loop t a b (r + 1) = Some (r', found) \<Longrightarrow>
        r + 1 \<le> r' \<and> (found = Some (s, e, area_first) \<longrightarrow> area_first \<or> r < r')"
      using less.IH [of "r + 1"] by (auto simp: Suc_diff_le)
    with less.prems [unfolded next_gap_loop.simps [of t a b r]] show ?case
      by (auto split: if_splits bind_splits)
  qed
  then show "r \<le> r'" "found = Some (s, e, area_first) \<Longrightarrow> r < cnt t + 1 \<and> (area_first \<or> r < r')" by simp_all
qed

lemma next_free_progress:
  assumes "next_free_loop m i r = Some (i', r', Some x)"
  shows "cnt (memory m) - i' + (cnt (reserved m) + 1 - r') < cnt (memory m) - i + (cnt (reserved m) + 1 - r)"
  using assms
proof (induction i arbitrary: r rule: measure_induct_rule [where f = "\<lambda>i. cnt (memory m) - i"])
  case (less i)
  from less.prems have i: "i < cnt (memory m)" by (subst (asm) next_free_loop.simps) (auto split: if_splits)
  from less.prems i obtain area r1 found where area: "get_region (memory m) i = Some area"
    and gap: "next_gap_loop (reserved m) (rg_base area) (rg_base area + rg_size area) r = Some (r1, found)"
    and res: "(case found of Some (s, e, f) \<Rightarrow> Some (if f then Suc i else i, r1, Some (s, e))
               | None \<Rightarrow> next_free_loop m (Suc i) r1) = Some (i', r', Some x)"
    unfolding next_free_loop.simps [of m i r] Suc_eq_plus1 [symmetric] by (auto split: bind_splits)
  note p = next_gap_loop_progress [OF gap]
  show ?case
  proof (cases found)
    case None
    with res have "next_free_loop m (Suc i) r1 = Some (i', r', Some x)" by simp
    from less.IH [OF _ this] i p(1) show ?thesis by linarith
  next
    case (Some y)
    then obtain s e f where y: "found = Some (s, e, f)" by (cases y) auto
    with res p(1) p(2) [OF y] i show ?thesis by (cases f) auto
  qed
qed

function phys_alloc_loop :: "memblock \<Rightarrow> memblock_cursor \<Rightarrow> u64 \<Rightarrow> u64 \<Rightarrow> (memblock \<times> u64) option" where
  "phys_alloc_loop m cursor sz align = do {
     (cursor, found) \<leftarrow> memblock_next_free m cursor;
     case found of
       None \<Rightarrow> Some (m, 0)
     | Some (start, stop) \<Rightarrow>
         let candidate = (start + align - 1) AND NOT (align - 1) in
         if candidate < stop \<and> stop - candidate \<ge> sz then do {
           (m, r) \<leftarrow> memblock_reserve m candidate sz;
           Some (m, if r \<noteq> 0 then 0 else candidate)
         }
         else phys_alloc_loop m cursor sz align
   }"
  by pat_completeness auto
termination
  by (relation "measure (\<lambda>(m, c, s, a). cnt (memory m) - cur_memory c + (cnt (reserved m) + 1 - cur_reserved c))")
    (auto simp: memblock_next_free_def dest!: next_free_progress split: bind_splits)

declare phys_alloc_loop.simps [simp del]

definition memblock_phys_alloc :: "memblock \<Rightarrow> u64 \<Rightarrow> u64 \<Rightarrow> (memblock \<times> u64) option" where
  "memblock_phys_alloc m sz align =
     (if sz = 0 then Some (m, 0)
      else phys_alloc_loop m \<lparr>cur_memory = 0, cur_reserved = 0\<rparr> sz (if align = 0 then 1 else align))"

end
