(* ===== verification/Memblock_Regions.thy ===== *)
theory Memblock_Regions
  imports Memblock
begin

text \<open>
  The abstract side of the early allocator: lists of regions, the addresses they cover, and what
  filling the gaps of a list does to it. The concrete operations of \<open>Memblock\<close> are related to
  these lists by the predicate \<open>holds\<close>.
\<close>

section \<open>Regions and the addresses they cover\<close>

definition rbase :: "memblock_region \<Rightarrow> nat" where
  "rbase r = unat (rg_base r)"

definition rend :: "memblock_region \<Rightarrow> nat" where
  "rend r = unat (rg_base r) + unat (rg_size r)"

definition addrs :: "memblock_region \<Rightarrow> nat set" where
  "addrs r = {rbase r..<rend r}"

definition cover :: "memblock_region list \<Rightarrow> nat set" where
  "cover L = (\<Union>r\<in>set L. addrs r)"

text \<open>A region is not empty and does not reach past the last address.\<close>

definition good :: "memblock_region \<Rightarrow> bool" where
  "good r \<longleftrightarrow> rbase r < rend r \<and> rend r < 2 ^ 64"

definition sep :: "memblock_region list \<Rightarrow> bool" where
  "sep L \<longleftrightarrow> (\<forall>r\<in>set L. good r) \<and> sorted_wrt (\<lambda>a b. rend a \<le> rbase b) L"

text \<open>In a compact list no region ends where another begins.\<close>

definition compact :: "memblock_region list \<Rightarrow> bool" where
  "compact L \<longleftrightarrow> (\<forall>r\<in>set L. rend r \<notin> cover L)"

lemma cover_simps [simp]:
  "cover [] = {}" "cover (r # L) = addrs r \<union> cover L" "cover (L @ L') = cover L \<union> cover L'"
  by (auto simp: cover_def)

lemma sep_simps [simp]:
  "sep []" "sep (r # L) \<longleftrightarrow> good r \<and> (\<forall>x\<in>set L. rend r \<le> rbase x) \<and> sep L"
  "sep (L @ L') \<longleftrightarrow> sep L \<and> sep L' \<and> (\<forall>x\<in>set L. \<forall>y\<in>set L'. rend x \<le> rbase y)"
  by (auto simp: sep_def sorted_wrt_append)

lemma goodD: "good r \<Longrightarrow> rbase r < rend r" "good r \<Longrightarrow> rend r < 2 ^ 64"
  by (simp_all add: good_def)

lemma sep_good: "sep L \<Longrightarrow> r \<in> set L \<Longrightarrow> good r"
  by (simp add: sep_def)

text \<open>The words of a good region compare as the addresses they stand for.\<close>

lemma unat_region_end: "good r \<Longrightarrow> unat (rg_base r + rg_size r) = rend r"
  by (simp add: good_def rend_def unat_add_nowrap)

lemma region_word_iffs:
  "limit \<le> rg_base r \<longleftrightarrow> unat limit \<le> rbase r" "limit > rg_base r \<longleftrightarrow> rbase r < unat limit"
  "good r \<Longrightarrow> rg_base r + rg_size r \<le> limit \<longleftrightarrow> rend r \<le> unat limit"
  "good r \<Longrightarrow> rg_base r + rg_size r < limit \<longleftrightarrow> rend r < unat limit"
  "good r \<Longrightarrow> limit < rg_base r + rg_size r \<longleftrightarrow> unat limit < rend r"
  "rg_base r > limit \<longleftrightarrow> unat limit < rbase r"
  by (simp_all add: word_le_nat_alt word_less_nat_alt unat_region_end rbase_def)

lemma mk_region [simp]:
  "rbase \<lparr>rg_base = b, rg_size = s\<rparr> = unat b"
  "b \<le> e \<Longrightarrow> rend \<lparr>rg_base = b, rg_size = e - b\<rparr> = unat e"
  by (simp_all add: rbase_def rend_def unat_sub_le word_le_nat_alt)

lemma good_range: "b < e \<Longrightarrow> good \<lparr>rg_base = b, rg_size = e - b\<rparr>" for b e :: u64
  using u64_bound [of e] by (simp add: good_def word_less_nat_alt less_imp_le)

lemma addrs_range: "b \<le> e \<Longrightarrow> addrs \<lparr>rg_base = b, rg_size = e - b\<rparr> = {unat b..<unat e}" for b e :: u64
  by (simp add: addrs_def)

section \<open>Filling the gaps\<close>

text \<open>
  What the inserting pass of \<^verbatim>\<open>memblock_add_range\<close> makes of the regions from the current index on:
  the parts of \<open>[b, e)\<close> that they leave open become regions of their own.
\<close>

fun fill :: "u64 \<Rightarrow> u64 \<Rightarrow> memblock_region list \<Rightarrow> memblock_region list" where
  "fill b e [] = (if b < e then [\<lparr>rg_base = b, rg_size = e - b\<rparr>] else [])"
| "fill b e (r # L) =
     (if e \<le> rg_base r then (if b < e then \<lparr>rg_base = b, rg_size = e - b\<rparr> # r # L else r # L)
      else if rg_base r + rg_size r \<le> b then r # fill b e L
      else
        let b' = (if rg_base r + rg_size r < e then rg_base r + rg_size r else e) in
        if rg_base r > b then \<lparr>rg_base = b, rg_size = rg_base r - b\<rparr> # r # fill b' e L
        else r # fill b' e L)"

lemma fill_mem: "x \<in> set (fill b e L) \<Longrightarrow> x \<in> set L \<or> b < e \<and> unat b \<le> rbase x"
proof (induction b e L rule: fill.induct)
  case (2 b e r L)
  from 2 show ?case
    by (auto simp: Let_def not_le word_less_nat_alt word_le_nat_alt rbase_def split: if_splits)
qed (auto split: if_splits)

lemma fill_keeps: "set L \<subseteq> set (fill b e L)"
  by (induction b e L rule: fill.induct) (auto simp: Let_def)

lemma length_fill: "length L \<le> length (fill b e L)"
  by (induction b e L rule: fill.induct) (auto simp: Let_def)

lemma length_fill_le: "length (fill b e L) \<le> 2 * length L + 1"
  by (induction b e L rule: fill.induct) (auto simp: Let_def)

lemma fill_sep:
  assumes "sep L" and "b \<le> e"
  shows "sep (fill b e L)"
  using assms
proof (induction b e L rule: fill.induct)
  case (1 b e)
  then show ?case by (auto simp: good_range)
next
  case (2 b e r L)
  from 2(4) have r: "good r" "\<And>x. x \<in> set L \<Longrightarrow> rend r \<le> rbase x" "sep L" by auto
  define b' where "b' = (if rg_base r + rg_size r < e then rg_base r + rg_size r else e)"
  have le: "b' \<le> e" by (auto simp: b'_def)
  have tl: "sep (r # fill b' e L)" if "\<not> e \<le> rg_base r" "\<not> rg_base r + rg_size r \<le> b"
  proof -
    have "rend r \<le> rbase x" if "x \<in> set (fill b' e L)" for x
      using fill_mem [OF that] r by (auto simp: b'_def unat_region_end split: if_splits)
    with 2(2,3) [OF that b'_def] r le show ?thesis by auto
  qed
  have low: "sep (\<lparr>rg_base = b, rg_size = rg_base r - b\<rparr> # r # fill b' e L)"
    if "sep (r # fill b' e L)" "b < rg_base r"
    using that goodD(1) [OF r(1)] by (fastforce simp: good_range less_imp_le rbase_def)
  have skip: "sep (r # fill b e L)" if "rg_base r + rg_size r \<le> b" "\<not> e \<le> rg_base r"
    using that 2(1) [OF that(2,1) r(3) 2(5)] r fill_mem [of _ b e L] by (fastforce simp: region_word_iffs)
  have first: "sep (\<lparr>rg_base = b, rg_size = e - b\<rparr> # r # L)" if "e \<le> rg_base r" "b < e"
    using that r goodD(1) [OF r(1)] by (fastforce simp: good_range less_imp_le region_word_iffs)
  show ?case
    using tl low skip first 2(4) by (simp add: Let_def flip: b'_def)
qed

lemma fill_cover:
  assumes "sep L" and "b \<le> e"
  shows "cover (fill b e L) = cover L \<union> {unat b..<unat e}"
  using assms
proof (induction b e L rule: fill.induct)
  case (1 b e)
  then show ?case by (auto simp: addrs_range word_le_nat_alt word_less_nat_alt)
next
  case (2 b e r L)
  from 2(4) have r: "good r" "sep L" by auto
  define b' where "b' = (if rg_base r + rg_size r < e then rg_base r + rg_size r else e)"
  have le: "b' \<le> e" by (auto simp: b'_def)
  have b': "unat b' = min (rend r) (unat e)"
    using r(1) by (auto simp: b'_def unat_region_end region_word_iffs)
  show ?case
  proof (cases "e \<le> rg_base r \<or> rg_base r + rg_size r \<le> b")
    case True
    then show ?thesis using 2(1) r 2(5)
      by (auto simp: addrs_range less_imp_le word_less_nat_alt word_le_nat_alt)
  next
    case False
    then have ih: "cover (fill b' e L) = cover L \<union> {unat b'..<unat e}" using 2(2,3) [OF _ _ b'_def] r le by auto
    have ends: "rbase r < unat e" "unat b < rend r" using False r(1) by (simp_all add: region_word_iffs not_le)
    then have "addrs r \<union> {unat b'..<unat e} \<union> {unat b..<rbase r} = addrs r \<union> {unat b..<unat e}"
      using goodD(1) [OF r(1)] by (auto simp: addrs_def b')
    moreover have "addrs \<lparr>rg_base = b, rg_size = rg_base r - b\<rparr> = {unat b..<rbase r}" if "b < rg_base r"
      using addrs_range [of b "rg_base r"] that by (simp add: rbase_def less_imp_le)
    moreover have "{unat b..<rbase r} = {}" if "\<not> b < rg_base r"
      using that by (simp add: rbase_def word_less_nat_alt not_less)
    ultimately show ?thesis using False ih by (auto simp: Let_def b'_def [symmetric])
  qed
qed

section \<open>Joining what touches\<close>

definition apart :: "memblock_region \<Rightarrow> memblock_region \<Rightarrow> bool" where
  "apart a b \<longleftrightarrow> rend a \<noteq> rbase b"

lemma compact_apart:
  assumes "sep L"
  shows "compact L \<longleftrightarrow> successively apart L"
  using assms
proof (induction L)
  case Nil
  then show ?case by (simp add: compact_def)
next
  case (Cons r L)
  from Cons(2) have r: "good r" "\<And>x. x \<in> set L \<Longrightarrow> rend r \<le> rbase x" "sep L" by auto
  have "rend x \<notin> addrs r" if "x \<in> set L" for x
    using r(2) [OF that] sep_good [OF r(3) that] by (auto simp: addrs_def good_def)
  then have tl: "compact (r # L) \<longleftrightarrow> rend r \<notin> cover L \<and> compact L" by (auto simp: compact_def addrs_def)
  have "rend r \<notin> cover L \<longleftrightarrow> (case L of [] \<Rightarrow> True | y # _ \<Rightarrow> apart r y)"
  proof (cases L)
    case (Cons y L')
    have y: "good y" "\<And>x. x \<in> set L' \<Longrightarrow> rend y \<le> rbase x" using r(3) Cons by auto
    have "rend r \<notin> cover L'" using r(2) [of y] y goodD(1) [OF y(1)] Cons by (fastforce simp: cover_def addrs_def)
    moreover have "rend r \<in> addrs y \<longleftrightarrow> \<not> apart r y"
      using r(2) [of y] goodD(1) [OF y(1)] Cons by (auto simp: addrs_def apart_def)
    ultimately show ?thesis by (simp add: Cons)
  qed simp
  with tl Cons.IH [OF r(3)] show ?case by (cases L) auto
qed

lemma successively_drop: "successively P L \<Longrightarrow> successively P (drop n L)"
  using successively_append_iff [of P "take n L" "drop n L"] by simp

lemma successively_take: "successively P L \<Longrightarrow> successively P (take n L)"
  using successively_append_iff [of P "take n L" "drop n L"] by simp

lemma successively_glue:
  assumes "successively P (take (Suc i) L)" and "successively P (drop e L)" and "e \<le> i"
  shows "successively P L"
proof (cases "i < length L")
  case True
  have "successively P (drop i L)" using successively_drop [OF assms(2), of "i - e"] assms(3) by simp
  with assms(1) True show ?thesis
    using successively_append_iff [of P "take i L" "drop i L"]
      successively_append_iff [of P "take i L" "[L ! i]"]
    by (auto simp: take_Suc_conv_app_nth hd_drop_conv_nth)
qed (use assms(1) in simp)

section \<open>Tables and lists\<close>

text \<open>The table holds the regions \<open>L\<close>, and its byte count is the sum of their sizes.\<close>

definition holds :: "memblock_type \<Rightarrow> memblock_region list \<Rightarrow> bool" where
  "holds t L \<longleftrightarrow>
     length (regions t) = INIT_MEMBLOCK_REGIONS \<and> cnt t = length L \<and> length L \<le> INIT_MEMBLOCK_REGIONS \<and>
     take (length L) (regions t) = L \<and> total_size t = sum_list (map rg_size L)"

lemma holdsD:
  assumes "holds t L"
  shows "cnt t = length L" "length L \<le> 16" "length (regions t) = 16" "total_size t = sum_list (map rg_size L)"
  using assms by (simp_all add: holds_def INIT_MEMBLOCK_REGIONS_def)

lemma holds_get: "holds t L \<Longrightarrow> i < length L \<Longrightarrow> get_region t i = Some (L ! i)"
  unfolding holds_def get_region_def by (metis nth_take order_less_le_trans)

lemma holds_insert:
  assumes h: "holds t (D @ R)" and room: "length D + length R < 16" and i: "i = length D"
  obtains t' where "memblock_insert_region t i b s = Some t'" "holds t' (D @ \<lparr>rg_base = b, rg_size = s\<rparr> # R)"
proof -
  note d = holdsD [OF h]
  obtain X where rg: "regions t = D @ R @ X" using h append_take_drop_id [of "length (D @ R)" "regions t"]
    unfolding holds_def by (metis append.assoc)
  let ?r = "\<lparr>rg_base = b, rg_size = s\<rparr>"
  have len: "length D + length R + length X = 16" using d(3) rg by simp
  have "memblock_insert_region t i b s =
      Some (t\<lparr>regions := D @ ?r # R @ drop 1 X, cnt := cnt t + 1, total_size := total_size t + s\<rparr>)"
    using room len d(1) by (cases R; cases X)
      (simp_all add: memblock_insert_region_def move_regions_def set_region_def usub_def rg i list_update_append)
  moreover have "holds (t\<lparr>regions := D @ ?r # R @ drop 1 X, cnt := cnt t + 1, total_size := total_size t + s\<rparr>) (D @ ?r # R)"
    using d room len by (simp add: holds_def INIT_MEMBLOCK_REGIONS_def algebra_simps)
  ultimately show thesis by (rule that)
qed

lemma holds_remove:
  assumes h: "holds t (D @ r # R)" and i: "i = length D"
  obtains t' where "memblock_remove_region t i = Some t'" "holds t' (D @ R)"
proof -
  note d = holdsD [OF h]
  obtain X where rg: "regions t = D @ r # R @ X" using h append_take_drop_id [of "length (D @ r # R)" "regions t"]
    unfolding holds_def by (metis append.assoc append_Cons)
  let ?t = "t\<lparr>total_size := total_size t - rg_size r, regions := D @ R @ drop (length R) (r # R @ X), cnt := cnt t - 1\<rparr>"
  have len: "length D + length R + length X = 15" using d(3) rg by simp
  have "memblock_remove_region t i = Some ?t"
    using len d(1) by (simp add: memblock_remove_region_def get_region_def move_regions_def usub_def rg i nth_append)
  moreover have "holds ?t (D @ R)"
    using d len by (simp add: holds_def INIT_MEMBLOCK_REGIONS_def algebra_simps)
  ultimately show thesis by (rule that)
qed

lemma holds_set:
  assumes h: "holds t (D @ r # R)" and i: "i = length D"
  obtains t' where "set_region t i r' = Some t'" "holds (t'\<lparr>total_size := total_size t' + (rg_size r' - rg_size r)\<rparr>) (D @ r' # R)"
    "cnt t' = cnt t" "total_size t' = total_size t"
proof -
  note d = holdsD [OF h]
  obtain X where rg: "regions t = D @ r # R @ X" using h append_take_drop_id [of "length (D @ r # R)" "regions t"]
    unfolding holds_def by (metis append.assoc append_Cons)
  let ?t = "t\<lparr>regions := D @ r' # R @ X\<rparr>"
  have "set_region t i r' = Some ?t" by (simp add: set_region_def rg i list_update_append)
  moreover have "holds (?t\<lparr>total_size := total_size ?t + (rg_size r' - rg_size r)\<rparr>) (D @ r' # R)"
    using d rg by (simp add: holds_def INIT_MEMBLOCK_REGIONS_def algebra_simps)
  ultimately show thesis by (rule that) simp_all
qed

text \<open>Joining two regions in place, as \<^verbatim>\<open>memblock_merge_regions\<close> does.\<close>

lemma holds_join:
  assumes h: "holds t (D @ a # c # R)" and i: "i = length D"
  obtains t1 t2 where "set_region t i (a\<lparr>rg_size := rg_size a + rg_size c\<rparr>) = Some t1"
    "move_regions t1 (i + 1) (i + 2) (usub (usub (cnt t1) i) 2) = Some t2"
    "holds (t2\<lparr>cnt := usub (cnt t2) 1\<rparr>) (D @ a\<lparr>rg_size := rg_size a + rg_size c\<rparr> # R)"
proof -
  note d = holdsD [OF h]
  obtain X where rg: "regions t = D @ a # c # R @ X"
    using h append_take_drop_id [of "length (D @ a # c # R)" "regions t"]
    unfolding holds_def by (metis append.assoc append_Cons)
  let ?a = "a\<lparr>rg_size := rg_size a + rg_size c\<rparr>"
  let ?t1 = "t\<lparr>regions := D @ ?a # c # R @ X\<rparr>"
  let ?t2 = "t\<lparr>regions := D @ ?a # R @ drop (length R) (c # R @ X)\<rparr>"
  have len: "length D + length R + length X = 14" using d(3) rg by simp
  have "set_region t i ?a = Some ?t1" by (simp add: set_region_def rg i list_update_append)
  moreover have "move_regions ?t1 (i + 1) (i + 2) (usub (usub (cnt ?t1) i) 2) = Some ?t2"
    using len d(1) by (simp add: move_regions_def usub_def i)
  moreover have "holds (?t2\<lparr>cnt := usub (cnt ?t2) 1\<rparr>) (D @ ?a # R)"
    using d len by (simp add: holds_def INIT_MEMBLOCK_REGIONS_def usub_def algebra_simps)
  ultimately show thesis by (rule that)
qed

section \<open>The merging loop\<close>

lemma join_regions:
  assumes "sep (D @ a # c # R)" and "rend a = rbase c"
  defines "m \<equiv> a\<lparr>rg_size := rg_size a + rg_size c\<rparr>"
  shows "rbase m = rbase a" "rend m = rend c" "sep (D @ m # R)" "cover (D @ m # R) = cover (D @ a # c # R)"
proof -
  have g: "good a" "good c" using assms(1) by auto
  show b: "rbase m = rbase a" by (simp add: m_def rbase_def)
  have "unat (rg_size a) + unat (rg_size c) < 2 ^ 64" using g assms(2) by (simp add: good_def rend_def rbase_def)
  then show e: "rend m = rend c" using assms(2) by (simp add: m_def rend_def rbase_def unat_add_nowrap)
  have "good m" using g b e assms(2) by (simp add: good_def)
  then show "sep (D @ m # R)" using assms(1) b e by auto
  have "addrs m = addrs a \<union> addrs c" using b e assms(2) goodD(1) [OF g(1)] goodD(1) [OF g(2)] by (auto simp: addrs_def)
  then show "cover (D @ m # R) = cover (D @ a # c # R)" by auto
qed

lemma merge_loop_holds:
  assumes "holds t L" "sep L" "e < length L"
    and "successively apart (take (Suc i) L)" "successively apart (drop e L)"
  shows "\<exists>t' L'. merge_loop t i e = Some t' \<and> holds t' L' \<and> sep L' \<and> compact L' \<and> cover L' = cover L"
  using assms
proof (induction "e - i" arbitrary: t L i e rule: less_induct)
  case less
  show ?case
  proof (cases "i < e")
    case False
    then have "successively apart L" using successively_glue [OF less(5,6)] by simp
    with less(2,3) False show ?thesis by (auto simp: merge_loop.simps [of t i e] compact_apart)
  next
    case True
    define D where "D = take i L"
    define R where "R = drop (i + 2) L"
    define a where "a = L ! i"
    define c where "c = L ! Suc i"
    have "drop i L = a # c # R"
      using Cons_nth_drop_Suc [of i L] Cons_nth_drop_Suc [of "Suc i" L] True less(4) by (simp add: a_def c_def R_def)
    then have L: "L = D @ a # c # R" unfolding D_def by (metis append_take_drop_id)
    have i: "i = length D" using True less(4) by (simp add: D_def)
    have g: "good a" "good c" "rend a \<le> rbase c" using less(3) L by auto
    have get: "get_region t i = Some a" "get_region t (i + 1) = Some c"
      using holds_get [OF less(2)] L i by (auto simp: nth_append)
    have touch: "rg_base a + rg_size a = rg_base c \<longleftrightarrow> rend a = rbase c"
      using unat_region_end [OF g(1)] by (metis rbase_def word_unat_eq_iff)
    have low: "successively apart (D @ [a])" using less(5) L i by simp
    show ?thesis
    proof (cases "rend a = rbase c")
      case False
      then have "successively apart (take (Suc (Suc i)) L)" using low L i
        by (simp add: successively_append_iff apart_def)
      with less(1) [of e "i + 1" t L] less(2-6) True False touch get show ?thesis
        by (simp add: merge_loop.simps [of t i e])
    next
      case True
      note \<open>i < e\<close>
      note j = join_regions [OF less(3) [unfolded L] True]
      let ?m = "a\<lparr>rg_size := rg_size a + rg_size c\<rparr>"
      obtain t1 t2 where st: "set_region t i ?m = Some t1"
        "move_regions t1 (i + 1) (i + 2) (usub (usub (cnt t1) i) 2) = Some t2"
        "holds (t2\<lparr>cnt := usub (cnt t2) 1\<rparr>) (D @ ?m # R)" by (rule holds_join [OF less(2) [unfolded L] i])
      have low': "successively apart (take (Suc i) (D @ ?m # R))"
        using low i j(1) by (auto simp: successively_append_iff apart_def)
      have "successively apart (drop (e - 1) (D @ ?m # R))"
      proof (cases "e = Suc i")
        case True
        then show ?thesis using less(6) L i j(2) by (cases R) (simp_all add: apart_def)
      next
        case False
        define n where "n = e - length D - 2"
        have "e = Suc (Suc (length D + n))" using False \<open>i < e\<close> i by (simp add: n_def)
        then have "drop (e - 1) (D @ ?m # R) = drop e L" by (simp add: L)
        then show ?thesis using less(6) by simp
      qed
      with less(1) [of "e - 1" i "t2\<lparr>cnt := usub (cnt t2) 1\<rparr>" "D @ ?m # R"] st(3) j low' less(4) L \<open>i < e\<close>
      show ?thesis using get touch True st
        by (simp add: merge_loop.simps [of t i e])
    qed
  qed
qed

end
