(* ===== verification/Memblock_Range.thy ===== *)
theory Memblock_Range
  imports Memblock_Regions
begin

text \<open>
  \<^verbatim>\<open>memblock_add_range\<close> and \<^verbatim>\<open>memblock_remove_range\<close> at the level of region lists: the counting pass
  predicts the inserting pass, merging makes the table compact again, and isolating a range cuts
  at most two regions.
\<close>

section \<open>The two passes of memblock\_add\_range\<close>

lemma add_loop_count:
  assumes "holds t (D @ R)" and "sep R"
  shows "\<exists>b' i' a'. add_range_loop False e t b (length D) a s n = Some (t, b', i', a', s, n) \<and>
           a' + (if b' < e then 1 else 0) + length R = a + length (fill b e R)"
  using assms
proof (induction R arbitrary: D b a)
  case Nil
  then show ?case by (simp add: add_range_loop.simps holdsD(1) [OF Nil(1)])
next
  case (Cons r R)
  have get: "get_region t (length D) = Some r" "length D < cnt t"
    using holds_get [OF Cons(2), of "length D"] holdsD(1) [OF Cons(2)] by (simp_all add: nth_append)
  have h: "holds t ((D @ [r]) @ R)" and R: "sep R" using Cons(2,3) by simp_all
  note step = add_range_loop.simps [of False e t b "length D" a s n]
  define b' where "b' = (if rg_base r + rg_size r < e then rg_base r + rg_size r else e)"
  have ih: "\<exists>b' i' a'. add_range_loop False e t c (Suc (length D)) x s n = Some (t, b', i', a', s, n) \<and>
      a' + (if b' < e then 1 else 0) + length R = x + length (fill c e R)" for c x
    using Cons.IH [OF h R, of c x] by simp
  from ih [of b a] ih [of b' a] ih [of b' "Suc a"] get show ?case
    by (cases "e \<le> rg_base r"; cases "rg_base r + rg_size r \<le> b"; cases "b < rg_base r")
      (force simp: step Let_def simp flip: b'_def)+
qed

text \<open>The bounds \<open>s\<close> and \<open>n\<close> enclose every place where two regions may have come to touch.\<close>

definition bounds_touch :: "nat \<Rightarrow> nat \<Rightarrow> memblock_region list \<Rightarrow> memblock_region list \<Rightarrow> bool" where
  "bounds_touch s n D R \<longleftrightarrow> s \<le> length D \<and> n \<le> length D \<and>
     successively apart (take s D) \<and> successively apart (drop n D @ R)"

lemma bounds_touch_skip: "bounds_touch s n D (r # R) \<Longrightarrow> bounds_touch s n (D @ [r]) R"
  by (simp add: bounds_touch_def)

lemma bounds_touch_insert:
  assumes "bounds_touch s n D R"
  shows "bounds_touch (if n = 0 then length D else s) (Suc (length D)) (D @ [r]) R"
proof -
  have "successively apart (drop n D @ R)" using assms by (simp add: bounds_touch_def)
  then have "successively apart R" "n = 0 \<Longrightarrow> successively apart D" by (auto simp: successively_append_iff)
  then show ?thesis using assms by (simp add: bounds_touch_def)
qed

lemma add_loop_fill:
  assumes "holds t (D @ R)" and "sep R" and "length D + length (fill b e R) \<le> 16" and "bounds_touch s n D R"
  shows "\<exists>t' b' a' s' n' D' R'. add_range_loop True e t b (length D) a s n = Some (t', b', length D', a', s', n') \<and>
           holds t' (D' @ R') \<and> bounds_touch s' n' D' R' \<and>
           D' @ (if b' < e then [\<lparr>rg_base = b', rg_size = e - b'\<rparr>] else []) @ R' = D @ fill b e R \<and>
           a' + (if b' < e then 1 else 0) + length R = a + length (fill b e R)"
  using assms
proof (induction R arbitrary: t D b a s n)
  case Nil
  have "add_range_loop True e t b (length D) a s n = Some (t, b, length D, a, s, n)"
    by (simp add: add_range_loop.simps holdsD(1) [OF Nil(1)])
  with Nil show ?case by (intro exI [of _ t] exI [of _ b] exI [of _ a] exI [of _ s] exI [of _ n] exI [of _ D] exI [of _ "[]"]) simp
next
  case (Cons r R)
  have get: "get_region t (length D) = Some r" "length D < cnt t"
    using holds_get [OF Cons(2), of "length D"] holdsD(1) [OF Cons(2)] by (simp_all add: nth_append)
  have h: "holds t ((D @ [r]) @ R)" and R: "sep R" using Cons(2,3) by simp_all
  note step = add_range_loop.simps [of True e t b "length D" a s n]
  note ih = Cons.IH [OF _ R]
  define b' where "b' = (if rg_base r + rg_size r < e then rg_base r + rg_size r else e)"
  consider (break) "e \<le> rg_base r" | (skip) "\<not> e \<le> rg_base r" "rg_base r + rg_size r \<le> b"
    | (ins) "\<not> e \<le> rg_base r" "\<not> rg_base r + rg_size r \<le> b" "b < rg_base r"
    | (pass) "\<not> e \<le> rg_base r" "\<not> rg_base r + rg_size r \<le> b" "\<not> b < rg_base r" by blast
  then show ?case
  proof cases
    case break
    then have "add_range_loop True e t b (length D) a s n = Some (t, b, length D, a, s, n)" using get by (simp add: step)
    with Cons break show ?thesis
      by (intro exI [of _ t] exI [of _ b] exI [of _ a] exI [of _ s] exI [of _ n] exI [of _ D] exI [of _ "r # R"]) simp
  next
    case skip
    from ih [OF h, of b s n a] bounds_touch_skip [OF Cons(5)] Cons(4) skip get show ?thesis by (simp add: step)
  next
    case pass
    from ih [OF h, of b' s n a] bounds_touch_skip [OF Cons(5)] Cons(4) pass get show ?thesis
      by (simp add: step Let_def flip: b'_def)
  next
    case ins
    let ?r = "\<lparr>rg_base = b, rg_size = rg_base r - b\<rparr>"
    have fl: "fill b e (r # R) = ?r # r # fill b' e R" using ins by (simp add: Let_def flip: b'_def)
    obtain t1 where t1: "memblock_insert_region t (length D) b (rg_base r - b) = Some t1" "holds t1 (D @ ?r # r # R)"
      by (rule holds_insert [OF Cons(2)]) (use Cons(4) length_fill [of R b' e] fl in simp_all)
    have "bounds_touch (if n = 0 then length D else s) (Suc (length D)) (D @ [?r, r]) R"
      using bounds_touch_skip [OF bounds_touch_insert [OF Cons(5), of ?r]] by simp
    from ih [of t1 "D @ [?r, r]" b', OF _ _ this, of "Suc a"] t1 Cons(4) fl ins get show ?thesis
      by (simp add: step Let_def flip: b'_def)
  qed
qed

lemma add_pass_count:
  assumes "holds t L" and "sep L"
  shows "add_range_pass False e t b s n = Some (t, length (fill b e L) - length L, s, n)"
proof -
  obtain b' i' a' where l: "add_range_loop False e t b 0 0 s n = Some (t, b', i', a', s, n)"
    "a' + (if b' < e then 1 else 0) + length L = length (fill b e L)"
    using add_loop_count [of t "[]" L e b 0 s n] assms by auto
  then have "length (fill b e L) - length L = a' + (if b' < e then 1 else 0)" by simp
  with l(1) show ?thesis by (simp add: add_range_pass_def)
qed

lemma add_pass_fill:
  assumes "holds t L" and "sep L" and "length (fill b e L) \<le> 16" and "successively apart L"
  shows "\<exists>t' s' n'. add_range_pass True e t b 0 0 = Some (t', length (fill b e L) - length L, s', n') \<and>
           holds t' (fill b e L) \<and> successively apart (take s' (fill b e L)) \<and>
           successively apart (drop n' (fill b e L))"
proof -
  obtain t' b' a' s' n' D' R' where
    l: "add_range_loop True e t b 0 0 0 0 = Some (t', b', length D', a', s', n')" "holds t' (D' @ R')"
      "bounds_touch s' n' D' R'" "D' @ (if b' < e then [\<lparr>rg_base = b', rg_size = e - b'\<rparr>] else []) @ R' = fill b e L"
      "a' + (if b' < e then 1 else 0) + length L = length (fill b e L)"
    using add_loop_fill [of t "[]" L b e 0 0 0] assms by (auto simp: bounds_touch_def)
  have a': "length (fill b e L) - length L = a' + (if b' < e then 1 else 0)" using l(5) by simp
  show ?thesis
  proof (cases "b' < e")
    case False
    then have F: "fill b e L = D' @ R'" using l(4) by simp
    with l(1-3) a' False show ?thesis by (simp add: add_range_pass_def bounds_touch_def)
  next
    case True
    let ?r = "\<lparr>rg_base = b', rg_size = e - b'\<rparr>"
    have F: "fill b e L = D' @ ?r # R'" using l(4) True by simp
    obtain t2 where t2: "memblock_insert_region t' (length D') b' (e - b') = Some t2" "holds t2 (D' @ ?r # R')"
      by (rule holds_insert [OF l(2)]) (use assms(3) F in simp_all)
    have "(if n' = 0 then length D' else s') \<le> length D'" using l(3) by (simp add: bounds_touch_def)
    with bounds_touch_insert [OF l(3), of ?r] t2 l(1) a' True show ?thesis
      by (auto simp: add_range_pass_def F bounds_touch_def split: if_splits)
  qed
qed

section \<open>Adding a range\<close>

text \<open>The invariant of a table, and what \<^verbatim>\<open>memblock_add_range\<close> makes of it.\<close>

definition table_regions :: "memblock_type \<Rightarrow> memblock_region list" where
  "table_regions t = take (cnt t) (regions t)"

definition table_inv :: "memblock_type \<Rightarrow> bool" where
  "table_inv t \<longleftrightarrow> holds t (table_regions t) \<and> sep (table_regions t) \<and> compact (table_regions t)"

definition covered :: "memblock_type \<Rightarrow> nat set" where
  "covered t = cover (table_regions t)"

lemma holds_table_inv:
  assumes "holds t L" "sep L" "compact L"
  shows "table_inv t" and "covered t = cover L" and "table_regions t = L"
proof -
  show L: "table_regions t = L" using assms(1) by (simp add: holds_def table_regions_def)
  show "table_inv t" "covered t = cover L" using assms by (simp_all add: table_inv_def covered_def L)
qed

text \<open>The end of a range, limited to the last address as \<^verbatim>\<open>cap_size\<close> does.\<close>

lemma unat_UINTPTR_MAX: "unat UINTPTR_MAX = 2 ^ 64 - 1"
  by (simp add: UINTPTR_MAX_def unsigned_minus_1_eq_mask mask_eq_exp_minus_1)

lemma le_UINTPTR_MAX: "a \<le> UINTPTR_MAX"
  by (simp add: UINTPTR_MAX_def)

lemma cap_size_limit:
  "unat (base + cap_size base sz) = min (unat base + unat sz) (2 ^ 64 - 1)" "base \<le> base + cap_size base sz"
proof -
  have m: "unat (UINTPTR_MAX - base) = 2 ^ 64 - 1 - unat base"
    by (simp add: unat_sub_le unat_UINTPTR_MAX UINTPTR_MAX_def [symmetric] le_UINTPTR_MAX)
  have "unat (cap_size base sz) = min (unat sz) (2 ^ 64 - 1 - unat base)"
    by (auto simp: cap_size_def m word_less_nat_alt)
  moreover from this have "unat base + unat (cap_size base sz) < 2 ^ 64" using u64_bound [of base] by auto
  ultimately show e: "unat (base + cap_size base sz) = min (unat base + unat sz) (2 ^ 64 - 1)"
    using u64_bound [of base] by (auto simp: unat_add_nowrap min_def)
  show "base \<le> base + cap_size base sz"
    unfolding word_le_nat_alt e using u64_bound [of base] by simp
qed

definition range_limit :: "u64 \<Rightarrow> u64 \<Rightarrow> nat" where
  "range_limit base sz = min (unat base + unat sz) (2 ^ 64 - 1)"

text \<open>The number of table slots the range needs beyond those in use.\<close>

definition slots_needed :: "memblock_type \<Rightarrow> u64 \<Rightarrow> u64 \<Rightarrow> nat" where
  "slots_needed t base sz =
     length (fill base (base + cap_size base sz) (table_regions t)) - length (table_regions t)"

lemma fill_not_shorter [simp]: "Suc (length (fill b e L)) \<noteq> length L"
  using length_fill [of L b e] by simp

lemma fill_nothing: "length (fill b e L) = length L \<Longrightarrow> fill b e L = L"
  by (induction b e L rule: fill.induct) (auto simp: Let_def split: if_splits)

lemma successively_last_drop: "successively P (drop (length L - Suc 0) L)"
  by (cases L rule: rev_cases) simp_all

lemma add_range_holds:
  assumes inv: "table_inv t" and ne: "cnt t \<noteq> 0" "sz \<noteq> 0" and room: "cnt t + slots_needed t base sz \<le> 16"
  shows "\<exists>t'. memblock_add_range t base sz = Some (t', 0) \<and> table_inv t' \<and>
           covered t' = covered t \<union> {unat base..<range_limit base sz}"
proof -
  define L where "L = table_regions t"
  define e where "e = base + cap_size base sz"
  have L: "holds t L" "sep L" "compact L" using inv by (simp_all add: table_inv_def L_def)
  have ap: "successively apart L" using compact_apart [OF L(2)] L(3) by simp
  have be: "base \<le> e" "unat e = range_limit base sz" using cap_size_limit by (simp_all add: e_def range_limit_def)
  have n: "slots_needed t base sz = length (fill base e L) - length L" by (simp add: slots_needed_def L_def e_def)
  have len: "length (fill base e L) \<le> 16" using room n holdsD(1) [OF L(1)] length_fill [of L base e] by simp
  note F = fill_sep [OF L(2) be(1)] fill_cover [OF L(2) be(1)]
  note c = add_pass_count [OF L(1,2), of e base 0 0]
  show ?thesis
  proof (cases "length (fill base e L) = length L")
    case True
    then have "covered t = covered t \<union> {unat base..<range_limit base sz}"
      using F(2) fill_nothing [OF True] be(2) by (simp add: covered_def L_def)
    moreover have "memblock_add_range t base sz = Some (t, 0)"
      using c True ne by (simp add: memblock_add_range_def Let_def flip: e_def)
    ultimately show ?thesis using inv by auto
  next
    case False
    then have add: "length (fill base e L) - length L \<noteq> 0" using length_fill [of L base e] by simp
    obtain t1 s n where p: "add_range_pass True e t base 0 0 = Some (t1, length (fill base e L) - length L, s, n)"
      "holds t1 (fill base e L)" "successively apart (take s (fill base e L))" "successively apart (drop n (fill base e L))"
      using add_pass_fill [OF L(1,2) len ap] by blast
    define i where "i = (if s \<noteq> 0 then s - 1 else 0)"
    define k where "k = (if n > usub (cnt t1) 1 then usub (cnt t1) 1 else n)"
    have cn: "cnt t1 = length (fill base e L)" "0 < length (fill base e L)" using holdsD(1) [OF p(2)] add by auto
    then have k: "k < length (fill base e L)" by (auto simp: k_def usub_def Suc_le_eq not_less intro: le_less_trans)
    have k': "successively apart (drop k (fill base e L))"
      using p(4) cn by (auto simp: k_def usub_def intro: successively_last_drop)
    have i: "successively apart (take (Suc i) (fill base e L))"
      using p(3) by (cases "fill base e L"; cases s) (auto simp: i_def)
    from merge_loop_holds [OF p(2) F(1) k i k'] obtain t' L' where
      m: "memblock_merge_regions t1 s n = Some t'" "holds t' L'" "sep L'" "compact L'" "cover L' = cover (fill base e L)"
      by (auto simp: memblock_merge_regions_def i_def k_def)
    have "memblock_add_range t base sz = Some (t', 0)"
      using c p(1) m(1) add ne room n by (simp add: memblock_add_range_def INIT_MEMBLOCK_REGIONS_def Let_def flip: e_def)
    then show ?thesis using holds_table_inv [OF m(2-4)] m(5) F(2) be(2) by (simp add: covered_def L_def)
  qed
qed

lemma add_range_full:
  assumes inv: "table_inv t" and ne: "cnt t \<noteq> 0" "sz \<noteq> 0" and full: "16 < cnt t + slots_needed t base sz"
  shows "memblock_add_range t base sz = Some (t, - 1)"
proof -
  have L: "holds t (table_regions t)" "sep (table_regions t)" using inv by (simp_all add: table_inv_def)
  have "slots_needed t base sz \<noteq> 0" using full holdsD(1,2) [OF L(1)] by auto
  with add_pass_count [OF L, of "base + cap_size base sz" base 0 0] ne full show ?thesis
    by (simp add: memblock_add_range_def INIT_MEMBLOCK_REGIONS_def Let_def slots_needed_def)
qed

text \<open>An empty table takes the range as it is, without the limit of \<^verbatim>\<open>cap_size\<close>.\<close>

lemma add_range_empty:
  assumes inv: "table_inv t" and e: "cnt t = 0" "sz \<noteq> 0" and lim: "unat base + unat sz < 2 ^ 64"
  shows "\<exists>t'. memblock_add_range t base sz = Some (t', 0) \<and> table_inv t' \<and>
           covered t' = {unat base..<range_limit base sz}"
proof -
  let ?r = "\<lparr>rg_base = base, rg_size = sz\<rparr>"
  have L: "length (regions t) = 16" using inv by (simp add: table_inv_def holds_def INIT_MEMBLOCK_REGIONS_def)
  let ?t = "t\<lparr>regions := (regions t)[0 := ?r], total_size := sz, cnt := 1\<rparr>"
  have "take (Suc 0) ((regions t)[0 := ?r]) = [?r]" using L by (cases "regions t") auto
  then have h: "holds ?t [?r]" using L by (simp add: holds_def INIT_MEMBLOCK_REGIONS_def)
  have g: "good ?r" using e lim by (simp add: good_def rbase_def rend_def unat_gt_0)
  have "compact [?r]" by (simp add: compact_def addrs_def)
  moreover have "addrs ?r = {unat base..<range_limit base sz}" using lim by (simp add: addrs_def rbase_def rend_def range_limit_def)
  moreover have "memblock_add_range t base sz = Some (?t, 0)"
    using L e by (simp add: memblock_add_range_def set_region_def)
  ultimately show ?thesis using holds_table_inv [OF h] g by simp
qed

section \<open>Isolating and removing a range\<close>

text \<open>
  While the range \<open>[b, e)\<close> is being isolated, the regions before the current index are those below
  the range followed by those inside it, and the two results delimit the latter.
\<close>

definition isolated :: "nat \<Rightarrow> nat \<Rightarrow> nat \<Rightarrow> nat \<Rightarrow> memblock_region list \<Rightarrow> memblock_region list \<Rightarrow> bool" where
  "isolated b e s n P Q \<longleftrightarrow> (\<forall>r\<in>set P. rend r \<le> b) \<and> (\<forall>r\<in>set Q. b \<le> rbase r \<and> rend r \<le> e) \<and>
     (Q = [] \<longrightarrow> s = 0 \<and> n = 0) \<and> (Q \<noteq> [] \<longrightarrow> s = length P \<and> n = length (P @ Q))"

lemma isolated_below: "isolated b e s n P [] \<Longrightarrow> rend r \<le> b \<Longrightarrow> isolated b e s n (P @ [r]) []"
  by (simp add: isolated_def)

lemma isolated_inside:
  "isolated b e s n P Q \<Longrightarrow> b \<le> rbase r \<Longrightarrow> rend r \<le> e \<Longrightarrow>
     isolated b e (if n = 0 then length (P @ Q) else s) (Suc (length (P @ Q))) P (Q @ [r])"
  by (cases Q) (auto simp: isolated_def)

text \<open>Cutting a region in two at an address inside it.\<close>

lemma cut_region:
  fixes r :: memblock_region and x :: u64
  assumes "good r" and "rbase r < unat x" "unat x < rend r"
  defines "lo \<equiv> \<lparr>rg_base = rg_base r, rg_size = x - rg_base r\<rparr>"
    and "hi \<equiv> \<lparr>rg_base = x, rg_size = rg_size r - (x - rg_base r)\<rparr>"
  shows "rbase lo = rbase r" "rend lo = unat x" "rbase hi = unat x" "rend hi = rend r" "good lo" "good hi"
    "addrs r = addrs lo \<union> addrs hi" "rg_size lo + rg_size hi = rg_size r"
proof -
  have le: "rg_base r \<le> x" using assms(2) by (simp add: rbase_def word_le_nat_alt)
  have d: "unat (x - rg_base r) = unat x - rbase r" using unat_sub_le [OF le] by (simp add: rbase_def)
  have sz: "x - rg_base r \<le> rg_size r" using assms(3) by (simp add: word_le_nat_alt d rend_def rbase_def)
  show b: "rbase lo = rbase r" "rbase hi = unat x" by (simp_all add: lo_def hi_def rbase_def)
  show e: "rend lo = unat x" "rend hi = rend r"
    using assms(2,3) unat_sub_le [OF sz] by (simp_all add: lo_def hi_def rend_def rbase_def d)
  show "good lo" "good hi" using assms(1-3) b e by (simp_all add: good_def)
  show "addrs r = addrs lo \<union> addrs hi" using assms(2,3) b e by (auto simp: addrs_def)
  show "rg_size lo + rg_size hi = rg_size r" by (simp add: lo_def hi_def)
qed

lemma cut_sep:
  fixes r :: memblock_region and x :: u64
  assumes s: "sep (D @ r # R)" and x: "rbase r < unat x" "unat x < rend r"
  defines "lo \<equiv> \<lparr>rg_base = rg_base r, rg_size = x - rg_base r\<rparr>"
    and "hi \<equiv> \<lparr>rg_base = x, rg_size = rg_size r - (x - rg_base r)\<rparr>"
  shows "sep (D @ lo # hi # R)" and "cover (D @ lo # hi # R) = cover (D @ r # R)"
    and "rend ` set (D @ lo # hi # R) \<subseteq> rend ` set (D @ r # R) \<union> {unat x}"
proof -
  have g: "good r" using s by simp
  note c = cut_region [OF g x, folded lo_def hi_def]
  have "unat x \<le> rbase y" if "y \<in> set R" for y using s x that by fastforce
  moreover have "rend y \<le> unat x" if "y \<in> set D" for y using s x that by fastforce
  ultimately show "sep (D @ lo # hi # R)" using s c x by auto
  show "cover (D @ lo # hi # R) = cover (D @ r # R)" using c(7) by auto
  show "rend ` set (D @ lo # hi # R) \<subseteq> rend ` set (D @ r # R) \<union> {unat x}" using c(2,4) by auto
qed

lemma holds_cut:
  fixes t :: memblock_type and r :: memblock_region and x :: u64
  assumes h: "holds t (D @ r # R)" and room: "length D + length R + 2 \<le> 16" and i: "i = length D"
  defines "lo \<equiv> \<lparr>rg_base = rg_base r, rg_size = x - rg_base r\<rparr>"
    and "hi \<equiv> \<lparr>rg_base = x, rg_size = rg_size r - (x - rg_base r)\<rparr>"
  obtains t1 t2 where "set_region t i hi = Some t1"
    "memblock_insert_region (t1\<lparr>total_size := total_size t1 - (x - rg_base r)\<rparr>) i (rg_base r) (x - rg_base r) = Some t2"
    "holds t2 (D @ lo # hi # R)"
proof -
  obtain t1 where t1: "set_region t i hi = Some t1" "total_size t1 = total_size t"
      and h1: "holds (t1\<lparr>total_size := total_size t1 + (rg_size hi - rg_size r)\<rparr>) (D @ hi # R)"
    using holds_set [OF h i, of hi] by metis
  have "rg_size hi - rg_size r = - (x - rg_base r)" by (simp add: hi_def)
  with h1 have h1: "holds (t1\<lparr>total_size := total_size t1 - (x - rg_base r)\<rparr>) (D @ hi # R)"
    by (simp only: add_uminus_conv_diff)
  obtain t2 where "memblock_insert_region (t1\<lparr>total_size := total_size t1 - (x - rg_base r)\<rparr>) i (rg_base r) (x - rg_base r) = Some t2"
    "holds t2 (D @ lo # hi # R)" unfolding lo_def by (rule holds_insert [OF h1 _ i]) (use room in simp)
  with t1(1) show thesis by (rule that)
qed

text \<open>The cuts still to come: at most one at each end of the range.\<close>

definition cuts :: "nat \<Rightarrow> memblock_region list \<Rightarrow> nat" where
  "cuts x R = (if \<exists>r\<in>set R. rbase r < x \<and> x < rend r then 1 else 0)"

lemma cuts_simps:
  "x \<le> rbase r \<or> rend r \<le> x \<Longrightarrow> cuts x (r # R) = cuts x R"
  "rbase r < x \<Longrightarrow> x < rend r \<Longrightarrow> cuts x (r # R) = 1"
  "(\<And>y. y \<in> set R \<Longrightarrow> x \<le> rbase y) \<Longrightarrow> cuts x R = 0"
  by (fastforce simp: cuts_def)+

definition iso_result where
  "iso_result b e L res \<longleftrightarrow> (\<exists>t' s' n' P' Q' R'. res = Some (t', s', n') \<and> holds t' (P' @ Q' @ R') \<and>
     sep (P' @ Q' @ R') \<and> isolated b e s' n' P' Q' \<and> (\<forall>r\<in>set R'. e \<le> rbase r) \<and>
     cover (P' @ Q' @ R') = cover L \<and> rend ` set (P' @ Q' @ R') \<subseteq> rend ` set L \<union> {b, e})"

lemma iso_resultI:
  "\<lbrakk>res = Some (t', s', n'); holds t' (P' @ Q' @ R'); sep (P' @ Q' @ R'); isolated b e s' n' P' Q';
    \<And>r. r \<in> set R' \<Longrightarrow> e \<le> rbase r; cover (P' @ Q' @ R') = cover L;
    rend ` set (P' @ Q' @ R') \<subseteq> rend ` set L \<union> {b, e}\<rbrakk> \<Longrightarrow> iso_result b e L res"
  unfolding iso_result_def by blast

lemma subset_Un_trans: "A \<subseteq> B \<union> C \<Longrightarrow> B \<subseteq> D \<union> C \<Longrightarrow> A \<subseteq> D \<union> C"
  by blast

lemma iso_result_mono:
  "iso_result b e L res \<Longrightarrow> cover L = cover L' \<Longrightarrow> rend ` set L \<subseteq> rend ` set L' \<union> {b, e} \<Longrightarrow> iso_result b e L' res"
  unfolding iso_result_def by (elim exE conjE) (intro exI conjI, assumption+, simp, erule (1) subset_Un_trans)

text \<open>One pass of the loop over the region at its position.\<close>

lemma isolate_no_inside:
  assumes "sep (P @ Q @ r # R)" "isolated b e s n P Q" "rbase r < b \<or> rend r \<le> b"
  shows "Q = []"
proof (rule ccontr)
  assume "Q \<noteq> []"
  then obtain q where q: "q \<in> set Q" by (cases Q) auto
  with assms(1,2) have "b \<le> rbase q" "good q" "rend q \<le> rbase r" "good r" by (auto simp: isolated_def intro: sep_good)
  with assms(3) goodD(1) [of q] goodD(1) [of r] show False by auto
qed

lemma isolate_cut_low:
  assumes h: "holds t (P @ r # R)" and g: "good r" and low: "rbase r < unat b" "unat b < rend r" "b < e" and room: "length P + length R + 2 \<le> 16"
  shows "\<exists>t'. isolate_loop b e t (length P) s n = isolate_loop b e t' (Suc (length P)) s n \<and>
    holds t' (P @ \<lparr>rg_base = rg_base r, rg_size = b - rg_base r\<rparr> # \<lparr>rg_base = b, rg_size = rg_size r - (b - rg_base r)\<rparr> # R)"
proof -
  have get: "get_region t (length P) = Some r" "length P < cnt t"
    using holds_get [OF h, of "length P"] holdsD(1) [OF h] by simp_all
  obtain t1 t2 where t: "set_region t (length P) \<lparr>rg_base = b, rg_size = rg_size r - (b - rg_base r)\<rparr> = Some t1"
      "memblock_insert_region (t1\<lparr>total_size := total_size t1 - (b - rg_base r)\<rparr>) (length P) (rg_base r) (b - rg_base r) = Some t2"
      "holds t2 (P @ \<lparr>rg_base = rg_base r, rg_size = b - rg_base r\<rparr> # \<lparr>rg_base = b, rg_size = rg_size r - (b - rg_base r)\<rparr> # R)"
    by (rule holds_cut [OF h room refl])
  have "unat b < unat e" using low(3) by (simp add: word_less_nat_alt)
  then have "isolate_loop b e t (length P) s n = isolate_loop b e t2 (Suc (length P)) s n"
    using low(1,2) t(1,2) get g by (simp add: isolate_loop.simps [of b e t "length P" s n] region_word_iffs Let_def)
  then show ?thesis using t(3) by blast
qed

lemma isolate_cut_high:
  assumes h: "holds t (P @ r # R)" and g: "good r" and high: "unat b \<le> rbase r" "rbase r < unat e" "unat e < rend r" "b < e"
    and room: "length P + length R + 2 \<le> 16"
  shows "\<exists>t'. isolate_loop b e t (length P) s n = isolate_loop b e t' (length P) s n \<and>
    holds t' (P @ \<lparr>rg_base = rg_base r, rg_size = e - rg_base r\<rparr> # \<lparr>rg_base = e, rg_size = rg_size r - (e - rg_base r)\<rparr> # R)"
proof -
  have get: "get_region t (length P) = Some r" "length P < cnt t"
    using holds_get [OF h, of "length P"] holdsD(1) [OF h] by simp_all
  obtain t1 t2 where t: "set_region t (length P) \<lparr>rg_base = e, rg_size = rg_size r - (e - rg_base r)\<rparr> = Some t1"
      "memblock_insert_region (t1\<lparr>total_size := total_size t1 - (e - rg_base r)\<rparr>) (length P) (rg_base r) (e - rg_base r) = Some t2"
      "holds t2 (P @ \<lparr>rg_base = rg_base r, rg_size = e - rg_base r\<rparr> # \<lparr>rg_base = e, rg_size = rg_size r - (e - rg_base r)\<rparr> # R)"
    by (rule holds_cut [OF h room refl])
  have "unat b < unat e" using high(4) by (simp add: word_less_nat_alt)
  then have "isolate_loop b e t (length P) s n = isolate_loop b e t2 (length P) s n"
    using high(1-3) t(1,2) get g by (simp add: isolate_loop.simps [of b e t "length P" s n] region_word_iffs Let_def)
  then show ?thesis using t(3) by blast
qed

lemma isolate_loop_holds:
  assumes "holds t (P @ Q @ R)" "sep (P @ Q @ R)" "isolated (unat b) (unat e) s n P Q" "b < e"
    "length (P @ Q @ R) + cuts (unat b) R + cuts (unat e) R \<le> 16"
  shows "iso_result (unat b) (unat e) (P @ Q @ R) (isolate_loop b e t (length (P @ Q)) s n)"
  using assms
proof (induction "2 * (16 - length (P @ Q @ R)) + length R" arbitrary: t P Q R s n rule: less_induct)
  case less
  have be: "unat b < unat e" using less(5) by (simp add: word_less_nat_alt)
  note step = isolate_loop.simps [of b e t "length P + length Q" s n] isolate_loop.simps [of b e t "length P" s n]
  show ?case
  proof (cases R)
    case Nil
    have "isolate_loop b e t (length (P @ Q)) s n = Some (t, s, n)" using holdsD(1) [OF less(2)] Nil by (simp add: step)
    then show ?thesis by (rule iso_resultI [where R' = R]) (use less Nil in auto)
  next
    case (Cons r R')
    have get: "get_region t (length (P @ Q)) = Some r" "length (P @ Q) < cnt t"
      using holds_get [OF less(2), of "length (P @ Q)"] holdsD(1) [OF less(2)] Cons by (simp_all add: nth_append)
    have g: "good r" "rbase r < rend r" using less(3) Cons goodD(1) by auto
    note w = region_word_iffs
    have above: "rend r \<le> rbase y" if "y \<in> set R'" for y using less(3) Cons that by auto
    note noQ = isolate_no_inside [OF less(3) [unfolded Cons] less(4)]
    consider (break) "unat e \<le> rbase r" | (below) "rbase r < unat e" "rend r \<le> unat b"
      | (low) "rbase r < unat b" "unat b < rend r" | (high) "unat b \<le> rbase r" "rbase r < unat e" "unat e < rend r"
      | (inside) "unat b \<le> rbase r" "rbase r < unat e" "rend r \<le> unat e" "unat b < rend r"
      using g be by linarith
    then show ?thesis
    proof cases
      case break
      have "isolate_loop b e t (length (P @ Q)) s n = Some (t, s, n)" using break get by (simp add: step w)
      then show ?thesis
        by (rule iso_resultI [where R' = R]) (use less above break g Cons in \<open>fastforce+\<close>)
    next
      case below
      have Q: "Q = []" using noQ below by simp
      have "iso_result (unat b) (unat e) ((P @ [r]) @ [] @ R') (isolate_loop b e t (length ((P @ [r]) @ [])) s n)"
        by (rule less(1)) (use less(2-6) be Cons Q below isolated_below in \<open>auto simp: cuts_simps(1)\<close>)
      then show ?thesis using below get g Q Cons by (simp add: step w)
    next
      case inside
      let ?s = "if n = 0 then length (P @ Q) else s"
      have "iso_result (unat b) (unat e) (P @ (Q @ [r]) @ R')
          (isolate_loop b e t (length (P @ Q @ [r])) ?s (Suc (length (P @ Q))))"
        by (rule less(1)) (use less(2-6) Cons inside isolated_inside [OF less(4)] in \<open>auto simp: cuts_simps(1)\<close>)
      then show ?thesis using inside get g Cons by (simp add: step w split: if_splits)
    next
      case low
      let ?lo = "\<lparr>rg_base = rg_base r, rg_size = b - rg_base r\<rparr>"
      let ?hi = "\<lparr>rg_base = b, rg_size = rg_size r - (b - rg_base r)\<rparr>"
      have Q: "Q = []" using noQ low by simp
      note c = cut_region [OF g(1) low]
      have "unat b \<le> rbase y" if "y \<in> set R'" for y using above [OF that] low by simp
      then have cu: "cuts (unat b) R = 1" "cuts (unat b) (?hi # R') = 0" "cuts (unat e) (?hi # R') \<le> cuts (unat e) R"
        using Cons low c(4) by (auto simp: cuts_simps(2) cuts_def [of "unat e"] intro!: cuts_simps(3))
      have h: "holds t (P @ r # R')" and room: "length P + length R' + 2 \<le> 16" using less(2,6) cu Cons Q by simp_all
      from isolate_cut_low [OF h g(1) low less(5) room] obtain t2
        where t: "isolate_loop b e t (length P) s n = isolate_loop b e t2 (Suc (length P)) s n" "holds t2 (P @ ?lo # ?hi # R')" by blast
      note s2 = cut_sep [OF less(3) [unfolded Cons Q append_Nil] low]
      have "iso_result (unat b) (unat e) ((P @ [?lo]) @ [] @ (?hi # R')) (isolate_loop b e t2 (length ((P @ [?lo]) @ [])) s n)"
        by (rule less(1)) (use less(4-6) t s2(1) Cons Q isolated_below c(2) cu in auto)
      then have "iso_result (unat b) (unat e) (P @ Q @ R) (isolate_loop b e t2 (length ((P @ [?lo]) @ [])) s n)"
        by (rule iso_result_mono) (use Q Cons s2(2,3) in auto)
      then show ?thesis using t(1) Q by simp
    next
      case high
      let ?lo = "\<lparr>rg_base = rg_base r, rg_size = e - rg_base r\<rparr>"
      let ?hi = "\<lparr>rg_base = e, rg_size = rg_size r - (e - rg_base r)\<rparr>"
      note c = cut_region [OF g(1) high(2,3)]
      have cu: "cuts (unat e) R = 1" "cuts (unat e) (?lo # ?hi # R') = 0" "cuts (unat b) (?lo # ?hi # R') = 0"
        using Cons high c above be by (force simp: cuts_simps(2) cuts_def)+
      have h: "holds t ((P @ Q) @ r # R')" "sep ((P @ Q) @ r # R')" and room: "length (P @ Q) + length R' + 2 \<le> 16"
        using less(2,3,6) cu Cons by simp_all
      from isolate_cut_high [OF h(1) g(1) high less(5) room] obtain t2
        where t: "isolate_loop b e t (length (P @ Q)) s n = isolate_loop b e t2 (length (P @ Q)) s n" "holds t2 ((P @ Q) @ ?lo # ?hi # R')" by blast
      note s2 = cut_sep [OF h(2) high(2,3)]
      have "iso_result (unat b) (unat e) (P @ Q @ (?lo # ?hi # R')) (isolate_loop b e t2 (length (P @ Q)) s n)"
        by (rule less(1)) (use less(4-6) t s2(1) Cons cu in auto)
      then have "iso_result (unat b) (unat e) (P @ Q @ R) (isolate_loop b e t2 (length (P @ Q)) s n)"
        by (rule iso_result_mono) (use Cons s2(2,3) in auto)
      then show ?thesis using t(1) by simp
    qed
  qed
qed

lemma remove_loop_holds:
  assumes "holds t (P @ Q @ R)"
  shows "\<exists>t'. remove_loop t (length P) (length (P @ Q)) = Some t' \<and> holds t' (P @ R)"
  using assms
proof (induction Q arbitrary: t R rule: rev_induct)
  case Nil
  then show ?case by (cases "length P") simp_all
next
  case (snoc q Q)
  obtain t1 where t1: "memblock_remove_region t (length (P @ Q)) = Some t1" "holds t1 ((P @ Q) @ R)"
    using holds_remove [of t "P @ Q" q R "length (P @ Q)"] snoc(2) by auto
  with snoc(1) [of t1 R] show ?case by auto
qed

lemma remove_compact:
  assumes L: "compact L" and s: "sep (P @ Q @ R)" and P: "\<forall>r\<in>set P. rend r \<le> b" and R: "\<forall>r\<in>set R. e \<le> rbase r"
    and Q: "\<forall>r\<in>set Q. b \<le> rbase r \<and> rend r \<le> e" and be: "b < e"
    and c: "cover (P @ Q @ R) = cover L" and ends: "rend ` set (P @ Q @ R) \<subseteq> rend ` set L \<union> {b, e}"
  shows "cover (P @ R) = cover L - {b..<e}" and "compact (P @ R)"
proof -
  show cv: "cover (P @ R) = cover L - {b..<e}"
    unfolding c [symmetric] using P Q R be by (fastforce simp: cover_def addrs_def)
  have "rend r \<notin> cover (P @ R)" if r: "r \<in> set (P @ R)" for r
  proof -
    from ends r consider "rend r \<in> rend ` set L" | "rend r = b" | "rend r = e" by auto
    then show ?thesis
    proof cases
      case 1
      with L show ?thesis unfolding cv by (auto simp: compact_def)
    next
      case 2
      with be show ?thesis unfolding cv by simp
    next
      case 3
      have "r \<in> set R" using 3 r P be by auto
      with R s 3 goodD(1) [of r] sep_good [of R r] show ?thesis by auto
    qed
  qed
  then show "compact (P @ R)" by (simp add: compact_def)
qed

lemma remove_range_holds:
  assumes inv: "table_inv t" and room: "cnt t + 2 \<le> 16" and sz: "sz \<noteq> 0" and base: "base \<noteq> UINTPTR_MAX"
  shows "\<exists>t'. memblock_remove_range t base sz = Some (t', 0) \<and> table_inv t' \<and>
           covered t' = covered t - {unat base..<range_limit base sz}"
proof -
  define L where "L = table_regions t"
  define e where "e = base + cap_size base sz"
  have L: "holds t L" "sep L" "compact L" using inv by (simp_all add: table_inv_def L_def)
  have e: "unat e = range_limit base sz" using cap_size_limit by (simp add: e_def range_limit_def)
  have "unat base < 2 ^ 64 - 1"
    using base u64_bound [of base] unat_UINTPTR_MAX by (metis (no_types, lifting) Suc_pred' less_Suc_eq word_unat_eq_iff zero_less_numeral zero_less_power)
  then have be: "unat base < unat e" using sz by (simp add: e range_limit_def unat_gt_0)
  have ib: "isolated (unat base) (unat e) 0 0 [] []" by (simp add: isolated_def)
  have "length L + cuts (unat base) L + cuts (unat e) L \<le> 16" using room holdsD(1) [OF L(1)] by (auto simp: cuts_def)
  then obtain t1 s n P Q R where i: "isolate_loop base e t 0 0 0 = Some (t1, s, n)" "holds t1 (P @ Q @ R)"
      "sep (P @ Q @ R)" "isolated (unat base) (unat e) s n P Q" "\<forall>r\<in>set R. unat e \<le> rbase r"
      "cover (P @ Q @ R) = cover L" "rend ` set (P @ Q @ R) \<subseteq> rend ` set L \<union> {unat base, unat e}"
    using isolate_loop_holds [of t "[]" "[]" L, OF _ _ ib] L be by (auto simp: iso_result_def word_less_nat_alt)
  have PQ: "\<forall>r\<in>set P. rend r \<le> unat base" "\<forall>r\<in>set Q. unat base \<le> rbase r \<and> rend r \<le> unat e"
    using i(4) by (simp_all add: isolated_def)
  have "\<exists>t'. remove_loop t1 s n = Some t' \<and> holds t' (P @ R)"
    using remove_loop_holds [OF i(2)] i(2,4) by (cases Q) (auto simp: isolated_def)
  then obtain t' where t': "remove_loop t1 s n = Some t'" "holds t' (P @ R)" by blast
  note c = remove_compact [OF L(3) i(3) PQ(1) i(5) PQ(2) be i(6,7)]
  have "memblock_remove_range t base sz = Some (t', 0)"
    using i(1) t'(1) room sz by (simp add: memblock_remove_range_def memblock_isolate_range_def INIT_MEMBLOCK_REGIONS_def
        Let_def flip: e_def)
  then show ?thesis using holds_table_inv [OF t'(2) _ c(2)] c(1) i(3) e by (auto simp: covered_def L_def)
qed

lemma remove_range_full:
  "cnt t + 2 > 16 \<Longrightarrow> sz \<noteq> 0 \<Longrightarrow> memblock_remove_range t base sz = Some (t, - 1)"
  by (simp add: memblock_remove_range_def memblock_isolate_range_def INIT_MEMBLOCK_REGIONS_def)

end
