(* ===== verification/Memblock_Free.thy ===== *)
theory Memblock_Free
  imports Memblock_Range
begin

text \<open>
  The walk over the free ranges: \<^verbatim>\<open>memblock_next_free\<close> steps through the intersection of the memory
  regions with the gaps between the reserved ones, and \<^verbatim>\<open>memblock_phys_alloc\<close> takes the first of
  these ranges that is large enough.
\<close>

section \<open>Ranges and gaps\<close>

type_synonym range = "u64 \<times> u64"

definition rng :: "range \<Rightarrow> nat set" where
  "rng x = {unat (fst x)..<unat (snd x)}"

definition rng_union :: "range list \<Rightarrow> nat set" where
  "rng_union X = (\<Union>x\<in>set X. rng x)"

text \<open>Increasing ranges with an address between any two of them.\<close>

definition ordered :: "range list \<Rightarrow> bool" where
  "ordered X \<longleftrightarrow> (\<forall>x\<in>set X. fst x \<le> snd x) \<and> sorted_wrt (\<lambda>x y. snd x < fst y) X"

definition areas :: "memblock_region list \<Rightarrow> range list" where
  "areas L = map (\<lambda>r. (rg_base r, rg_base r + rg_size r)) L"

definition gaps :: "memblock_region list \<Rightarrow> range list" where
  "gaps L = zip (0 # map (\<lambda>r. rg_base r + rg_size r) L) (map rg_base L @ [UINTPTR_MAX])"

text \<open>What the walk reports: the non-empty intersections, in order.\<close>

function meet_ranges :: "range list \<Rightarrow> range list \<Rightarrow> range list" where
  "meet_ranges [] G = []"
| "meet_ranges A [] = []"
| "meet_ranges ((a, b) # A) ((g, h) # G) =
     (if g \<ge> b then meet_ranges A ((g, h) # G)
      else if a < h then
        (if a > g then a else g, if b < h then b else h) #
          (if b \<le> h then meet_ranges A ((g, h) # G) else meet_ranges ((a, b) # A) G)
      else meet_ranges ((a, b) # A) G)"
  by pat_completeness auto
termination
  by (relation "measure (\<lambda>(A, G). length A + length G)") auto

lemma rng_union_simps [simp]:
  "rng_union [] = {}" "rng_union (x # X) = rng x \<union> rng_union X"
  by (auto simp: rng_union_def)

lemma ordered_simps [simp]:
  "ordered []" "ordered (x # X) \<longleftrightarrow> fst x \<le> snd x \<and> (\<forall>y\<in>set X. snd x < fst y) \<and> ordered X"
  by (auto simp: ordered_def)

lemma meet_Nil2 [simp]: "meet_ranges A [] = []"
  by (cases A) auto

lemma rng_apart: "(\<And>y. y \<in> set Y \<Longrightarrow> unat (snd x) \<le> unat (fst y)) \<Longrightarrow> rng x \<inter> rng_union Y = {}"
  by (fastforce simp: rng_def rng_union_def)

lemma rng_apart_tail: "ordered (x # X) \<Longrightarrow> unat (snd y) \<le> unat (fst x) \<Longrightarrow> rng y \<inter> rng_union (x # X) = {}"
  by (rule rng_apart) (force simp: word_less_nat_alt word_le_nat_alt)

lemma meet_union:
  "ordered A \<Longrightarrow> ordered G \<Longrightarrow> rng_union (meet_ranges A G) = rng_union A \<inter> rng_union G"
proof (induction A G rule: meet_ranges.induct)
  case (3 a b A g h G)
  let ?x = "(a, b)" and ?y = "(g, h)"
  have A: "ordered A" "ordered (?x # A)" and G: "ordered G" "ordered (?y # G)" using 3 by auto
  consider (skip) "b \<le> g" | (both) "g < b" "a < h" | (later) "g < b" "h \<le> a" by fastforce
  then show ?case
  proof cases
    case skip
    then have "rng ?x \<inter> rng_union (?y # G) = {}" by (intro rng_apart_tail [OF G(2)]) (simp add: word_le_nat_alt)
    with 3(1) [OF skip A(1) G(2)] skip show ?thesis by auto
  next
    case later
    then have "rng ?y \<inter> rng_union (?x # A) = {}" by (intro rng_apart_tail [OF A(2)]) (simp add: word_le_nat_alt)
    with 3(4) [OF _ _ A(2) G(1)] later show ?thesis by auto
  next
    case both
    let ?z = "(if a > g then a else g, if b < h then b else h)"
    have z: "rng ?z = rng ?x \<inter> rng ?y" by (auto simp: rng_def word_less_nat_alt)
    show ?thesis
    proof (cases "b \<le> h")
      case True
      then have "rng ?x \<inter> rng_union G = {}"
        using G(2) by (intro rng_apart) (auto simp: word_le_nat_alt word_less_nat_alt)
      with 3(2) [OF _ both(2) True A(1) G(2)] both True z show ?thesis by auto
    next
      case False
      then have "rng ?y \<inter> rng_union A = {}"
        using A(2) by (intro rng_apart) (auto simp: word_le_nat_alt word_less_nat_alt)
      with 3(3) [OF _ both(2) False A(2) G(1)] both False z show ?thesis by auto
    qed
  qed
qed auto

lemma meet_above:
  "x \<in> set (meet_ranges A G) \<Longrightarrow> (\<forall>a\<in>set A. l < fst a) \<or> (\<forall>g\<in>set G. l < fst g) \<Longrightarrow> l < fst x"
  by (induction A G rule: meet_ranges.induct) (auto split: if_splits)

text \<open>The ranges reported are themselves ordered, and not empty unless a gap in between is.\<close>

lemma meet_ordered:
  assumes "ordered A" "ordered G" and "\<forall>x\<in>set A. fst x < snd x" "\<forall>x\<in>set A. snd x \<le> m"
    and "\<forall>x\<in>set G. fst x < snd x \<or> snd x = 0 \<or> m \<le> fst x"
  shows "ordered (meet_ranges A G) \<and> (\<forall>x\<in>set (meet_ranges A G). fst x < snd x)"
  using assms
proof (induction A G rule: meet_ranges.induct)
  case (3 a b A g h G)
  have A: "ordered A" "ordered ((a, b) # A)" "\<And>y. y \<in> set A \<Longrightarrow> b < fst y" "a < b" "b \<le> m"
    using 3(5,7,8) by auto
  have G: "ordered G" "ordered ((g, h) # G)" "\<And>y. y \<in> set G \<Longrightarrow> h < fst y" using 3(6) by auto
  consider (skip) "b \<le> g" | (both) "g < b" "a < h" | (later) "g < b" "h \<le> a" by fastforce
  then show ?case
  proof cases
    case skip
    with 3(1) [OF _ A(1) G(2)] 3(7-9) show ?thesis by auto
  next
    case later
    with 3(4) [OF _ _ A(2) G(1)] 3(7-9) show ?thesis by auto
  next
    case both
    have gh: "g < h" using 3(9) both A(5) by auto
    show ?thesis
    proof (cases "b \<le> h")
      case True
      have "b < fst x" if "x \<in> set (meet_ranges A ((g, h) # G))" for x using meet_above [OF that, of b] A(3) by auto
      with 3(2) [OF _ both(2) True A(1) G(2)] 3(7-9) both True gh A(4) show ?thesis by (auto intro: less_imp_le)
    next
      case False
      have "h < fst x" if "x \<in> set (meet_ranges ((a, b) # A) G)" for x using meet_above [OF that, of h] G(3) by auto
      with 3(3) [OF _ both(2) False A(2) G(1)] 3(7-9) both False gh A(4) show ?thesis by (auto intro: less_imp_le)
    qed
  qed
qed auto

section \<open>The regions of a table as ranges\<close>

lemma compact_strict:
  assumes "sep L" "compact L"
  shows "sorted_wrt (\<lambda>a b. rend a < rbase b) L"
proof (rule sorted_wrt_mono_rel [of L "\<lambda>a b. rend a \<le> rbase b"])
  show "sorted_wrt (\<lambda>a b. rend a \<le> rbase b) L" using assms(1) by (simp add: sep_def)
  fix a b assume ab: "a \<in> set L" "b \<in> set L" "rend a \<le> rbase b"
  have "rbase b \<in> cover L" using ab(2) goodD(1) [OF sep_good [OF assms(1) ab(2)]] by (auto simp: cover_def addrs_def)
  with assms(2) ab show "rend a < rbase b" by (auto simp: compact_def le_less)
qed

lemma areas_ordered:
  assumes "sep L" "compact L"
  shows "ordered (areas L)" "\<And>x. x \<in> set (areas L) \<Longrightarrow> fst x < snd x" "rng_union (areas L) = cover L"
proof -
  have g: "fst x < snd x" if "x \<in> set (areas L)" for x
    using that sep_good [OF assms(1)]
    by (auto simp: areas_def word_less_nat_alt unat_region_end good_def rbase_def)
  show "\<And>x. x \<in> set (areas L) \<Longrightarrow> fst x < snd x" by (rule g)
  have "sorted_wrt (\<lambda>x y. snd x < fst y) (areas L)"
    unfolding areas_def sorted_wrt_map
    by (rule sorted_wrt_mono_rel [OF _ compact_strict [OF assms]])
      (use sep_good [OF assms(1)] in \<open>auto simp: word_less_nat_alt unat_region_end rbase_def\<close>)
  with g show "ordered (areas L)" by (simp add: ordered_def less_imp_le)
  show "rng_union (areas L) = cover L"
    using sep_good [OF assms(1)] by (auto simp: areas_def rng_union_def rng_def cover_def addrs_def unat_region_end rbase_def)
qed

text \<open>The gaps from an address \<open>e\<close> on, where the last region ended.\<close>

fun gaps_from :: "u64 \<Rightarrow> memblock_region list \<Rightarrow> range list" where
  "gaps_from e [] = [(e, UINTPTR_MAX)]"
| "gaps_from e (r # L) = (e, rg_base r) # gaps_from (rg_base r + rg_size r) L"

lemma gaps_from: "gaps L = gaps_from 0 L"
proof -
  have "zip (e # map (\<lambda>r. rg_base r + rg_size r) L) (map rg_base L @ [UINTPTR_MAX]) = gaps_from e L" for e
    by (induction L arbitrary: e) auto
  then show ?thesis by (simp add: gaps_def)
qed

lemma gaps_from_above: "sep L \<Longrightarrow> \<forall>x\<in>set L. unat e \<le> rbase x \<Longrightarrow> g \<in> set (gaps_from e L) \<Longrightarrow> e \<le> fst g"
proof (induction L arbitrary: e)
  case (Cons r L)
  have "unat e \<le> rend r" using Cons(3) goodD(1) [of r] Cons(2) by auto
  then have "e \<le> rg_base r + rg_size r" using Cons(2) by (simp add: word_le_nat_alt unat_region_end)
  with Cons(1) [of "rg_base r + rg_size r"] Cons(2,4) show ?case by (fastforce simp: unat_region_end)
qed auto

lemma gaps_from_ordered:
  assumes "sep L" "sorted_wrt (\<lambda>a b. rend a < rbase b) L" "\<forall>x\<in>set L. unat e \<le> rbase x"
  shows "ordered (gaps_from e L)" and "rng_union (gaps_from e L) = {unat e..<2 ^ 64 - 1} - cover L"
proof -
  have "ordered (gaps_from e L) \<and> rng_union (gaps_from e L) = {unat e..<2 ^ 64 - 1} - cover L" using assms
  proof (induction L arbitrary: e)
    case Nil
    show ?case by (simp add: le_UINTPTR_MAX rng_def unat_UINTPTR_MAX)
  next
    case (Cons r L)
    let ?n = "rg_base r + rg_size r"
    have r: "good r" "sep L" "\<forall>x\<in>set L. unat ?n \<le> rbase x" "unat ?n = rend r"
      using Cons(2) by (auto simp: unat_region_end)
    from Cons(1) [OF r(2) _ r(3)] Cons(3) have ih: "ordered (gaps_from ?n L)"
      "rng_union (gaps_from ?n L) = {rend r..<2 ^ 64 - 1} - cover L" by (simp_all add: r(4))
    have le: "e \<le> rg_base r" "rg_base r < ?n" using Cons(4) goodD(1) [OF r(1)]
      by (simp_all add: word_le_nat_alt word_less_nat_alt r(4) rbase_def)
    have above: "rg_base r < fst y" if "y \<in> set (gaps_from ?n L)" for y
      using gaps_from_above [OF r(2,3) that] le(2) by simp
    have "rng (e, rg_base r) = {unat e..<rbase r}" by (simp add: rng_def rbase_def)
    moreover have "cover L \<inter> {..<rend r} = {}" using Cons(2) by (fastforce simp: cover_def addrs_def)
    moreover have "unat e \<le> rbase r" "rbase r < rend r" "rend r \<le> 2 ^ 64 - 1"
      using Cons(4) goodD [OF r(1)] by auto
    ultimately have "rng (e, rg_base r) \<union> ({rend r..<2 ^ 64 - 1} - cover L) = {unat e..<2 ^ 64 - 1} - (addrs r \<union> cover L)"
      by (auto simp: addrs_def)
    with ih le above show ?case by auto
  qed
  then show "ordered (gaps_from e L)" "rng_union (gaps_from e L) = {unat e..<2 ^ 64 - 1} - cover L" by simp_all
qed

lemma gaps_from_nonempty:
  assumes "sorted_wrt (\<lambda>a b. rend a < rbase b) L" "sep L" "L \<noteq> [] \<Longrightarrow> unat e < rbase (hd L) \<or> e = 0"
    and "g \<in> set (gaps_from e L)"
  shows "fst g < snd g \<or> snd g = 0 \<or> fst g = UINTPTR_MAX"
  using assms
proof (induction L arbitrary: e)
  case Nil
  then show ?case using le_UINTPTR_MAX [of e] by (auto simp: le_less)
next
  case (Cons r L)
  show ?case
  proof (cases "g = (e, rg_base r)")
    case True
    with Cons(4) show ?thesis by (auto simp: word_less_nat_alt rbase_def unat_gt_0)
  next
    case False
    have "L \<noteq> [] \<Longrightarrow> unat (rg_base r + rg_size r) < rbase (hd L)" using Cons(2,3) by (auto simp: unat_region_end)
    with Cons False show ?thesis by auto
  qed
qed

section \<open>The free ranges of a state\<close>

definition mem_inv :: "memblock \<Rightarrow> bool" where
  "mem_inv m \<longleftrightarrow> table_inv (memory m) \<and> table_inv (reserved m)"

definition free_addrs :: "memblock \<Rightarrow> nat set" where
  "free_addrs m = covered (memory m) - covered (reserved m)"

definition free_ranges :: "memblock \<Rightarrow> range list" where
  "free_ranges m = meet_ranges (areas (table_regions (memory m))) (gaps (table_regions (reserved m)))"

lemma table_invD:
  assumes "table_inv t"
  shows "holds t (table_regions t)" "sep (table_regions t)" "compact (table_regions t)"
    "sorted_wrt (\<lambda>a b. rend a < rbase b) (table_regions t)" "covered t \<subseteq> {..<2 ^ 64 - 1}"
proof -
  show i: "holds t (table_regions t)" "sep (table_regions t)" "compact (table_regions t)"
    using assms by (simp_all add: table_inv_def)
  then show "sorted_wrt (\<lambda>a b. rend a < rbase b) (table_regions t)" by (intro compact_strict)
  show "covered t \<subseteq> {..<2 ^ 64 - 1}" using goodD(2) [OF sep_good [OF i(2)]] by (fastforce simp: covered_def cover_def addrs_def)
qed

lemma free_ranges_props:
  assumes "mem_inv m"
  shows "ordered (free_ranges m)" "\<forall>x\<in>set (free_ranges m). fst x < snd x" "rng_union (free_ranges m) = free_addrs m"
proof -
  let ?A = "table_regions (memory m)" and ?R = "table_regions (reserved m)"
  note A = table_invD [of "memory m"] and R = table_invD [of "reserved m"]
  have i: "table_inv (memory m)" "table_inv (reserved m)" using assms by (simp_all add: mem_inv_def)
  note a = areas_ordered [OF A(2,3), OF i(1) i(1)]
  note g = gaps_from_ordered [OF R(2,4), OF i(2) i(2), of 0, folded gaps_from]
  have "fst x < snd x \<or> snd x = 0 \<or> UINTPTR_MAX \<le> fst x" if "x \<in> set (gaps ?R)" for x
    using gaps_from_nonempty [OF R(4,2), OF i(2) i(2), of 0 x] that by (auto simp: gaps_from)
  with meet_ordered [OF a(1) g(1), of UINTPTR_MAX] a(2)
  show "ordered (free_ranges m)" "\<forall>x\<in>set (free_ranges m). fst x < snd x"
    by (simp_all add: free_ranges_def le_UINTPTR_MAX)
  show "rng_union (free_ranges m) = free_addrs m"
    unfolding free_ranges_def using meet_union [OF a(1) g(1)] a(3) g(2) A(5) [OF i(1)]
    by (auto simp: free_addrs_def covered_def)
qed

section \<open>The walk\<close>

lemma holds_gap:
  assumes "holds t L" and "r \<le> length L"
  shows "gap_start t r = Some (fst (gaps L ! r))" "gap_end t r = Some (snd (gaps L ! r))"
proof -
  have get: "get_region t i = Some (L ! i)" if "i < length L" for i using holds_get [OF assms(1) that] .
  show "gap_start t r = Some (fst (gaps L ! r))"
    using assms(2) get [of "r - 1"] by (cases r) (auto simp: gap_start_def gaps_def)
  show "gap_end t r = Some (snd (gaps L ! r))"
    using assms(2) get [of r] holdsD(1) [OF assms(1)] by (auto simp: gap_end_def gaps_def nth_append)
qed

lemma length_gaps [simp]: "length (gaps L) = Suc (length L)"
  by (simp add: gaps_def)

lemma next_gap_loop_meet:
  assumes h: "holds t L"
  shows "\<exists>r' found. next_gap_loop t a b r = Some (r', found) \<and>
    (case found of
       None \<Rightarrow> meet_ranges ((a, b) # A) (drop r (gaps L)) = meet_ranges A (drop r' (gaps L))
     | Some (s, e, f) \<Rightarrow> meet_ranges ((a, b) # A) (drop r (gaps L)) =
         (s, e) # meet_ranges (if f then A else (a, b) # A) (drop r' (gaps L)))"
proof (induction r rule: measure_induct_rule [where f = "\<lambda>r. cnt t + 1 - r"])
  case (less r)
  note step = next_gap_loop.simps [of t a b r]
  show ?case
  proof (cases "r < cnt t + 1")
    case False
    then show ?thesis using holdsD(1) [OF h] by (simp add: step)
  next
    case True
    obtain g h' where gh: "gaps L ! r = (g, h')" by (cases "gaps L ! r")
    have r: "r \<le> length L" using True holdsD(1) [OF h] by simp
    have d: "drop r (gaps L) = (g, h') # drop (Suc r) (gaps L)"
      using Cons_nth_drop_Suc [of r "gaps L"] r gh by simp
    note hg = holds_gap [OF h r, unfolded gh fst_conv snd_conv]
    have "cnt t + 1 - Suc r < cnt t + 1 - r" using True by simp
    note ih = less.IH [OF this]
    show ?thesis
    proof (cases "b \<le> g \<or> a < h'")
      case True
      then show ?thesis using hg d \<open>r < cnt t + 1\<close> by (auto simp: step)
    next
      case False
      then have eq: "next_gap_loop t a b r = next_gap_loop t a b (Suc r)"
        "meet_ranges ((a, b) # A) (drop r (gaps L)) = meet_ranges ((a, b) # A) (drop (Suc r) (gaps L))"
        using hg d \<open>r < cnt t + 1\<close> by (simp_all add: step)
      show ?thesis unfolding eq by (rule ih)
    qed
  qed
qed

text \<open>What is left of the walk at a cursor.\<close>

definition walk_rest :: "memblock \<Rightarrow> memblock_cursor \<Rightarrow> range list" where
  "walk_rest m c = meet_ranges (drop (cur_memory c) (areas (table_regions (memory m))))
     (drop (cur_reserved c) (gaps (table_regions (reserved m))))"

lemma next_free_loop_meet:
  assumes h: "holds (memory m) A" "holds (reserved m) R"
  shows "\<exists>i' r' found. next_free_loop m i r = Some (i', r', found) \<and>
    (case found of
       None \<Rightarrow> meet_ranges (drop i (areas A)) (drop r (gaps R)) = []
     | Some x \<Rightarrow> meet_ranges (drop i (areas A)) (drop r (gaps R)) = x # meet_ranges (drop i' (areas A)) (drop r' (gaps R)))"
proof (induction i arbitrary: r rule: measure_induct_rule [where f = "\<lambda>i. cnt (memory m) - i"])
  case (less i)
  note step = next_free_loop.simps [of m i r]
  show ?case
  proof (cases "i < cnt (memory m)")
    case False
    then show ?thesis using holdsD(1) [OF h(1)] by (simp add: step areas_def)
  next
    case True
    then have i: "i < length A" using holdsD(1) [OF h(1)] by simp
    let ?a = "rg_base (A ! i)" and ?b = "rg_base (A ! i) + rg_size (A ! i)"
    have d: "drop i (areas A) = (?a, ?b) # drop (Suc i) (areas A)"
      using Cons_nth_drop_Suc [of i "areas A"] i by (simp add: areas_def)
    obtain r1 found where g: "next_gap_loop (reserved m) ?a ?b r = Some (r1, found)"
      "case found of
         None \<Rightarrow> meet_ranges ((?a, ?b) # drop (Suc i) (areas A)) (drop r (gaps R)) = meet_ranges (drop (Suc i) (areas A)) (drop r1 (gaps R))
       | Some (s, e, f) \<Rightarrow> meet_ranges ((?a, ?b) # drop (Suc i) (areas A)) (drop r (gaps R)) =
           (s, e) # meet_ranges (if f then drop (Suc i) (areas A) else (?a, ?b) # drop (Suc i) (areas A)) (drop r1 (gaps R))"
      using next_gap_loop_meet [OF h(2), of ?a ?b r] by blast
    note st = step [unfolded holds_get [OF h(1) i]]
    show ?thesis
    proof (cases found)
      case None
      have "cnt (memory m) - Suc i < cnt (memory m) - i" using True by simp
      note ih = less.IH [OF this, of r1]
      have eq: "next_free_loop m i r = next_free_loop m (Suc i) r1"
        "meet_ranges (drop i (areas A)) (drop r (gaps R)) = meet_ranges (drop (Suc i) (areas A)) (drop r1 (gaps R))"
        using True g None d by (simp_all add: st)
      show ?thesis unfolding eq by (rule ih)
    next
      case (Some x)
      obtain s e f where x: "x = (s, e, f)" by (cases x)
      then show ?thesis using True g Some d by (cases f) (simp_all add: st)
    qed
  qed
qed

lemma next_free_walk:
  assumes "mem_inv m"
  shows "\<exists>c' found. memblock_next_free m c = Some (c', found) \<and>
    (case found of None \<Rightarrow> walk_rest m c = [] | Some x \<Rightarrow> walk_rest m c = x # walk_rest m c')"
proof -
  have "holds (memory m) (table_regions (memory m))" "holds (reserved m) (table_regions (reserved m))"
    using assms table_invD(1) by (auto simp: mem_inv_def)
  from next_free_loop_meet [OF this, of "cur_memory c" "cur_reserved c"] obtain i r found where
    "next_free_loop m (cur_memory c) (cur_reserved c) = Some (i, r, found)"
    "case found of None \<Rightarrow> walk_rest m c = []
     | Some x \<Rightarrow> walk_rest m c = x # walk_rest m \<lparr>cur_memory = i, cur_reserved = r\<rparr>"
    unfolding walk_rest_def memblock_cursor.select_convs by blast
  then show ?thesis
    by (intro exI [of _ "\<lparr>cur_memory = i, cur_reserved = r\<rparr>"] exI [of _ found]) (simp add: memblock_next_free_def)
qed

section \<open>Allocation\<close>

text \<open>Rounding an address up to a multiple of \<open>2 ^ k\<close>.\<close>

definition align_up :: "nat \<Rightarrow> nat \<Rightarrow> nat" where
  "align_up k a = (a + 2 ^ k - 1) div 2 ^ k * 2 ^ k"

lemma align_up:
  "2 ^ k dvd align_up k a" "a \<le> align_up k a" "a \<le> b \<Longrightarrow> 2 ^ k dvd b \<Longrightarrow> align_up k a \<le> b"
proof -
  show "2 ^ k dvd align_up k a" by (simp add: align_up_def)
  have "a + 2 ^ k - 1 < (a + 2 ^ k - 1) div 2 ^ k * 2 ^ k + 2 ^ k"
    using div_mult_mod_eq [of "a + 2 ^ k - 1" "2 ^ k"] mod_less_divisor [of "2 ^ k" "a + 2 ^ k - 1"] by (simp del: mod_less_divisor)
  then show "a \<le> align_up k a" by (simp add: align_up_def)
  assume ab: "a \<le> b" "2 ^ k dvd b"
  then obtain c where c: "b = c * 2 ^ k" by (auto elim: dvdE simp: mult.commute)
  have "a + 2 ^ k - 1 < b + 2 ^ k" using ab(1) one_le_power [of "2::nat" k] by linarith
  then have "a + 2 ^ k - 1 < Suc c * 2 ^ k" by (simp add: c)
  then have "(a + 2 ^ k - 1) div 2 ^ k < Suc c" by (simp add: div_less_iff_less_mult)
  then show "align_up k a \<le> b" by (simp add: align_up_def c)
qed

lemma and_not_mask_word: "w AND NOT (mask k) = push_bit k (drop_bit k w)" for w :: u64
  by (rule bit_word_eqI) (auto simp: bit_simps)

lemma unat_align:
  fixes s :: u64
  assumes "unat s + 2 ^ k \<le> 2 ^ 64" and "k < 64"
  shows "unat ((s + 2 ^ k - 1) AND NOT (2 ^ k - 1)) = align_up k (unat s)"
proof -
  have m: "2 ^ k - 1 = (mask k :: u64)" by (simp add: mask_eq_exp_minus_1)
  have "1 \<le> (2 ^ k :: u64)" using assms(2) by (simp add: word_le_nat_alt unat_pow2)
  then have um: "unat (mask k :: u64) = 2 ^ k - 1"
    unfolding m [symmetric] using assms(2) by (simp add: unat_sub_le unat_pow2)
  have "unat s + (2 ^ k - 1) < 2 ^ 64" using assms(1) one_le_power [of "2::nat" k] by linarith
  then have x: "unat (s + mask k) = unat s + 2 ^ k - 1" by (simp add: unat_add_nowrap um)
  have "align_up k (unat s) \<le> unat s + 2 ^ k - 1" by (simp add: align_up_def div_times_less_eq_dividend)
  then have "align_up k (unat s) < 2 ^ 64" using assms(1) one_le_power [of "2::nat" k] by linarith
  moreover have "unat (push_bit k (drop_bit k (s + mask k))) = take_bit 64 (push_bit k (drop_bit k (unat s + 2 ^ k - 1)))"
    unfolding unsigned_push_bit_eq unsigned_drop_bit_eq x
    using assms(1) one_le_power [of "2::nat" k] by (subst take_bit_nat_eq_self) simp_all
  ultimately have "unat (push_bit k (drop_bit k (s + mask k))) = align_up k (unat s)"
    by (simp add: push_bit_eq_mult drop_bit_eq_div align_up_def take_bit_nat_eq_self)
  moreover have eq: "s + 2 ^ k - 1 = s + mask k" by (simp add: m [symmetric])
  ultimately show ?thesis unfolding eq m and_not_mask_word by simp
qed

definition candidate :: "u64 \<Rightarrow> u64 \<Rightarrow> u64" where
  "candidate align s = (s + align - 1) AND NOT (align - 1)"

definition range_fits :: "u64 \<Rightarrow> u64 \<Rightarrow> range \<Rightarrow> bool" where
  "range_fits sz align x \<longleftrightarrow> candidate align (fst x) < snd x \<and> sz \<le> snd x - candidate align (fst x)"

lemma phys_alloc_loop_walk:
  assumes "mem_inv m"
  shows "phys_alloc_loop m c sz align =
    (case find (range_fits sz align) (walk_rest m c) of
       None \<Rightarrow> Some (m, 0)
     | Some x \<Rightarrow> do { (m', r) \<leftarrow> memblock_reserve m (candidate align (fst x)) sz;
                    Some (m', if r \<noteq> 0 then 0 else candidate align (fst x)) })"
proof (induction c rule: measure_induct_rule [where f = "\<lambda>c. length (walk_rest m c)"])
  case (less c)
  obtain c' found where n: "memblock_next_free m c = Some (c', found)"
    "case found of None \<Rightarrow> walk_rest m c = [] | Some x \<Rightarrow> walk_rest m c = x # walk_rest m c'"
    using next_free_walk [OF assms, of c] by blast
  note step = phys_alloc_loop.simps [of m c sz align, folded candidate_def]
  show ?case
  proof (cases found)
    case None
    with n show ?thesis by (simp add: step)
  next
    case (Some x)
    then have w: "walk_rest m c = x # walk_rest m c'" using n(2) by simp
    then have ih: "phys_alloc_loop m c' sz align = (case find (range_fits sz align) (walk_rest m c') of
       None \<Rightarrow> Some (m, 0)
     | Some x \<Rightarrow> do { (m', r) \<leftarrow> memblock_reserve m (candidate align (fst x)) sz;
                    Some (m', if r \<noteq> 0 then 0 else candidate align (fst x)) })" using less by simp
    obtain s e where x: "x = (s, e)" by (cases x)
    show ?thesis using n(1) Some w x
      by (simp add: step range_fits_def [of _ _ "(s, e)"] Let_def ih cong: if_cong)
  qed
qed

lemma walk_start: "walk_rest m \<lparr>cur_memory = 0, cur_reserved = 0\<rparr> = free_ranges m"
  by (simp add: walk_rest_def free_ranges_def)

lemma unat_candidate:
  "unat s + 2 ^ k \<le> 2 ^ 64 \<Longrightarrow> k < 64 \<Longrightarrow> unat (candidate (2 ^ k) s) = align_up k (unat s)"
  unfolding candidate_def by (rule unat_align)

text \<open>An address fits when it is aligned and the bytes from it on are free.\<close>

definition fits :: "memblock \<Rightarrow> nat \<Rightarrow> nat \<Rightarrow> nat \<Rightarrow> bool" where
  "fits m k n a \<longleftrightarrow> 2 ^ k dvd a \<and> {a..<a + n} \<subseteq> free_addrs m"

text \<open>A stretch of free addresses lies inside one of the ranges.\<close>

lemma one_range:
  assumes "ordered X" and "{a..<a + n} \<subseteq> rng_union X" and "0 < n"
  shows "\<exists>x\<in>set X. {a..<a + n} \<subseteq> rng x"
  using assms
proof (induction X)
  case (Cons x X)
  show ?case
  proof (cases "a < unat (snd x)")
    case True
    have gap: "unat (snd x) \<notin> rng_union (x # X)"
      using Cons(2) by (fastforce simp: rng_def rng_union_def word_less_nat_alt)
    then have "a + n \<le> unat (snd x)" using Cons(3) True by (meson atLeastLessThan_iff less_imp_le not_less subsetD)
    moreover have "a \<in> rng x"
    proof -
      have "a \<in> rng_union (x # X)" using subsetD [OF Cons(3), of a] Cons(4) by simp
      moreover have "a \<notin> rng_union X" using Cons(2) True by (fastforce simp: rng_def rng_union_def word_less_nat_alt)
      ultimately show ?thesis by simp
    qed
    ultimately show ?thesis by (auto simp: rng_def)
  next
    case False
    then have "{a..<a + n} \<subseteq> rng_union X" using Cons(3) by (auto simp: rng_def)
    with Cons show ?thesis by auto
  qed
qed auto

lemma range_fits_iff:
  assumes "fst x < snd x" and "unat (fst x) + 2 ^ k \<le> 2 ^ 64" "k < 64" and "sz \<noteq> 0"
  shows "range_fits sz (2 ^ k) x \<longleftrightarrow> align_up k (unat (fst x)) + unat sz \<le> unat (snd x)"
proof -
  note c = unat_candidate [OF assms(2,3)]
  have "0 < unat sz" using assms(4) by (simp add: unat_gt_0)
  then show ?thesis using unat_sub_le [of "candidate (2 ^ k) (fst x)" "snd x"]
    by (auto simp: range_fits_def word_le_nat_alt word_less_nat_alt c)
qed

lemma range_fits_free:
  assumes inv: "mem_inv m" and top: "\<forall>x\<in>covered (memory m). x + 2 ^ k \<le> 2 ^ 64" and k: "k < 64" and sz: "sz \<noteq> 0"
    and x: "x \<in> set (free_ranges m)"
  shows "unat (candidate (2 ^ k) (fst x)) = align_up k (unat (fst x))"
    "range_fits sz (2 ^ k) x \<longleftrightarrow> align_up k (unat (fst x)) + unat sz \<le> unat (snd x)"
    "\<lbrakk>{a..<a + unat sz} \<subseteq> rng x; 2 ^ k dvd a\<rbrakk> \<Longrightarrow> range_fits sz (2 ^ k) x \<and> align_up k (unat (fst x)) \<le> a"
proof -
  note X = free_ranges_props [OF inv]
  have "unat (fst x) \<in> rng_union (free_ranges m)" using x X(2) by (force simp: rng_union_def rng_def word_less_nat_alt)
  then have low: "unat (fst x) + 2 ^ k \<le> 2 ^ 64" using top X(3) by (simp add: free_addrs_def)
  show "unat (candidate (2 ^ k) (fst x)) = align_up k (unat (fst x))" by (rule unat_candidate [OF low k])
  show fit: "range_fits sz (2 ^ k) x \<longleftrightarrow> align_up k (unat (fst x)) + unat sz \<le> unat (snd x)"
    using range_fits_iff [OF _ low k sz] X(2) x by simp
  assume a: "{a..<a + unat sz} \<subseteq> rng x" "2 ^ k dvd a"
  have "0 < unat sz" using sz by (simp add: unat_gt_0)
  then have "unat (fst x) \<le> a" "a + unat sz \<le> unat (snd x)" using a(1) by (simp_all add: rng_def)
  then show "range_fits sz (2 ^ k) x \<and> align_up k (unat (fst x)) \<le> a" using align_up(3) [OF _ a(2)] fit by force
qed

lemma find_lowest:
  assumes inv: "mem_inv m" and top: "\<forall>x\<in>covered (memory m). x + 2 ^ k \<le> 2 ^ 64" and k: "k < 64" and sz: "sz \<noteq> 0"
  shows "case find (range_fits sz (2 ^ k)) (free_ranges m) of
      None \<Rightarrow> \<forall>a. \<not> fits m k (unat sz) a
    | Some x \<Rightarrow> fits m k (unat sz) (unat (candidate (2 ^ k) (fst x))) \<and>
        (\<forall>a. fits m k (unat sz) a \<longrightarrow> unat (candidate (2 ^ k) (fst x)) \<le> a)"
proof -
  let ?X = "free_ranges m"
  note X = free_ranges_props [OF inv] and R = range_fits_free [OF inv top k sz]
  have nz: "0 < unat sz" using sz by (simp add: unat_gt_0)
  have some: "\<exists>x\<in>set ?X. {a..<a + unat sz} \<subseteq> rng x \<and> range_fits sz (2 ^ k) x \<and> align_up k (unat (fst x)) \<le> a" if "fits m k (unat sz) a" for a
    using one_range [OF X(1) _ nz, of a] that X(3) R(3) [of _ a] by (auto simp: fits_def)
  show ?thesis
  proof (cases "find (range_fits sz (2 ^ k)) ?X")
    case None
    then have "\<not> range_fits sz (2 ^ k) x" if "x \<in> set ?X" for x
      using that by (cases x) (auto simp: find_None_iff)
    then show ?thesis using some by (auto simp: None)
  next
    case (Some x)
    then obtain i where i: "i < length ?X" "range_fits sz (2 ^ k) x" "x = ?X ! i"
      "\<forall>j<i. \<not> range_fits sz (2 ^ k) (?X ! j)" by (auto simp: find_Some_iff)
    then have x: "x \<in> set ?X" by simp
    have "{align_up k (unat (fst x))..<align_up k (unat (fst x)) + unat sz} \<subseteq> rng x"
      using i(2) R(2) [OF x] align_up(2) [of "unat (fst x)" k] by (auto simp: rng_def)
    then have f: "fits m k (unat sz) (align_up k (unat (fst x)))"
      using x X(3) align_up(1) by (auto simp: fits_def rng_union_def)
    have "align_up k (unat (fst x)) \<le> a" if a: "fits m k (unat sz) a" for a
    proof -
      obtain y where y: "y \<in> set ?X" "{a..<a + unat sz} \<subseteq> rng y" "range_fits sz (2 ^ k) y" "align_up k (unat (fst y)) \<le> a"
        using some [OF a] by blast
      then obtain j where j: "j < length ?X" "y = ?X ! j" by (auto simp: in_set_conv_nth)
      then have "i \<le> j" using i(4) y(3) by (meson not_less)
      then consider "i = j" | "i < j" by linarith
      then show ?thesis
      proof cases
        case 1
        then show ?thesis using y(4) i(3) j(2) by simp
      next
        case 2
        then have "snd x < fst y" using X(1) i(1,3) j by (auto simp: ordered_def sorted_wrt_iff_nth_less)
        moreover have "unat (fst y) \<le> a" using y(2) nz by (simp add: rng_def)
        ultimately show ?thesis using i(2) R(2) [OF x] by (simp add: word_less_nat_alt)
      qed
    qed
    with f show ?thesis by (simp add: Some R(1) [OF x])
  qed
qed

lemma fits_end:
  assumes "mem_inv m" and "fits m k (unat sz) a" and "sz \<noteq> 0"
  shows "a + unat sz \<le> 2 ^ 64 - 1"
proof -
  have "covered (memory m) \<subseteq> {..<2 ^ 64 - 1}" using assms(1) table_invD(5) by (simp add: mem_inv_def)
  moreover have "a + unat sz - 1 \<in> covered (memory m)"
  proof -
    have "0 < unat sz" using assms(3) by (simp add: unat_gt_0)
    then have "a + unat sz - 1 \<in> {a..<a + unat sz}" by simp
    with assms(2) show ?thesis by (auto simp: fits_def free_addrs_def)
  qed
  ultimately show ?thesis by (auto simp: subset_iff)
qed

section \<open>The whole walk\<close>

text \<open>
  At most \<open>n\<close> calls of \<^verbatim>\<open>memblock_next_free\<close>: the ranges reported, and whether the walk has ended.
\<close>

fun walk_ranges :: "memblock \<Rightarrow> nat \<Rightarrow> memblock_cursor \<Rightarrow> (range list \<times> bool) option" where
  "walk_ranges m 0 c = Some ([], False)"
| "walk_ranges m (Suc n) c = do {
     (c, found) \<leftarrow> memblock_next_free m c;
     case found of
       None \<Rightarrow> Some ([], True)
     | Some x \<Rightarrow> do { (X, done) \<leftarrow> walk_ranges m n c; Some (x # X, done) }
   }"

lemma walk_ranges_all:
  assumes "mem_inv m"
  shows "walk_ranges m (Suc (length (walk_rest m c))) c = Some (walk_rest m c, True)"
proof (induction "walk_rest m c" arbitrary: c)
  case Nil
  with next_free_walk [OF assms, of c] show ?case by (auto split: option.splits)
next
  case (Cons x X)
  obtain c' where n: "memblock_next_free m c = Some (c', Some x)" "X = walk_rest m c'"
    using next_free_walk [OF assms, of c] Cons(2) by (fastforce split: option.splits)
  show ?case unfolding Cons(2) [symmetric] walk_ranges.simps(2) [of m "length (x # X)"] using n Cons(1) [OF n(2)]
    by (simp del: walk_ranges.simps)
qed

lemma walk_ranges_more: "walk_ranges m n c = Some (X, True) \<Longrightarrow> n \<le> n' \<Longrightarrow> walk_ranges m n' c = Some (X, True)"
proof (induction n arbitrary: c X n')
  case (Suc n)
  obtain k where n': "n' = Suc k" "n \<le> k" using Suc.prems(2) by (cases n') auto
  obtain c1 found where c1: "memblock_next_free m c = Some (c1, found)" using Suc.prems(1) by (auto split: bind_splits)
  show ?case
  proof (cases found)
    case None
    then show ?thesis using c1 Suc.prems(1) by (simp add: n'(1))
  next
    case (Some x)
    then obtain Y where "walk_ranges m n c1 = Some (Y, True)" "X = x # Y"
      using c1 Suc.prems(1) by (auto split: bind_splits)
    then show ?thesis using Suc.IH [OF _ n'(2)] c1 Some by (simp add: n'(1))
  qed
qed simp

lemma length_meet: "length (meet_ranges A G) \<le> length A + length G"
proof (induction A G rule: meet_ranges.induct)
  case (3 a b A g h G)
  then show ?case by (cases "b \<le> g"; cases "a < h"; cases "b \<le> h") simp_all
qed simp_all

lemma length_free_ranges:
  assumes "mem_inv m"
  shows "length (free_ranges m) \<le> cnt (memory m) + cnt (reserved m) + 1"
proof -
  have "holds (memory m) (table_regions (memory m))" "holds (reserved m) (table_regions (reserved m))"
    using assms table_invD(1) by (auto simp: mem_inv_def)
  from this [THEN holdsD(1)] length_meet [of "areas (table_regions (memory m))" "gaps (table_regions (reserved m))"]
  show ?thesis by (simp add: free_ranges_def areas_def)
qed

section \<open>The byte count of a table\<close>

lemma cover_card:
  assumes "sep L"
  shows "card (cover L) = sum_list (map (\<lambda>r. unat (rg_size r)) L)" and "finite (cover L)"
proof -
  have "finite (cover L) \<and> card (cover L) = sum_list (map (\<lambda>r. unat (rg_size r)) L)" using assms
  proof (induction L)
    case (Cons r L)
    have "addrs r \<inter> cover L = {}" using Cons(2) by (fastforce simp: addrs_def cover_def)
    moreover have "card (addrs r) = unat (rg_size r)" by (simp add: addrs_def rbase_def rend_def)
    ultimately show ?case using Cons by (simp add: card_Un_disjoint addrs_def)
  qed simp
  then show "card (cover L) = sum_list (map (\<lambda>r. unat (rg_size r)) L)" "finite (cover L)" by simp_all
qed

lemma unat_sum_list:
  "sum_list (map (\<lambda>r. unat (f r)) L) < 2 ^ 64 \<Longrightarrow> unat (sum_list (map f L) :: u64) = sum_list (map (\<lambda>r. unat (f r)) L)"
  by (induction L) (simp_all add: unat_add_nowrap)

lemma table_total:
  assumes "table_inv t"
  shows "unat (total_size t) = card (covered t)"
proof -
  note d = table_invD [OF assms]
  have "card (covered t) \<le> card {..<2 ^ 64 - 1 :: nat}" by (rule card_mono) (use d(5) in simp_all)
  then show ?thesis
    using unat_sum_list [of rg_size "table_regions t"] cover_card(1) [OF d(2)] holdsD(4) [OF d(1)]
    by (simp add: covered_def)
qed

end
