(* ===== verification/Memblock_Props.thy ===== *)
theory Memblock_Props
  imports Memblock_Free
begin

text \<open>
  The properties of the early allocator. The interface a region table offers to its clients is
  the locale \<open>range_table\<close>; it is interpreted on the operations of \<^verbatim>\<open>mm/memblock.c\<close>, and the
  properties of \<^verbatim>\<open>memblock_add\<close>, \<^verbatim>\<open>memblock_reserve\<close> and \<^verbatim>\<open>memblock_phys_free\<close> rest on it.
\<close>

section \<open>The interface of a region table\<close>

text \<open>
  \<open>add_ok\<close> and \<open>remove_ok\<close> say when there is room; the operations return \<open>0\<close> then, and \<open>-1\<close>
  without any effect otherwise. \<open>legal\<close> excludes the arguments an operation does not handle.
\<close>

locale range_table =
  fixes add_range remove_range :: "'t \<Rightarrow> u64 \<Rightarrow> u64 \<Rightarrow> ('t \<times> int) option"
    and inv :: "'t \<Rightarrow> bool"
    and cov :: "'t \<Rightarrow> nat set"
    and span :: "u64 \<Rightarrow> u64 \<Rightarrow> nat set"
    and legal add_ok remove_ok :: "'t \<Rightarrow> u64 \<Rightarrow> u64 \<Rightarrow> bool"
  assumes add_done: "\<lbrakk>inv t; legal t b s; add_ok t b s\<rbrakk> \<Longrightarrow>
      \<exists>t'. add_range t b s = Some (t', 0) \<and> inv t' \<and> cov t' = cov t \<union> span b s"
    and add_refused: "\<lbrakk>inv t; legal t b s; \<not> add_ok t b s\<rbrakk> \<Longrightarrow> add_range t b s = Some (t, - 1)"
    and remove_done: "\<lbrakk>inv t; remove_ok t b s\<rbrakk> \<Longrightarrow>
      \<exists>t'. remove_range t b s = Some (t', 0) \<and> inv t' \<and> cov t' = cov t - span b s"
    and remove_refused: "\<lbrakk>inv t; \<not> remove_ok t b s\<rbrakk> \<Longrightarrow> remove_range t b s = Some (t, - 1)"
begin

lemma add_cases:
  assumes "inv t" "legal t b s"
  obtains (ok) t' where "add_range t b s = Some (t', 0)" "inv t'" "cov t' = cov t \<union> span b s"
  | (full) "add_range t b s = Some (t, - 1)" "\<not> add_ok t b s"
  using add_done [OF assms] add_refused [OF assms] by (cases "add_ok t b s") auto

lemma remove_cases:
  assumes "inv t"
  obtains (ok) t' where "remove_range t b s = Some (t', 0)" "inv t'" "cov t' = cov t - span b s"
  | (full) "remove_range t b s = Some (t, - 1)" "\<not> remove_ok t b s"
  using remove_done [OF assms, of b s] remove_refused [OF assms, of b s] by (cases "remove_ok t b s") auto

text \<open>Adding a range that was clear and removing it again leaves the same addresses covered.\<close>

lemma add_remove:
  assumes "inv t" "legal t b s" "cov t \<inter> span b s = {}"
    and "add_range t b s = Some (t1, 0)" and "remove_range t1 b s = Some (t2, 0)"
  shows "inv t2 \<and> cov t2 = cov t"
proof -
  have t1: "inv t1" "cov t1 = cov t \<union> span b s" by (rule add_cases [OF assms(1,2)]; use assms(4) in simp)+
  have "inv t2" "cov t2 = cov t1 - span b s" by (rule remove_cases [OF t1(1), of b s]; use assms(5) in simp)+
  with t1(2) assms(3) show ?thesis by auto
qed

end

definition range_span :: "u64 \<Rightarrow> u64 \<Rightarrow> nat set" where
  "range_span base sz = {unat base..<range_limit base sz}"

definition range_legal :: "memblock_type \<Rightarrow> u64 \<Rightarrow> u64 \<Rightarrow> bool" where
  "range_legal t base sz \<longleftrightarrow> (cnt t = 0 \<longrightarrow> unat base + unat sz < 2 ^ 64)"

definition add_room :: "memblock_type \<Rightarrow> u64 \<Rightarrow> u64 \<Rightarrow> bool" where
  "add_room t base sz \<longleftrightarrow> sz = 0 \<or> cnt t = 0 \<or> cnt t + slots_needed t base sz \<le> 16"

definition remove_room :: "memblock_type \<Rightarrow> u64 \<Rightarrow> u64 \<Rightarrow> bool" where
  "remove_room t base sz \<longleftrightarrow> sz = 0 \<or> cnt t + 2 \<le> 16"

lemma span_empty: "sz = 0 \<or> base = UINTPTR_MAX \<Longrightarrow> range_span base sz = {}"
  using unat_UINTPTR_MAX by (auto simp: range_span_def range_limit_def)

lemma table_empty: "table_inv t \<Longrightarrow> cnt t = 0 \<Longrightarrow> covered t = {}"
  by (simp add: covered_def table_regions_def)

lemma remove_range_top:
  assumes inv: "table_inv t" and room: "cnt t + 2 \<le> 16" and sz: "sz \<noteq> 0"
  shows "memblock_remove_range t UINTPTR_MAX sz = Some (t, 0)"
proof -
  have lim: "UINTPTR_MAX + cap_size UINTPTR_MAX sz = UINTPTR_MAX" by (simp add: cap_size_def)
  have "isolate_loop UINTPTR_MAX UINTPTR_MAX t i 0 0 = Some (t, 0, 0)" for i
  proof (induction i rule: measure_induct_rule [where f = "\<lambda>i. cnt t - i"])
    case (less i)
    show ?case
    proof (cases "i < cnt t")
      case True
      then have "get_region t i = Some (table_regions t ! i)"
        using table_invD(1) [OF inv] holds_get holdsD(1) by metis
      with less.IH [of "Suc i"] True show ?thesis
        by (simp add: isolate_loop.simps [of _ _ t i] Let_def le_UINTPTR_MAX)
    qed (simp add: isolate_loop.simps)
  qed
  then show ?thesis using room sz
    by (simp add: memblock_remove_range_def memblock_isolate_range_def INIT_MEMBLOCK_REGIONS_def lim Let_def)
qed

interpretation rt: range_table memblock_add_range memblock_remove_range table_inv covered range_span
  range_legal add_room remove_room
proof
  fix t base sz
  assume inv: "table_inv t"
  show "\<exists>t'. memblock_add_range t base sz = Some (t', 0) \<and> table_inv t' \<and> covered t' = covered t \<union> range_span base sz"
    if "range_legal t base sz" "add_room t base sz"
  proof -
    consider "sz = 0" | "sz \<noteq> 0" "cnt t = 0" | "sz \<noteq> 0" "cnt t \<noteq> 0" by blast
    then show ?thesis
    proof cases
      case 1
      then show ?thesis using inv by (simp add: memblock_add_range_def span_empty)
    next
      case 2
      then show ?thesis using add_range_empty [OF inv, of sz base] table_empty [OF inv] that
        by (auto simp: range_legal_def range_span_def)
    next
      case 3
      then show ?thesis using add_range_holds [OF inv, of sz base] that by (auto simp: add_room_def range_span_def)
    qed
  qed
  show "memblock_add_range t base sz = Some (t, - 1)" if "range_legal t base sz" "\<not> add_room t base sz"
    using that add_range_full [OF inv, of sz base] by (simp add: add_room_def)
  show "\<exists>t'. memblock_remove_range t base sz = Some (t', 0) \<and> table_inv t' \<and> covered t' = covered t - range_span base sz"
    if "remove_room t base sz"
  proof -
    consider "sz = 0" | "sz \<noteq> 0" "base = UINTPTR_MAX" | "sz \<noteq> 0" "base \<noteq> UINTPTR_MAX" by blast
    then show ?thesis
    proof cases
      case 1
      then show ?thesis using inv
        by (simp add: memblock_remove_range_def memblock_isolate_range_def span_empty)
    next
      case 2
      then show ?thesis using inv remove_range_top [OF inv] that by (auto simp: remove_room_def span_empty)
    next
      case 3
      then show ?thesis using remove_range_holds [OF inv] that by (auto simp: remove_room_def range_span_def)
    qed
  qed
  show "memblock_remove_range t base sz = Some (t, - 1)" if "\<not> remove_room t base sz"
    using that remove_range_full [of t sz base] by (simp add: remove_room_def)
qed

section \<open>A concrete state\<close>

definition empty_table :: memblock_type where
  "empty_table = \<lparr>cnt = 0, total_size = 0, regions = replicate 16 \<lparr>rg_base = 0, rg_size = 0\<rparr>\<rparr>"

definition static_memblock :: memblock where
  "static_memblock = \<lparr>memory = empty_table, reserved = empty_table\<rparr>"

definition boot_memblock :: memblock where
  "boot_memblock =
     fst (the (memblock_reserve (fst (the (memblock_add static_memblock 0x40000000 0x8000000))) 0x40080000 0x10000))"

lemma empty_table: "table_inv empty_table" "covered empty_table = {}" "cnt empty_table = 0"
  by (simp_all add: empty_table_def table_inv_def holds_def INIT_MEMBLOCK_REGIONS_def table_regions_def
      compact_def covered_def)

lemma add_to_empty:
  assumes "unat base + unat sz < 2 ^ 64"
  obtains t where "memblock_add_range empty_table base sz = Some (t, 0)" "table_inv t"
    "covered t = {unat base..<unat base + unat sz}" "cnt t \<le> 1"
proof -
  have ok: "range_legal empty_table base sz" "add_room empty_table base sz"
    using assms by (simp_all add: range_legal_def add_room_def empty_table)
  have "range_span base sz = {unat base..<unat base + unat sz}" using assms by (simp add: range_span_def range_limit_def)
  with rt.add_done [OF empty_table(1) ok] obtain t where
    t: "memblock_add_range empty_table base sz = Some (t, 0)" "table_inv t" "covered t = {unat base..<unat base + unat sz}"
    by (auto simp: empty_table)
  moreover have "cnt t \<le> 1"
    using t(1) by (auto simp: memblock_add_range_def set_region_def empty_table_def Let_def split: if_splits)
  ultimately show thesis by (rule that)
qed

lemma slots_needed_le: "table_inv t \<Longrightarrow> slots_needed t base sz \<le> cnt t + 1"
  using length_fill_le [of base "base + cap_size base sz" "table_regions t"] holdsD(1) [OF table_invD(1)]
  by (fastforce simp: slots_needed_def)

lemma boot_memblock:
  "mem_inv boot_memblock" "covered (memory boot_memblock) = {0x40000000..<0x48000000}"
  "covered (reserved boot_memblock) = {0x40080000..<0x40090000}" "cnt (reserved boot_memblock) \<le> 1"
proof -
  obtain t where t: "memblock_add_range empty_table 0x40000000 0x8000000 = Some (t, 0)" "table_inv t"
    "covered t = {unat (0x40000000::u64)..<unat (0x40000000::u64) + unat (0x8000000::u64)}"
    by (rule add_to_empty [of "0x40000000" "0x8000000"]) simp
  obtain u where u: "memblock_add_range empty_table 0x40080000 0x10000 = Some (u, 0)" "table_inv u"
    "covered u = {unat (0x40080000::u64)..<unat (0x40080000::u64) + unat (0x10000::u64)}" "cnt u \<le> 1"
    by (rule add_to_empty [of "0x40080000" "0x10000"]) simp
  have b: "boot_memblock = \<lparr>memory = t, reserved = u\<rparr>"
    using t(1) u(1) by (simp add: boot_memblock_def static_memblock_def memblock_add_def memblock_reserve_def)
  show "mem_inv boot_memblock" "covered (memory boot_memblock) = {0x40000000..<0x48000000}"
    "covered (reserved boot_memblock) = {0x40080000..<0x40090000}" "cnt (reserved boot_memblock) \<le> 1"
    using t u by (simp_all add: b mem_inv_def)
qed

text \<open>A range that passes the last address, added to an empty and to a non-empty table.\<close>

definition wrapped_memblock :: memblock where
  "wrapped_memblock = fst (the (memblock_add static_memblock 0x1000 UINTPTR_MAX))"

definition low_memblock :: memblock where
  "low_memblock = fst (the (memblock_add static_memblock 0x1000 0x1000))"

definition capped_memblock :: memblock where
  "capped_memblock = fst (the (memblock_add low_memblock 0x1000 UINTPTR_MAX))"

text \<open>Memory in the last page of the address space, and the state after a request for it.\<close>

definition top_memblock :: memblock where
  "top_memblock = fst (the (memblock_add static_memblock 0xfffffffffffff000 0xf00))"

definition misplaced_memblock :: memblock where
  "misplaced_memblock = fst (the (memblock_phys_alloc top_memblock 0x100 0x2000))"

section \<open>Early allocation\<close>

lemma phys_alloc_lowest:
  assumes inv: "mem_inv m" and sz: "sz \<noteq> 0" and k: "k < 64"
    and top: "\<forall>x\<in>covered (memory m). x + 2 ^ k \<le> 2 ^ 64" and zero: "0 \<notin> covered (memory m) - covered (reserved m)"
  shows "\<exists>m' p. memblock_phys_alloc m sz (2 ^ k) = Some (m', p) \<and> mem_inv m' \<and> memory m' = memory m \<and>
    (if p \<noteq> 0 then fits m k (unat sz) (unat p) \<and> (\<forall>a. fits m k (unat sz) a \<longrightarrow> unat p \<le> a) \<and>
       covered (reserved m') = covered (reserved m) \<union> {unat p..<unat p + unat sz}
     else m' = m \<and> ((\<forall>a. \<not> fits m k (unat sz) a) \<or>
       (\<exists>a. fits m k (unat sz) (unat a) \<and> 16 < cnt (reserved m) + slots_needed (reserved m) a sz)))"
proof -
  have al: "(2 ^ k :: u64) \<noteq> 0" using unat_pow2 [OF k] by (metis power_not_zero unat_0 zero_neq_numeral)
  note run = phys_alloc_loop_walk [OF inv, of "\<lparr>cur_memory = 0, cur_reserved = 0\<rparr>" sz "2 ^ k", unfolded walk_start]
  note low = find_lowest [OF inv top k sz]
  show ?thesis
  proof (cases "find (range_fits sz (2 ^ k)) (free_ranges m)")
    case None
    with run low inv sz al show ?thesis by (simp add: memblock_phys_alloc_def)
  next
    case (Some x)
    define p where "p = candidate (2 ^ k) (fst x)"
    have p: "fits m k (unat sz) (unat p)" "\<forall>a. fits m k (unat sz) a \<longrightarrow> unat p \<le> a" using low Some by (simp_all add: p_def)
    note top_end = fits_end [OF inv p(1) sz]
    have "p \<noteq> 0" using p(1) zero sz by (auto simp: fits_def free_addrs_def unat_gt_0 subset_iff)
    have i: "table_inv (memory m)" "table_inv (reserved m)" using inv by (simp_all add: mem_inv_def)
    have "range_legal (reserved m) p sz" using top_end by (simp add: range_legal_def)
    with i(2) show ?thesis
    proof (cases rule: rt.add_cases)
      case (ok t')
      then have "memblock_phys_alloc m sz (2 ^ k) = Some (m\<lparr>reserved := t'\<rparr>, p)"
        using run Some sz al by (simp add: memblock_phys_alloc_def memblock_reserve_def p_def)
      moreover have "covered t' = covered (reserved m) \<union> {unat p..<unat p + unat sz}"
        using ok(3) top_end by (simp add: range_span_def range_limit_def)
      ultimately show ?thesis using ok(2) i(1) p \<open>p \<noteq> 0\<close> by (simp add: mem_inv_def)
    next
      case full
      then have "memblock_phys_alloc m sz (2 ^ k) = Some (m, 0)"
        using run Some sz al by (simp add: memblock_phys_alloc_def memblock_reserve_def p_def)
      then show ?thesis using full(2) inv p(1) by (auto simp: add_room_def)
    qed
  qed
qed

section \<open>Properties\<close>

text \<open>
  C9: \<^verbatim>\<open>memblock_reserve\<close> keeps both tables sorted, disjoint, compact and without overflow. It either
  returns 0 and the reserved addresses grow by exactly the range, cut off at the last address, or
  it returns -1, the merged result would not fit in sixteen regions, and nothing has changed. An
  empty table needs a range that does not pass the last address.
\<close>

theorem memblock_reserve_correct:
  assumes "mem_inv m" and "cnt (reserved m) = 0 \<Longrightarrow> unat base + unat sz < 2 ^ 64"
  shows "\<exists>m' r. memblock_reserve m base sz = Some (m', r) \<and> mem_inv m' \<and> memory m' = memory m \<and>
    (r = 0 \<and> covered (reserved m') =
       covered (reserved m) \<union> {unat base..<min (unat base + unat sz) (2 ^ 64 - 1)} \<or>
     r = - 1 \<and> m' = m \<and> 16 < cnt (reserved m) + slots_needed (reserved m) base sz)"
proof -
  have i: "table_inv (memory m)" "table_inv (reserved m)" using assms(1) by (simp_all add: mem_inv_def)
  have l: "range_legal (reserved m) base sz" using assms(2) by (simp add: range_legal_def)
  from i(2) l show ?thesis
  proof (cases rule: rt.add_cases)
    case (ok t')
    then show ?thesis using i(1) by (auto simp: memblock_reserve_def mem_inv_def range_span_def range_limit_def)
  next
    case full
    then show ?thesis using assms(1) by (auto simp: memblock_reserve_def add_room_def)
  qed
qed

theorem memblock_reserve_correct_witness:
  "\<exists>m'. memblock_reserve boot_memblock 0x40090000 0x1000 = Some (m', 0) \<and> mem_inv m' \<and>
     covered (reserved m') = {0x40080000..<0x40091000}"
proof -
  have "cnt (reserved boot_memblock) \<noteq> 0"
    using boot_memblock(1,3) table_empty [of "reserved boot_memblock"] by (auto simp: mem_inv_def)
  moreover have "\<not> 16 < cnt (reserved boot_memblock) + slots_needed (reserved boot_memblock) 0x40090000 0x1000"
    using boot_memblock(1,4) slots_needed_le [of "reserved boot_memblock" "0x40090000" "0x1000"] by (simp add: mem_inv_def)
  ultimately have "\<exists>m'. memblock_reserve boot_memblock 0x40090000 0x1000 = Some (m', 0) \<and> mem_inv m' \<and>
    covered (reserved m') = {0x40080000..<0x40090000} \<union> {0x40090000..<0x40091000}"
    using memblock_reserve_correct [OF boot_memblock(1), of "0x40090000" "0x1000"]
    by (auto simp: boot_memblock(3))
  then show ?thesis by (simp add: ivl_disj_un)
qed

text \<open>
  C21: \<^verbatim>\<open>memblock_add\<close> does the same to the table of usable memory and leaves the reserved table alone.
\<close>

theorem memblock_add_correct:
  assumes "mem_inv m" and "cnt (memory m) = 0 \<Longrightarrow> unat base + unat sz < 2 ^ 64"
  shows "\<exists>m' r. memblock_add m base sz = Some (m', r) \<and> mem_inv m' \<and> reserved m' = reserved m \<and>
    (r = 0 \<and> covered (memory m') = covered (memory m) \<union> {unat base..<min (unat base + unat sz) (2 ^ 64 - 1)} \<or>
     r = - 1 \<and> m' = m \<and> 16 < cnt (memory m) + slots_needed (memory m) base sz)"
proof -
  have i: "table_inv (memory m)" "table_inv (reserved m)" using assms(1) by (simp_all add: mem_inv_def)
  have l: "range_legal (memory m) base sz" using assms(2) by (simp add: range_legal_def)
  from i(1) l show ?thesis
  proof (cases rule: rt.add_cases)
    case (ok t')
    then show ?thesis using i(2) by (auto simp: memblock_add_def mem_inv_def range_span_def range_limit_def)
  next
    case full
    then show ?thesis using assms(1) by (auto simp: memblock_add_def add_room_def)
  qed
qed

theorem memblock_add_correct_witness:
  "\<exists>m'. memblock_add static_memblock 0x40000000 0x8000000 = Some (m', 0) \<and> mem_inv m' \<and>
     covered (memory m') = {0x40000000..<0x48000000}"
proof -
  have "slots_needed (memory static_memblock) 0x40000000 0x8000000 \<le> 1"
    using slots_needed_le [OF empty_table(1)] by (simp add: static_memblock_def empty_table)
  moreover
  have "mem_inv static_memblock" by (simp add: mem_inv_def static_memblock_def empty_table)
  ultimately show ?thesis using memblock_add_correct [of static_memblock "0x40000000" "0x8000000"]
    by (auto simp: static_memblock_def empty_table)
qed

text \<open>
  C19: \<^verbatim>\<open>memblock_phys_free\<close> removes exactly the range from the reserved addresses and keeps the
  tables well formed, cutting at most two regions; it returns -1 without effect exactly when fewer
  than two of the sixteen regions are left.
\<close>

theorem memblock_phys_free_correct:
  assumes "mem_inv m"
  shows "\<exists>m' r. memblock_phys_free m base sz = Some (m', r) \<and> mem_inv m' \<and> memory m' = memory m \<and>
    (if sz \<noteq> 0 \<and> 14 < cnt (reserved m) then r = - 1 \<and> m' = m
     else r = 0 \<and> covered (reserved m') =
       covered (reserved m) - {unat base..<min (unat base + unat sz) (2 ^ 64 - 1)})"
proof -
  have i: "table_inv (memory m)" "table_inv (reserved m)" using assms by (simp_all add: mem_inv_def)
  show ?thesis
  proof (cases "remove_room (reserved m) base sz")
    case True
    from rt.remove_done [OF i(2) True] True i(1) show ?thesis
      by (auto simp: memblock_phys_free_def mem_inv_def remove_room_def range_span_def range_limit_def)
  next
    case False
    from rt.remove_refused [OF i(2) False] False assms show ?thesis
      by (auto simp: memblock_phys_free_def remove_room_def)
  qed
qed

theorem memblock_phys_free_correct_witness:
  "\<exists>m'. memblock_phys_free boot_memblock 0x40088000 0x1000 = Some (m', 0) \<and> mem_inv m' \<and>
     covered (reserved m') = {0x40080000..<0x40088000} \<union> {0x40089000..<0x40090000}"
  using memblock_phys_free_correct [OF boot_memblock(1), of "0x40088000" "0x1000"] boot_memblock(4)
  by (auto simp: boot_memblock(3))

text \<open>
  The size a table records is the number of addresses its regions cover: what
  \<^verbatim>\<open>memblock_insert_region\<close>, \<^verbatim>\<open>memblock_remove_region\<close> and the cuts add and subtract never drifts, and
  the sum does not wrap.
\<close>

theorem total_size_exact:
  assumes "mem_inv m"
  shows "unat (total_size (memory m)) = card (covered (memory m)) \<and>
    unat (total_size (reserved m)) = card (covered (reserved m))"
  using assms table_total by (simp add: mem_inv_def)

theorem total_size_exact_witness:
  "unat (total_size (memory boot_memblock)) = 0x8000000 \<and> unat (total_size (reserved boot_memblock)) = 0x10000"
  using total_size_exact [OF boot_memblock(1)] by (simp add: boot_memblock)

text \<open>
  C20: started from a zero cursor, the walk of \<^verbatim>\<open>memblock_next_free\<close> reports the addresses that are
  usable and not reserved, all of them and no others, as non-empty ranges in increasing order with
  a gap between any two; one call more than there are regions and gaps ends the walk.
\<close>

theorem memblock_walk_complete:
  assumes "mem_inv m"
  shows "\<exists>X. walk_ranges m (cnt (memory m) + cnt (reserved m) + 2) \<lparr>cur_memory = 0, cur_reserved = 0\<rparr> = Some (X, True) \<and>
    rng_union X = covered (memory m) - covered (reserved m) \<and>
    sorted_wrt (\<lambda>x y. snd x < fst y) X \<and> (\<forall>x\<in>set X. fst x < snd x)"
proof -
  let ?c = "\<lparr>cur_memory = 0, cur_reserved = 0\<rparr>"
  have "walk_ranges m (cnt (memory m) + cnt (reserved m) + 2) ?c = Some (free_ranges m, True)"
    by (rule walk_ranges_more [OF walk_ranges_all [OF assms, of ?c, unfolded walk_start]])
      (use length_free_ranges [OF assms] in simp)
  with free_ranges_props [OF assms] show ?thesis by (auto simp: ordered_def free_addrs_def simp del: walk_ranges.simps)
qed

theorem memblock_walk_complete_witness:
  "\<exists>X. walk_ranges boot_memblock (cnt (memory boot_memblock) + cnt (reserved boot_memblock) + 2) \<lparr>cur_memory = 0, cur_reserved = 0\<rparr> = Some (X, True) \<and>
     rng_union X = {0x40000000..<0x40080000} \<union> {0x40090000..<0x48000000}"
proof -
  have "{0x40000000..<0x48000000} - {0x40080000..<0x40090000::nat} = {0x40000000..<0x40080000} \<union> {0x40090000..<0x48000000}"
    by auto
  then show ?thesis using memblock_walk_complete [OF boot_memblock(1)] by (auto simp: boot_memblock)
qed

text \<open>
  C18: for a power-of-two alignment that does not wrap at the end of memory, and when address 0 is
  not free, \<^verbatim>\<open>memblock_phys_alloc\<close> returns the lowest aligned address from which the requested bytes
  are free and reserves exactly these bytes; it returns 0 with no effect only when there is no
  such address or the reserved table is full.
\<close>

theorem memblock_phys_alloc_lowest:
  assumes inv: "mem_inv m" and sz: "sz \<noteq> 0" and k: "k < 64"
    and top: "\<forall>x\<in>covered (memory m). x + 2 ^ k \<le> 2 ^ 64" and zero: "0 \<notin> covered (memory m) - covered (reserved m)"
  shows "\<exists>m' p. memblock_phys_alloc m sz (2 ^ k) = Some (m', p) \<and> mem_inv m' \<and> memory m' = memory m \<and>
    (if p \<noteq> 0 then fits m k (unat sz) (unat p) \<and> (\<forall>a. fits m k (unat sz) a \<longrightarrow> unat p \<le> a) \<and>
       covered (reserved m') = covered (reserved m) \<union> {unat p..<unat p + unat sz}
     else m' = m \<and> ((\<forall>a. \<not> fits m k (unat sz) a) \<or>
       (\<exists>a. fits m k (unat sz) (unat a) \<and> 16 < cnt (reserved m) + slots_needed (reserved m) a sz)))"
  by (rule phys_alloc_lowest [OF assms])

theorem memblock_phys_alloc_lowest_witness:
  "\<exists>m' p. memblock_phys_alloc boot_memblock 0x100000 (2 ^ 12) = Some (m', p) \<and> p = 0x40090000"
proof -
  let ?m = boot_memblock
  have f: "fits ?m 12 0x100000 a \<longleftrightarrow> 2 ^ 12 dvd a \<and>
      {a..<a + 0x100000} \<subseteq> {0x40000000..<0x40080000} \<union> {0x40090000..<0x48000000}" for a
    by (auto simp: fits_def free_addrs_def boot_memblock subset_iff)
  have fit: "fits ?m 12 0x100000 0x40090000" by (auto simp: f)
  have low: "0x40090000 \<le> a" if "fits ?m 12 0x100000 a" for a
  proof -
    have sub: "{a..<a + 0x100000} \<subseteq> {0x40000000..<0x40080000} \<union> {0x40090000..<0x48000000}" using that by (simp add: f)
    have "a \<in> {0x40000000..<0x40080000} \<union> {0x40090000..<0x48000000}" by (rule subsetD [OF sub]) simp
    moreover have "0x40080000 \<notin> {a..<a + 0x100000}" using subsetD [OF sub, of "0x40080000"] by auto
    ultimately show ?thesis by auto
  qed
  have room: "\<not> 16 < cnt (reserved ?m) + slots_needed (reserved ?m) a 0x100000" for a
    using boot_memblock(1,4) slots_needed_le [of "reserved ?m" a "0x100000"] by (simp add: mem_inv_def)
  have "\<forall>x\<in>covered (memory ?m). x + 2 ^ 12 \<le> 2 ^ 64" "0 \<notin> covered (memory ?m) - covered (reserved ?m)"
    by (simp_all add: boot_memblock)
  from memblock_phys_alloc_lowest [OF boot_memblock(1) _ _ this, of "0x100000"] obtain m' p where
    r: "memblock_phys_alloc ?m 0x100000 (2 ^ 12) = Some (m', p)"
    "if p \<noteq> 0 then fits ?m 12 0x100000 (unat p) \<and> (\<forall>a. fits ?m 12 0x100000 a \<longrightarrow> unat p \<le> a)
     else \<forall>a. \<not> fits ?m 12 0x100000 a" using room by (auto split: if_splits)
  then have "unat p = 0x40090000" using fit low by (auto split: if_splits intro: antisym)
  then have "p = 0x40090000" by (simp add: word_unat_eq_iff)
  with r(1) show ?thesis by auto
qed



end
