(* ===== verification/Byte_Memory.thy ===== *)
theory Byte_Memory
  imports Prelude
begin

text \<open>
  Byte-addressed memory: a function from 64-bit addresses to bytes, with the little-endian 8-byte
  accesses of AArch64. Addresses wrap; a byte lies in the \<open>n\<close> bytes from \<open>a\<close> on when its offset
  from \<open>a\<close> is below \<open>n\<close>.
\<close>

unbundle bit_operations_syntax

type_synonym byte_mem = "u64 \<Rightarrow> u8"

definition byte_of :: "u64 \<Rightarrow> nat \<Rightarrow> u8" where
  "byte_of w i = ucast (drop_bit (8 * i) w)"

definition load64 :: "byte_mem \<Rightarrow> u64 \<Rightarrow> u64" where
  "load64 m a = fold (\<lambda>i w. w OR push_bit (8 * i) (ucast (m (a + of_nat i)))) [0..<8] 0"

definition store64 :: "byte_mem \<Rightarrow> u64 \<Rightarrow> u64 \<Rightarrow> byte_mem" where
  "store64 m a w = fold (\<lambda>i m. m(a + of_nat i := byte_of w i)) [0..<8] m"

definition in_span :: "u64 \<Rightarrow> nat \<Rightarrow> u64 \<Rightarrow> bool" where
  "in_span a n x \<longleftrightarrow> unat (x - a) < n"

lemma bit_u8_less: "bit (b :: u8) n \<Longrightarrow> n < 8"
  using bit_imp_le_length [of b n] by simp

lemma bit_load_bytes:
  "bit (fold (\<lambda>i w. w OR push_bit (8 * i) (ucast (m (a + of_nat i)))) [0..<k] (0 :: u64)) n \<longleftrightarrow>
     n < 8 * k \<and> n < 64 \<and> bit (m (a + of_nat (n div 8)) :: u8) (n mod 8)"
proof (induction k)
  case (Suc k)
  have "bit (push_bit (8 * k) (ucast (m (a + of_nat k)) :: u64)) n \<longleftrightarrow>
      8 * k \<le> n \<and> n < 8 * Suc k \<and> n < 64 \<and> bit (m (a + of_nat (n div 8))) (n mod 8)"
  proof (cases "8 * k \<le> n \<and> n < 8 * Suc k")
    case True
    then have "n div 8 = k" by (auto intro: div_nat_eqI)
    moreover from this have "n mod 8 = n - 8 * k" by (simp flip: minus_mult_div_eq_mod)
    ultimately show ?thesis using True by (auto simp: bit_push_bit_iff bit_ucast_iff)
  next
    case False
    then show ?thesis by (auto simp: bit_push_bit_iff bit_ucast_iff dest: bit_u8_less)
  qed
  then show ?case using Suc by (auto simp: bit_or_iff)
qed simp

lemma bit_load64: "bit (load64 m a) n \<longleftrightarrow> n < 64 \<and> bit (m (a + of_nat (n div 8))) (n mod 8)"
  using bit_load_bytes [of m a 8 n] by (auto simp: load64_def)

lemma byte_of_load64: "i < 8 \<Longrightarrow> byte_of (load64 m a) i = m (a + of_nat i)"
  by (rule bit_word_eqI) (auto simp: byte_of_def bit_ucast_iff bit_drop_bit_eq bit_load64)

lemma word_eq_bytesI: "(\<And>i. i < 8 \<Longrightarrow> byte_of v i = byte_of w i) \<Longrightarrow> v = w"
proof (rule bit_word_eqI)
  fix n assume eq: "\<And>i. i < 8 \<Longrightarrow> byte_of v i = byte_of w i" and n: "n < LENGTH(64)"
  have "bit (byte_of u (n div 8)) (n mod 8) \<longleftrightarrow> bit u n" for u
    using mult_div_mod_eq [of 8 n] by (simp add: byte_of_def bit_ucast_iff bit_drop_bit_eq)
  moreover have "n div 8 < 8" using n by simp
  ultimately show "bit v n \<longleftrightarrow> bit w n" using eq by metis
qed

lemma offset_iff: "i < 2 ^ 64 \<Longrightarrow> x = a + of_nat i \<longleftrightarrow> unat (x - a) = i" for a x :: u64
proof -
  assume i: "i < 2 ^ 64"
  have "x = a + of_nat i \<longleftrightarrow> x - a = of_nat i" by (auto simp: algebra_simps)
  also have "\<dots> \<longleftrightarrow> unat (x - a) = i" using i by (simp add: word_unat_eq_iff unat_of_nat)
  finally show ?thesis .
qed

lemma store_bytes:
  assumes "k \<le> 8"
  shows "fold (\<lambda>i m. m(a + of_nat i := byte_of w i)) [0..<k] m x =
    (if in_span a k x then byte_of w (unat (x - a)) else m x)"
  using assms
proof (induction k)
  case (Suc k)
  have "x = a + of_nat k \<longleftrightarrow> unat (x - a) = k" by (rule offset_iff) (use Suc(2) in simp)
  with Suc show ?case by (auto simp: in_span_def)
qed (simp add: in_span_def)

lemma store64_apply: "store64 m a w x = (if in_span a 8 x then byte_of w (unat (x - a)) else m x)"
  by (simp only: store64_def store_bytes [OF order_refl])

lemma in_span_offset: "i < 2 ^ 64 \<Longrightarrow> in_span a n (a + of_nat i) \<longleftrightarrow> i < n"
  using offset_iff [of i "a + of_nat i" a] by (simp add: in_span_def)

lemma load64_store64_same: "load64 (store64 m a w) a = w"
proof (rule word_eq_bytesI)
  fix i :: nat assume i: "i < 8"
  then have "unat (a + of_nat i - a) = i" using offset_iff [of i "a + of_nat i" a] by simp
  with i show "byte_of (load64 (store64 m a w) a) i = byte_of w i"
    by (simp add: byte_of_load64 store64_apply in_span_def)
qed

lemma load64_cong: "(\<And>x. in_span a 8 x \<Longrightarrow> m x = m' x) \<Longrightarrow> load64 m a = load64 m' a"
proof (rule word_eq_bytesI)
  fix i :: nat assume "\<And>x. in_span a 8 x \<Longrightarrow> m x = m' x" and i: "i < 8"
  then show "byte_of (load64 m a) i = byte_of (load64 m' a) i"
    by (simp add: byte_of_load64 in_span_offset)
qed

end
