(* ===== verification/String_Lib.thy ===== *)
theory String_Lib
  imports Byte_Memory
begin

text \<open>
  The memory functions of \<^verbatim>\<open>lib/string.c\<close>. They work on eight bytes at a time and finish byte by
  byte; the loops are recursive in the remaining size, and the order of reads and writes is that of
  the source, so overlapping arguments are covered.
\<close>

unbundle bit_operations_syntax

section \<open>Operations\<close>

definition WORD_SIZE :: u64 where "WORD_SIZE = 8"

lemma size_word_less: "WORD_SIZE \<le> sz \<Longrightarrow> unat (sz - WORD_SIZE) < unat sz"
  by (simp add: WORD_SIZE_def word_le_nat_alt unat_sub_le)

lemma size_byte_less: "sz \<noteq> 0 \<Longrightarrow> unat (sz - 1) < unat sz" for sz :: u64
  by (simp add: unat_minus_one unat_gt_0)

function memset_words :: "byte_mem \<Rightarrow> u64 \<Rightarrow> u64 \<Rightarrow> u64 \<Rightarrow> byte_mem \<times> u64 \<times> u64" where
  "memset_words m pattern output sz =
     (if sz \<ge> WORD_SIZE
      then memset_words (store64 m output pattern) pattern (output + WORD_SIZE) (sz - WORD_SIZE)
      else (m, output, sz))"
  by pat_completeness auto
termination
  by (relation "measure (\<lambda>(m, p, out, sz). unat sz)") (auto simp: size_word_less)

function memset_bytes :: "byte_mem \<Rightarrow> u8 \<Rightarrow> u64 \<Rightarrow> u64 \<Rightarrow> byte_mem" where
  "memset_bytes m byte output sz =
     (if sz \<noteq> 0 then memset_bytes (m(output := byte)) byte (output + 1) (sz - 1) else m)"
  by pat_completeness auto
termination
  by (relation "measure (\<lambda>(m, b, out, sz). unat sz)") (auto simp: size_byte_less)

declare memset_words.simps [simp del] memset_bytes.simps [simp del]

definition memset :: "byte_mem \<Rightarrow> u64 \<Rightarrow> int \<Rightarrow> u64 \<Rightarrow> byte_mem" where
  "memset m destination v sz = (
     let byte = word_of_int v;
         pattern = ucast byte * 0x0101010101010101;
         (m, output, sz) = memset_words m pattern destination sz
     in memset_bytes m byte output sz)"

function memcpy_words :: "byte_mem \<Rightarrow> u64 \<Rightarrow> u64 \<Rightarrow> u64 \<Rightarrow> byte_mem \<times> u64 \<times> u64 \<times> u64" where
  "memcpy_words m output input sz =
     (if sz \<ge> WORD_SIZE
      then memcpy_words (store64 m output (load64 m input)) (output + WORD_SIZE) (input + WORD_SIZE) (sz - WORD_SIZE)
      else (m, output, input, sz))"
  by pat_completeness auto
termination
  by (relation "measure (\<lambda>(m, out, inp, sz). unat sz)") (auto simp: size_word_less)

function memcpy_bytes :: "byte_mem \<Rightarrow> u64 \<Rightarrow> u64 \<Rightarrow> u64 \<Rightarrow> byte_mem" where
  "memcpy_bytes m output input sz =
     (if sz \<noteq> 0 then memcpy_bytes (m(output := m input)) (output + 1) (input + 1) (sz - 1) else m)"
  by pat_completeness auto
termination
  by (relation "measure (\<lambda>(m, out, inp, sz). unat sz)") (auto simp: size_byte_less)

declare memcpy_words.simps [simp del] memcpy_bytes.simps [simp del]

definition memcpy :: "byte_mem \<Rightarrow> u64 \<Rightarrow> u64 \<Rightarrow> u64 \<Rightarrow> byte_mem" where
  "memcpy m destination source sz = (
     let (m, output, input, sz) = memcpy_words m destination source sz
     in memcpy_bytes m output input sz)"

function memmove_words :: "byte_mem \<Rightarrow> u64 \<Rightarrow> u64 \<Rightarrow> u64 \<Rightarrow> byte_mem \<times> u64 \<times> u64 \<times> u64" where
  "memmove_words m output input sz =
     (if sz \<ge> WORD_SIZE then
        let output = output - WORD_SIZE; input = input - WORD_SIZE
        in memmove_words (store64 m output (load64 m input)) output input (sz - WORD_SIZE)
      else (m, output, input, sz))"
  by pat_completeness auto
termination
  by (relation "measure (\<lambda>(m, out, inp, sz). unat sz)") (auto simp: size_word_less)

function memmove_bytes :: "byte_mem \<Rightarrow> u64 \<Rightarrow> u64 \<Rightarrow> u64 \<Rightarrow> byte_mem" where
  "memmove_bytes m output input sz =
     (if sz \<noteq> 0 then
        let output = output - 1; input = input - 1
        in memmove_bytes (m(output := m input)) output input (sz - 1)
      else m)"
  by pat_completeness auto
termination
  by (relation "measure (\<lambda>(m, out, inp, sz). unat sz)") (auto simp: size_byte_less)

declare memmove_words.simps [simp del] memmove_bytes.simps [simp del]

definition memmove :: "byte_mem \<Rightarrow> u64 \<Rightarrow> u64 \<Rightarrow> u64 \<Rightarrow> byte_mem" where
  "memmove m destination source sz =
     (if destination = source \<or> sz = 0 then m
      else if destination < source \<or> destination \<ge> source + sz then memcpy m destination source sz
      else
        let (m, output, input, sz) = memmove_words m (destination + sz) (source + sz) sz
        in memmove_bytes m output input sz)"

function memcmp_loop :: "byte_mem \<Rightarrow> u64 \<Rightarrow> u64 \<Rightarrow> u64 \<Rightarrow> u64 \<Rightarrow> int" where
  "memcmp_loop m first second sz i =
     (if i < sz then
        if m (first + i) \<noteq> m (second + i) then uint (m (first + i)) - uint (m (second + i))
        else memcmp_loop m first second sz (i + 1)
      else 0)"
  by pat_completeness auto
termination
proof (relation "measure (\<lambda>(m, a, b, sz, i). unat sz - unat i)", simp, clarsimp)
  fix sz i :: u64 assume "i < sz"
  then have "unat i < unat sz" "unat (i + 1) = unat i + 1"
    using u64_bound [of sz] by (auto simp: word_less_nat_alt unat_add_nowrap)
  then show "unat sz - unat (i + 1) < unat sz - unat i" by simp
qed

declare memcmp_loop.simps [simp del]

definition memcmp :: "byte_mem \<Rightarrow> u64 \<Rightarrow> u64 \<Rightarrow> u64 \<Rightarrow> int" where
  "memcmp m left right sz = memcmp_loop m left right sz 0"

section \<open>memset\<close>

lemma div_pattern: "b < 256 \<Longrightarrow> 255 * r < n \<Longrightarrow> b * ((256 * q + 1) * n + r) div n mod 256 = b" for b r n q :: nat
proof -
  assume b: "b < 256" and r: "255 * r < n"
  have "b * r \<le> 255 * r" by (rule mult_le_mono1) (use b in simp)
  then have "b * r < n" using r by linarith
  then have "(b * r + b * (256 * q + 1) * n) div n = b * (256 * q + 1)" by (simp add: div_mult_self2)
  moreover have "b * ((256 * q + 1) * n + r) = b * r + b * (256 * q + 1) * n" by (simp add: algebra_simps)
  moreover have "b * (256 * q + 1) mod 256 = b"
    using b mod_mult_self2 [of b 256 "b * q"] by (simp add: algebra_simps)
  ultimately show ?thesis by simp
qed

lemma pattern_bytes: "i < 8 \<Longrightarrow> byte_of (ucast (b :: u8) * 0x0101010101010101) i = b"
proof -
  assume i: "i < 8"
  have b: "unat b < 256" using unsigned_less [of b, where ?'a = nat] by simp
  have p: "unat (ucast b * 0x0101010101010101 :: u64) = unat b * 0x0101010101010101"
    using b by (simp add: unat_word_ariths unsigned_ucast_eq take_bit_nat_eq_self)
  have "unat (byte_of (ucast b * 0x0101010101010101) i) = (unat b * 0x0101010101010101) div 2 ^ (8 * i) mod 256"
    unfolding byte_of_def unsigned_ucast_eq unsigned_drop_bit_eq p using b
    by (simp add: take_bit_eq_mod drop_bit_eq_div)
  also have "\<dots> = unat b"
  proof -
    from i consider "i = 0" | "i = 1" | "i = 2" | "i = 3" | "i = 4" | "i = 5" | "i = 6" | "i = 7" by linarith
    then show ?thesis
    proof cases
      case 1
      then show ?thesis using div_pattern [OF b, of 0 "1" 282578800148737] by simp
    next
      case 2
      then show ?thesis using div_pattern [OF b, of 1 "256" 1103823438081] by simp
    next
      case 3
      then show ?thesis using div_pattern [OF b, of 257 "65536" 4311810305] by simp
    next
      case 4
      then show ?thesis using div_pattern [OF b, of 65793 "16777216" 16843009] by simp
    next
      case 5
      then show ?thesis using div_pattern [OF b, of 16843009 "4294967296" 65793] by simp
    next
      case 6
      then show ?thesis using div_pattern [OF b, of 4311810305 "1099511627776" 257] by simp
    next
      case 7
      then show ?thesis using div_pattern [OF b, of 1103823438081 "281474976710656" 1] by simp
    next
      case 8
      then show ?thesis using div_pattern [OF b, of 282578800148737 "72057594037927936" 0] by simp
    qed
  qed
  finally show ?thesis by (simp add: word_unat_eq_iff)
qed

text \<open>Offsets from the moving pointers, in terms of those from the start.\<close>

lemma in_span_step:
  fixes a :: u64
  assumes "k \<le> n" "n \<le> 2 ^ 64" "k < 2 ^ 64"
  shows "in_span a n x \<longleftrightarrow> in_span a k x \<or> in_span (a + of_nat k) (n - k) x"
proof -
  have k: "unat (of_nat k :: u64) = k" using assms(3) by (simp add: unat_of_nat)
  show ?thesis
  proof (cases "in_span a k x")
    case False
    then have "of_nat k \<le> x - a" by (simp add: word_le_nat_alt k in_span_def)
    then have "unat (x - (a + of_nat k)) = unat (x - a) - k"
      using unat_sub_le [of "of_nat k" "x - a"] by (simp add: k algebra_simps)
    with False assms(1) show ?thesis by (auto simp: in_span_def)
  qed (use assms(1) in \<open>auto simp: in_span_def\<close>)
qed

lemma in_span_apart:
  fixes a :: u64
  assumes "k \<le> n" "n \<le> 2 ^ 64" "k < 2 ^ 64" "in_span a k x"
  shows "\<not> in_span (a + of_nat k) (n - k) x"
proof -
  have k: "unat (of_nat k :: u64) = k" using assms(3) by (simp add: unat_of_nat)
  have "unat (x - (a + of_nat k)) = unat ((x - a) - of_nat k)" by (simp add: algebra_simps)
  also have "\<dots> = 2 ^ 64 + unat (x - a) - k"
    using assms(3,4) by (simp add: unat_sub_if' k in_span_def)
  finally show ?thesis using assms by (simp add: in_span_def)
qed

lemma memset_bytes_apply: "memset_bytes m b out sz x = (if in_span out (unat sz) x then b else m x)"
proof (induction m b out sz rule: memset_bytes.induct)
  case (1 m b out sz)
  show ?case
  proof (cases "sz = 0")
    case False
    have n: "unat (sz - 1) = unat sz - 1" "1 \<le> unat sz" using False by (simp_all add: unat_minus_one Suc_le_eq unat_gt_0)
    have "in_span out 1 x \<longleftrightarrow> x = out" by (auto simp: in_span_def unat_eq_0)
    moreover have "in_span out (unat sz) x \<longleftrightarrow> in_span out 1 x \<or> in_span (out + 1) (unat sz - 1) x"
      using in_span_step [of 1 "unat sz" out x] n(2) u64_bound [of sz] by simp
    ultimately show ?thesis using 1 [OF False] False n by (simp add: memset_bytes.simps [of m b out sz] fun_upd_def)
  qed (simp add: memset_bytes.simps in_span_def)
qed

lemma memset_words_apply:
  assumes "\<And>i. i < 8 \<Longrightarrow> byte_of pattern i = b" and "memset_words m pattern out sz = (m', out', sz')"
  shows "memset_bytes m' b out' sz' x = (if in_span out (unat sz) x then b else m x)"
  using assms
proof (induction m pattern out sz rule: memset_words.induct)
  case (1 m pattern out sz)
  show ?case
  proof (cases "WORD_SIZE \<le> sz")
    case True
    then have n: "unat (sz - WORD_SIZE) = unat sz - 8" "8 \<le> unat sz"
      by (simp_all add: WORD_SIZE_def word_le_nat_alt unat_sub_le)
    have "in_span out (unat sz) x \<longleftrightarrow> in_span out 8 x \<or> in_span (out + WORD_SIZE) (unat sz - 8) x"
      using in_span_step [of 8 "unat sz" out x] n(2) u64_bound [of sz] by (simp add: WORD_SIZE_def)
    moreover have "store64 m out pattern x = (if in_span out 8 x then b else m x)"
      using 1(2) by (simp add: store64_apply in_span_def)
    moreover have "memset_bytes m' b out' sz' x =
        (if in_span (out + WORD_SIZE) (unat sz - 8) x then b else store64 m out pattern x)"
      using 1(1) [OF True 1(2)] 1(3) True n by (simp add: memset_words.simps [of m pattern out sz])
    ultimately show ?thesis by simp
  next
    case False
    then show ?thesis using 1(3) by (simp add: memset_words.simps memset_bytes_apply)
  qed
qed

lemma memset_apply:
  "memset m d v sz x = (if in_span d (unat sz) x then word_of_int v else m x)"
proof -
  obtain m' out' sz' where w: "memset_words m (ucast (word_of_int v :: u8) * 0x0101010101010101) d sz = (m', out', sz')"
    by (metis prod_cases3)
  from memset_words_apply [OF _ this, of "word_of_int v" x] show ?thesis
    by (simp add: memset_def w pattern_bytes)
qed

section \<open>memcpy and memmove\<close>

text \<open>
  \<open>copied m d s n\<close> is the memory with the \<open>n\<close> bytes at \<open>s\<close>, as they were, at \<open>d\<close>. Copying upwards
  is correct when the destination does not start inside the source, copying downwards when the
  source does not start inside the destination.
\<close>

definition copied :: "byte_mem \<Rightarrow> u64 \<Rightarrow> u64 \<Rightarrow> nat \<Rightarrow> byte_mem" where
  "copied m d s n x = (if in_span d n x then m (s + (x - d)) else m x)"

lemma store64_load64: "store64 m d (load64 m s) = copied m d s 8"
proof
  fix x
  show "store64 m d (load64 m s) x = copied m d s 8 x"
    by (simp add: store64_apply copied_def byte_of_load64 in_span_def)
qed

lemma store_byte: "m(d := m s) = copied m d s 1"
  by (auto simp: copied_def in_span_def fun_eq_iff unat_eq_0)

lemma copied_self [simp]: "copied m d d n = m"
  by (simp add: copied_def fun_eq_iff)

lemma copied_upwards:
  assumes n: "n < 2 ^ 64" "k \<le> n" and apart: "n \<le> unat (d - s) \<or> d = s"
  shows "copied (copied m d s k) (d + of_nat k) (s + of_nat k) (n - k) = copied m d s n"
proof (cases "d = s")
  case False
  then have ap: "n \<le> unat (d - s)" using apart by simp
  show ?thesis
  proof
    fix x
    have sp: "in_span d n x \<longleftrightarrow> in_span d k x \<or> in_span (d + of_nat k) (n - k) x"
      using in_span_step [of k n d x] n by simp
    have tail: "s + of_nat k + (x - (d + of_nat k)) = s + (x - d)" by simp
    show "copied (copied m d s k) (d + of_nat k) (s + of_nat k) (n - k) x = copied m d s n x"
    proof (cases "in_span (d + of_nat k) (n - k) x")
      case True
      then have "\<not> in_span d k x" using in_span_apart [of k n d x] n by auto
      with True sp have xn: "unat (x - d) < n" "k \<le> unat (x - d)" by (auto simp: in_span_def)
      have "unat (s + (x - d) - d) = unat ((x - d) - (d - s))" by (simp add: algebra_simps)
      also have "\<dots> = 2 ^ 64 + unat (x - d) - unat (d - s)" by (rule unat_sub_wrap) (use xn ap in simp)
      finally have "\<not> in_span d k (s + (x - d))" using xn u64_bound [of "d - s"] by (simp add: in_span_def)
      then show ?thesis using True sp tail by (simp add: copied_def)
    next
      case False
      then show ?thesis using sp by (simp add: copied_def)
    qed
  qed
qed simp

lemma copied_downwards:
  assumes n: "j + k < 2 ^ 64" and apart: "j + k \<le> unat (s - d)"
  shows "copied (copied m (d + of_nat j) (s + of_nat j) k) d s j = copied m d s (j + k)"
proof
  fix x
  have sp: "in_span d (j + k) x \<longleftrightarrow> in_span d j x \<or> in_span (d + of_nat j) k x"
    using in_span_step [of j "j + k" d x] n by simp
  have tail: "s + of_nat j + (x - (d + of_nat j)) = s + (x - d)" by simp
  show "copied (copied m (d + of_nat j) (s + of_nat j) k) d s j x = copied m d s (j + k) x"
  proof (cases "in_span d j x")
    case True
    have j: "unat (of_nat j :: u64) = j" using n by (simp add: unat_of_nat)
    have d1: "unat (of_nat j - (x - d)) = j - unat (x - d)"
      using True unat_sub_le [of "x - d" "of_nat j"] by (simp add: in_span_def j word_le_nat_alt)
    have "unat (s + (x - d) - (d + of_nat j)) = unat ((s - d) - (of_nat j - (x - d)))" by (simp add: algebra_simps)
    also have "\<dots> = unat (s - d) - (j - unat (x - d))"
      using unat_sub_le [of "of_nat j - (x - d)" "s - d"] apart d1 by (simp add: word_le_nat_alt)
    finally have "\<not> in_span (d + of_nat j) k (s + (x - d))" using apart by (simp add: in_span_def)
    then show ?thesis using True sp by (simp add: copied_def)
  next
    case False
    then show ?thesis using sp tail by (simp add: copied_def)
  qed
qed

lemma memcpy_bytes_copied:
  "unat sz \<le> unat (out - inp) \<or> out = inp \<Longrightarrow> memcpy_bytes m out inp sz = copied m out inp (unat sz)"
proof (induction m out inp sz rule: memcpy_bytes.induct)
  case (1 m out inp sz)
  show ?case
  proof (cases "sz = 0")
    case False
    have n: "unat (sz - 1) = unat sz - 1" "1 \<le> unat sz" using False by (simp_all add: unat_minus_one Suc_le_eq unat_gt_0)
    have "memcpy_bytes m out inp sz = memcpy_bytes (copied m out inp 1) (out + 1) (inp + 1) (sz - 1)"
      unfolding memcpy_bytes.simps [of m out inp sz] store_byte using False by simp
    also have "\<dots> = copied (copied m out inp 1) (out + 1) (inp + 1) (unat sz - 1)"
    proof -
      have "unat (sz - 1) \<le> unat (out + 1 - (inp + 1)) \<or> out + 1 = inp + 1" using 1(2) n by auto
      from 1(1) [OF False this] show ?thesis by (simp add: store_byte n)
    qed
    also have "\<dots> = copied m out inp (unat sz)"
      using copied_upwards [of "unat sz" 1 out inp m] n(2) u64_bound [of sz] 1(2) by simp
    finally show ?thesis .
  qed (simp add: memcpy_bytes.simps copied_def in_span_def)
qed

lemma memcpy_copied:
  assumes "unat sz \<le> unat (d - s) \<or> d = s"
  shows "memcpy m d s sz = copied m d s (unat sz)"
proof -
  have "(case memcpy_words m d s sz of (m, out, inp, sz) \<Rightarrow> memcpy_bytes m out inp sz) = copied m d s (unat sz)"
    using assms
  proof (induction m d s sz rule: memcpy_words.induct)
    case (1 m out inp sz)
    show ?case
    proof (cases "WORD_SIZE \<le> sz")
      case True
      then have n: "unat (sz - WORD_SIZE) = unat sz - 8" "8 \<le> unat sz"
        by (simp_all add: WORD_SIZE_def word_le_nat_alt unat_sub_le)
      have pre: "unat (sz - WORD_SIZE) \<le> unat (out + WORD_SIZE - (inp + WORD_SIZE)) \<or> out + WORD_SIZE = inp + WORD_SIZE"
        using 1(2) n by auto
      have "(case memcpy_words m out inp sz of (m, out, inp, sz) \<Rightarrow> memcpy_bytes m out inp sz) =
          copied (copied m out inp 8) (out + WORD_SIZE) (inp + WORD_SIZE) (unat sz - 8)"
        unfolding memcpy_words.simps [of m out inp sz] using 1(1) [OF True pre] n True by (simp add: store64_load64)
      also have "\<dots> = copied m out inp (unat sz)"
        using copied_upwards [of "unat sz" 8 out inp m] n(2) u64_bound [of sz] 1(2) by (simp add: WORD_SIZE_def)
      finally show ?thesis .
    next
      case False
      then show ?thesis using memcpy_bytes_copied [OF 1(2)] by (simp add: memcpy_words.simps)
    qed
  qed
  then show ?thesis by (simp add: memcpy_def)
qed

lemma memmove_bytes_copied:
  "unat sz \<le> unat (s - d) \<Longrightarrow> memmove_bytes m (d + sz) (s + sz) sz = copied m d s (unat sz)"
proof (induction "unat sz" arbitrary: m sz)
  case 0
  then have "sz = 0" by (simp add: unat_eq_0)
  then show ?case by (simp add: memmove_bytes.simps copied_def in_span_def)
next
  case (Suc k)
  then have nz: "sz \<noteq> 0" by auto
  have n: "unat (sz - 1) = k" using Suc(2) nz by (simp add: unat_minus_one)
  have w: "sz - 1 = of_nat k" by (simp add: n [symmetric])
  have eqs: "d + sz - 1 = d + of_nat k" "s + sz - 1 = s + of_nat k" by (simp_all add: w [symmetric])
  have "memmove_bytes m (d + sz) (s + sz) sz =
      memmove_bytes (copied m (d + of_nat k) (s + of_nat k) 1) (d + (sz - 1)) (s + (sz - 1)) (sz - 1)"
    unfolding memmove_bytes.simps [of m "d + sz" "s + sz" sz] Let_def store_byte eqs w using nz by simp
  also have "\<dots> = copied (copied m (d + of_nat k) (s + of_nat k) 1) d s k"
    using Suc(1) [of "sz - 1"] Suc(2,3) n by simp
  also have "\<dots> = copied m d s (k + 1)" by (rule copied_downwards) (use Suc(2,3) u64_bound [of sz] in auto)
  finally show ?case using Suc(2) by simp
qed

lemma memmove_words_copied:
  "unat sz \<le> unat (s - d) \<Longrightarrow>
     (case memmove_words m (d + sz) (s + sz) sz of (m, out, inp, sz) \<Rightarrow> memmove_bytes m out inp sz) = copied m d s (unat sz)"
proof (induction "unat sz" arbitrary: m sz rule: less_induct)
  case less
  show ?case
  proof (cases "WORD_SIZE \<le> sz")
    case True
    define k where "k = unat (sz - WORD_SIZE)"
    have n: "unat sz = k + 8" using True by (simp add: k_def WORD_SIZE_def word_le_nat_alt unat_sub_le)
    have w: "sz - WORD_SIZE = of_nat k" by (simp add: k_def)
    have eqs: "d + sz - WORD_SIZE = d + of_nat k" "s + sz - WORD_SIZE = s + of_nat k" by (simp_all add: w [symmetric])
    have "(case memmove_words m (d + sz) (s + sz) sz of (m, out, inp, sz) \<Rightarrow> memmove_bytes m out inp sz) =
        (case memmove_words (copied m (d + of_nat k) (s + of_nat k) 8) (d + (sz - WORD_SIZE)) (s + (sz - WORD_SIZE)) (sz - WORD_SIZE)
         of (m, out, inp, sz) \<Rightarrow> memmove_bytes m out inp sz)"
      using True by (simp add: memmove_words.simps [of m "d + sz"] Let_def eqs w store64_load64)
    also have "\<dots> = copied (copied m (d + of_nat k) (s + of_nat k) 8) d s k"
      using less(1) [of "sz - WORD_SIZE"] less(2) n k_def by simp
    also have "\<dots> = copied m d s (k + 8)" by (rule copied_downwards) (use less(2) n u64_bound [of sz] in auto)
    finally show ?thesis using n by simp
  next
    case False
    then show ?thesis using memmove_bytes_copied [OF less(2)] by (simp add: memmove_words.simps)
  qed
qed

lemma memmove_copied:
  assumes "unat d + unat sz \<le> 2 ^ 64" and "unat s + unat sz < 2 ^ 64"
  shows "memmove m d s sz = copied m d s (unat sz)"
proof -
  have e: "unat (s + sz) = unat s + unat sz" using assms(2) by (simp add: unat_add_nowrap)
  consider "d = s" | "sz = 0" | "d < s" | "s + sz \<le> d" "\<not> d < s" | "s < d" "d < s + sz" by fastforce
  then show ?thesis
  proof cases
    case 3
    then have "unat (d - s) = 2 ^ 64 + unat d - unat s" by (intro unat_sub_wrap) (simp add: word_less_nat_alt)
    then have "unat sz \<le> unat (d - s)" using assms(2) by simp
    then show ?thesis using 3 memcpy_copied [of sz d s m] by (auto simp: memmove_def copied_def in_span_def)
  next
    case 4
    then have "unat sz \<le> unat (d - s)" using e unat_sub_le [of s d] by (simp add: word_le_nat_alt not_less)
    then show ?thesis using 4 memcpy_copied [of sz d s m] by (auto simp: memmove_def copied_def in_span_def)
  next
    case 5
    then have "unat (s - d) = 2 ^ 64 + unat s - unat d" by (intro unat_sub_wrap) (simp add: word_less_nat_alt)
    then have "unat sz \<le> unat (s - d)" using assms(1) by simp
    from memmove_words_copied [OF this, of m] 5 show ?thesis by (auto simp: memmove_def copied_def in_span_def)
  qed (auto simp: memmove_def copied_def in_span_def)
qed

section \<open>memcmp\<close>

lemma memcmp_loop_equal:
  assumes "i \<le> sz" and "\<And>j. unat i \<le> j \<Longrightarrow> j < unat sz \<Longrightarrow> m (a + of_nat j) = m (b + of_nat j)"
  shows "memcmp_loop m a b sz i = 0"
  using assms
proof (induction "unat sz - unat i" arbitrary: i rule: less_induct)
  case less
  show ?case
  proof (cases "i < sz")
    case True
    then have i: "unat i < unat sz" "unat (i + 1) = unat i + 1"
      using u64_bound [of sz] by (auto simp: word_less_nat_alt unat_add_nowrap)
    have "memcmp_loop m a b sz (i + 1) = 0"
      by (rule less(1)) (use i less(3) in \<open>auto simp: word_le_nat_alt\<close>)
    moreover have "m (a + i) = m (b + i)" using less(3) [of "unat i"] i by simp
    ultimately show ?thesis using True by (simp add: memcmp_loop.simps [of m a b sz i])
  qed (simp add: memcmp_loop.simps)
qed

lemma memcmp_loop_differs:
  assumes "unat i \<le> j" "j < unat sz" and "m (a + of_nat j) \<noteq> m (b + of_nat j)"
    and "\<And>k. unat i \<le> k \<Longrightarrow> k < j \<Longrightarrow> m (a + of_nat k) = m (b + of_nat k)"
  shows "memcmp_loop m a b sz i = uint (m (a + of_nat j)) - uint (m (b + of_nat j))"
  using assms
proof (induction "unat sz - unat i" arbitrary: i rule: less_induct)
  case less
  then have "unat i < unat sz" by simp
  then have lt: "i < sz" and i: "unat (i + 1) = unat i + 1"
    using u64_bound [of sz] by (auto simp: word_less_nat_alt unat_add_nowrap)
  show ?case
  proof (cases "unat i = j")
    case True
    then have "i = of_nat j" by auto
    with lt less(4) show ?thesis unfolding memcmp_loop.simps [of m a b sz i] by simp
  next
    case False
    then have "m (a + i) = m (b + i)" using less(2) less(5) [of "unat i"] by simp
    moreover have "memcmp_loop m a b sz (i + 1) = uint (m (a + of_nat j)) - uint (m (b + of_nat j))"
      by (rule less(1)) (use False less i in auto)
    ultimately show ?thesis using lt by (simp add: memcmp_loop.simps [of m a b sz i])
  qed
qed

section \<open>Properties\<close>

text \<open>
  C24: \<^verbatim>\<open>memset\<close> writes the low byte of its value to exactly the given bytes, for every size and
  alignment: the word-wise and the byte-wise loop together behave as one loop over bytes.
\<close>

theorem memset_correct:
  "memset m d v sz x = (if unat (x - d) < unat sz then word_of_int v else m x)"
  using memset_apply [of m d v sz x] by (simp add: in_span_def)

text \<open>
  C25: \<^verbatim>\<open>memmove\<close> copies the source bytes as they were before the call, for every overlap of source
  and destination, and changes no other byte, although it copies eight bytes at a time.
\<close>

theorem memmove_correct:
  assumes "unat d + unat sz \<le> 2 ^ 64" and "unat s + unat sz < 2 ^ 64"
  shows "memmove m d s sz x = (if unat (x - d) < unat sz then m (s + (x - d)) else m x)"
  using memmove_copied [OF assms] by (simp add: copied_def in_span_def)

theorem memmove_correct_witness:
  "memmove (\<lambda>a. ucast a) 0x1003 0x1000 20 0x1005 = 2 \<and> memmove (\<lambda>a. ucast a) 0x1003 0x1000 20 0x1017 = 0x17"
  using memmove_correct [of "0x1003" 20 "0x1000" "\<lambda>a. ucast a" "0x1005"]
    memmove_correct [of "0x1003" 20 "0x1000" "\<lambda>a. ucast a" "0x1017"] by simp

text \<open>
  C26: \<^verbatim>\<open>memcpy\<close> copies the source bytes and changes nothing else whenever the destination does not
  start inside the source; overlap in the other direction is harmless.
\<close>

theorem memcpy_correct:
  assumes "unat sz \<le> unat (d - s) \<or> d = s"
  shows "memcpy m d s sz x = (if unat (x - d) < unat sz then m (s + (x - d)) else m x)"
  using memcpy_copied [OF assms] by (simp add: copied_def in_span_def)

theorem memcpy_correct_witness:
  "memcpy (\<lambda>a. ucast a) 0x1000 0x1003 20 0x1005 = 8"
  using memcpy_correct [of 20 "0x1000" "0x1003" "\<lambda>a. ucast a" "0x1005"] by simp

text \<open>
  C27: \<^verbatim>\<open>memcmp\<close> returns 0 exactly when all bytes agree, and otherwise the difference of the first
  pair of bytes that differ, as unsigned values.
\<close>

theorem memcmp_correct:
  "(memcmp m a b sz = 0 \<longleftrightarrow> (\<forall>j<unat sz. m (a + of_nat j) = m (b + of_nat j))) \<and>
   (\<forall>j<unat sz. m (a + of_nat j) \<noteq> m (b + of_nat j) \<longrightarrow> (\<forall>k<j. m (a + of_nat k) = m (b + of_nat k)) \<longrightarrow>
      memcmp m a b sz = uint (m (a + of_nat j)) - uint (m (b + of_nat j)))"
proof -
  have diff: "memcmp m a b sz = uint (m (a + of_nat j)) - uint (m (b + of_nat j))"
    if "j < unat sz" "m (a + of_nat j) \<noteq> m (b + of_nat j)" "\<forall>k<j. m (a + of_nat k) = m (b + of_nat k)" for j
    using memcmp_loop_differs [of 0 j sz m a b] that by (simp add: memcmp_def)
  have "memcmp m a b sz = 0" if "\<forall>j<unat sz. m (a + of_nat j) = m (b + of_nat j)"
    using memcmp_loop_equal [of 0 sz m a b] that by (simp add: memcmp_def)
  moreover have "memcmp m a b sz \<noteq> 0" if "\<not> (\<forall>j<unat sz. m (a + of_nat j) = m (b + of_nat j))"
  proof -
    define j where "j = (LEAST j. j < unat sz \<and> m (a + of_nat j) \<noteq> m (b + of_nat j))"
    have j: "j < unat sz" "m (a + of_nat j) \<noteq> m (b + of_nat j)"
      using LeastI_ex [of "\<lambda>j. j < unat sz \<and> m (a + of_nat j) \<noteq> m (b + of_nat j)"] that by (auto simp: j_def)
    moreover have "\<forall>k<j. m (a + of_nat k) = m (b + of_nat k)"
      using not_less_Least [of _ "\<lambda>j. j < unat sz \<and> m (a + of_nat j) \<noteq> m (b + of_nat j)"] j(1) by (auto simp: j_def)
    ultimately show ?thesis using diff by (simp add: word_uint_eq_iff)
  qed
  ultimately show ?thesis using diff by blast
qed

theorem memcmp_correct_witness:
  "memcmp (\<lambda>a. if a = 0x2003 then 7 else 1) 0x1000 0x2000 8 = - 6"
proof -
  let ?m = "\<lambda>a. if a = (0x2003::u64) then (7::u8) else 1"
  have k: "?m (0x1000 + of_nat k) = ?m (0x2000 + of_nat k)" if "k < 3" for k
    using that by (auto simp: numeral_3_eq_3 less_Suc_eq)
  note r = conjunct2 [OF memcmp_correct [of ?m "0x1000" "0x2000" 8], rule_format, of 3]
  have "memcmp ?m 0x1000 0x2000 8 = uint (?m (0x1000 + of_nat 3)) - uint (?m (0x2000 + of_nat 3))"
    by (rule r) (simp, simp, rule k)
  then show ?thesis by simp
qed

end
