(* ===== verification/Kernel_State.thy ===== *)
theory Kernel_State
  imports Byte_Memory
begin

text \<open>
  What the kernel proper (\<^verbatim>\<open>kernel/*.c\<close>) keeps: the task table, the timer registers and the console,
  and the constants of \<^verbatim>\<open>abi.h\<close> and \<^verbatim>\<open>memory.h\<close> it uses. The console is the list of what was sent
  to it: single bytes, and calls of \<^verbatim>\<open>printk\<close> with their format and arguments.

  A function that does not return (\<^verbatim>\<open>kernel_panic\<close>, the idle loop after the last application) ends
  in the value \<open>Panic\<close> or \<open>Halt\<close>; returning to an application is \<open>Resume\<close> with its number.
\<close>

unbundle bit_operations_syntax

section \<open>Constants\<close>

definition NR_log :: u64 where "NR_log = 0"
definition NR_exit :: u64 where "NR_exit = 1"
definition EFAULT :: u64 where "EFAULT = 14"
definition EINVAL :: u64 where "EINVAL = 22"
definition ENOSYS :: u64 where "ENOSYS = 38"
definition LOG_LIMIT :: u64 where "LOG_LIMIT = 256"
definition APP_FIRST :: u64 where "APP_FIRST = 0x41000000"
definition APP_SLOT_SIZE :: u64 where "APP_SLOT_SIZE = 0x20000"
definition APP_IMAGE_SIZE :: u64 where "APP_IMAGE_SIZE = 0x10000"
definition APP_STACK_SIZE :: u64 where "APP_STACK_SIZE = 0x4000"
definition APP_COUNT :: nat where "APP_COUNT = 3"

definition PHYS_OFFSET :: u64 where "PHYS_OFFSET = 0x40000000"
definition RAM_SIZE :: u64 where "RAM_SIZE = 0x08000000"
definition PAGE_OFFSET :: u64 where "PAGE_OFFSET = 0xffffffc000000000"
definition IO_OFFSET :: u64 where "IO_OFFSET = 0xffffff8000000000"

definition kva :: "u64 \<Rightarrow> u64" where
  "kva address = address - PHYS_OFFSET + PAGE_OFFSET"

definition kpa :: "u64 \<Rightarrow> u64" where
  "kpa address = address - PAGE_OFFSET + PHYS_OFFSET"

definition IO_ADDRESS :: "u64 \<Rightarrow> u64" where
  "IO_ADDRESS address = address + IO_OFFSET"

lemma kpa_kva [simp]: "kpa (kva a) = a" and kva_kpa [simp]: "kva (kpa a) = a"
  by (simp_all add: kpa_def kva_def)

section \<open>Tasks\<close>

record pt_regs =
  r_regs :: "u64 list"
  r_sp :: u64
  r_pc :: u64
  r_pstate :: u64

record task_struct =
  t_regs :: pt_regs
  t_image :: u64
  t_size :: u64
  t_stack_bottom :: u64
  t_stack_top :: u64
  t_runnable :: bool
  t_observed :: bool
  t_exit_code :: u64

section \<open>The kernel\<close>

datatype event = Putc u8 | Printk string "u64 list"

record kernel =
  tasks :: "task_struct list"
  current :: nat
  quantum :: u64
  cntp_tval :: u64
  cntp_ctl :: u64
  eoir :: "u64 list"
  console :: "event list"
  phys_mem :: byte_mem

text \<open>What the system registers hold when an exception is taken.\<close>

record sysregs =
  daif :: u64
  CurrentEL :: u64
  esr_el1 :: u64
  far_el1 :: u64
  elr_el1 :: u64
  icc_iar1 :: u64

datatype exit = Resume nat | Panic | Halt

abbreviation NL :: string where "NL \<equiv> [CHR 0x0A]"

definition print :: "string \<Rightarrow> u64 list \<Rightarrow> kernel \<Rightarrow> kernel" where
  "print fmt args k = k\<lparr>console := console k @ [Printk fmt args]\<rparr>"

definition uart_out :: "string \<Rightarrow> kernel \<Rightarrow> kernel" where
  "uart_out text k = k\<lparr>console := console k @ map (\<lambda>c. Putc (of_char c)) text\<rparr>"

definition kernel_panic :: "sysregs \<Rightarrow> kernel \<Rightarrow> kernel \<times> exit" where
  "kernel_panic sr k =
     (print (''PANIC EL1 ESR=%016lx FAR=%016lx ELR=%016lx'' @ NL) [esr_el1 sr, far_el1 sr, elr_el1 sr] k, Panic)"

lemma print_simps [simp]:
  "tasks (print f a k) = tasks k" "current (print f a k) = current k" "quantum (print f a k) = quantum k"
  "cntp_tval (print f a k) = cntp_tval k" "cntp_ctl (print f a k) = cntp_ctl k" "eoir (print f a k) = eoir k"
  "phys_mem (print f a k) = phys_mem k" "console (print f a k) = console k @ [Printk f a]"
  by (simp_all add: print_def)

lemma uart_out_simps [simp]:
  "tasks (uart_out s k) = tasks k" "current (uart_out s k) = current k" "quantum (uart_out s k) = quantum k"
  "cntp_tval (uart_out s k) = cntp_tval k" "cntp_ctl (uart_out s k) = cntp_ctl k" "eoir (uart_out s k) = eoir k"
  "phys_mem (uart_out s k) = phys_mem k" "console (uart_out s k) = console k @ map (\<lambda>c. Putc (of_char c)) s"
  by (simp_all add: uart_out_def)

section \<open>Access to the task table\<close>

definition get_task :: "kernel \<Rightarrow> nat \<Rightarrow> task_struct option" where
  "get_task k i = (if i < length (tasks k) then Some (tasks k ! i) else None)"

definition upd_task :: "(task_struct \<Rightarrow> task_struct) \<Rightarrow> nat \<Rightarrow> kernel \<Rightarrow> kernel option" where
  "upd_task f i k =
     (if i < length (tasks k) then Some (k\<lparr>tasks := (tasks k)[i := f (tasks k ! i)]\<rparr>) else None)"

end
