(* ===== verification/Timer.thy ===== *)
theory Timer
  imports Kernel_State
begin

text \<open>
  The interval timer and its interrupt (\<^verbatim>\<open>kernel/timer.c\<close>). The timer registers are fields of the
  kernel state; \<^verbatim>\<open>icc_iar1_el1\<close> is read from the registers of the exception. The interrupt
  controller is a device of its own: what it answers to a read is a function of the accesses so
  far, an argument of \<^verbatim>\<open>timer_init\<close>, and the accesses are recorded in their order.
\<close>

unbundle bit_operations_syntax

definition TIMER_IRQ :: u64 where "TIMER_IRQ = 30"

definition timer_rearm :: "kernel \<Rightarrow> kernel" where
  "timer_rearm k = k\<lparr>cntp_tval := quantum k, cntp_ctl := 1\<rparr>"

definition timer_stop :: "kernel \<Rightarrow> kernel" where
  "timer_stop k = k\<lparr>cntp_ctl := 0\<rparr>"

text \<open>The interrupt handler: no interrupt pending, a tick, or a panic on any other interrupt.\<close>

datatype irq_result = Spurious | Tick | Unexpected

definition timer_interrupt :: "sysregs \<Rightarrow> kernel \<Rightarrow> kernel \<times> irq_result" where
  "timer_interrupt sr k = (
     let interrupt = icc_iar1 sr in
     if interrupt \<ge> 1020 \<and> interrupt \<le> 1023 then (k, Spurious)
     else if interrupt \<noteq> TIMER_IRQ then (k, Unexpected)
     else let k = timer_rearm k in (k\<lparr>eoir := eoir k @ [interrupt]\<rparr>, Tick))"

section \<open>Initialisation\<close>

datatype access = Read32 u64 u32 | Write32 u64 u32 | Write8 u64 u8 | Write_sysreg string u64

type_synonym device = "access list \<Rightarrow> u64 \<Rightarrow> u32"

definition GICD :: u64 where "GICD = IO_ADDRESS 0x08000000"
definition GICR :: u64 where "GICR = IO_ADDRESS 0x080a0000"
definition GICR_SGI :: u64 where "GICR_SGI = IO_ADDRESS 0x080b0000"

text \<open>\<^verbatim>\<open>while (reg & (1u << n)) {}\<close>\<close>

partial_function (option) poll_clear :: "device \<Rightarrow> u64 \<Rightarrow> nat \<Rightarrow> access list \<Rightarrow> access list option" where
  "poll_clear dev reg n h =
     (let v = dev h reg; h = h @ [Read32 reg v] in if bit v n then poll_clear dev reg n h else Some h)"

definition write32 :: "u64 \<Rightarrow> u32 \<Rightarrow> access list \<Rightarrow> access list" where
  "write32 reg v h = h @ [Write32 reg v]"

text \<open>\<^verbatim>\<open>reg = f(reg)\<close>\<close>

definition modify32 :: "device \<Rightarrow> u64 \<Rightarrow> (u32 \<Rightarrow> u32) \<Rightarrow> access list \<Rightarrow> access list" where
  "modify32 dev reg f h = (let v = dev h reg in h @ [Read32 reg v, Write32 reg (f v)])"

definition gic_init :: "device \<Rightarrow> u64 \<Rightarrow> access list \<Rightarrow> access list option" where
  "gic_init dev sre h = do {
     let h = write32 GICD (push_bit 4 1) h;
     h \<leftarrow> poll_clear dev GICD 31 h;
     let h = modify32 dev (GICR + 0x14) (\<lambda>v. v AND NOT (push_bit 1 1)) h;
     h \<leftarrow> poll_clear dev (GICR + 0x14) 2 h;
     let h = write32 (GICR_SGI + 0x80) (push_bit (unat TIMER_IRQ) 1) h;
     let h = modify32 dev (GICR_SGI + 0xc04) (\<lambda>v. v AND NOT (push_bit ((unat TIMER_IRQ - 16) * 2) 2)) h;
     let h = h @ [Write8 (GICR_SGI + 0x400 + TIMER_IRQ) 0x80];
     let h = write32 (GICR_SGI + 0x100) (push_bit (unat TIMER_IRQ) 1) h;
     h \<leftarrow> poll_clear dev GICR 3 h;
     let h = modify32 dev GICD (\<lambda>v. v OR 2) h;
     h \<leftarrow> poll_clear dev GICD 31 h;
     Some (h @ [Write_sysreg ''icc_sre_el1'' (sre OR 1), Write_sysreg ''icc_pmr_el1'' 0xff,
       Write_sysreg ''icc_bpr1_el1'' 0, Write_sysreg ''icc_ctlr_el1'' 0, Write_sysreg ''icc_igrpen1_el1'' 1])
   }"

text \<open>\<open>None\<close> in the last component is a normal return.\<close>

definition timer_init ::
  "device \<Rightarrow> u64 \<Rightarrow> u64 \<Rightarrow> sysregs \<Rightarrow> access list \<Rightarrow> kernel \<Rightarrow> (access list \<times> kernel \<times> exit option) option" where
  "timer_init dev sre cntfrq sr h k = do {
     h \<leftarrow> gic_init dev sre h;
     let k = k\<lparr>quantum := cntfrq div 100\<rparr>;
     if quantum k = 0 \<or> quantum k > 0x7fffffff then
       (case kernel_panic sr k of (k, e) \<Rightarrow> Some (h, k, Some e))
     else
       Some (h, timer_rearm (print (''TIMER frequency=%016lx quantum=%016lx'' @ NL) [cntfrq, quantum k] k), None)
   }"

section \<open>Lemmas\<close>

lemma timer_rearm_simps [simp]:
  "tasks (timer_rearm k) = tasks k" "current (timer_rearm k) = current k" "quantum (timer_rearm k) = quantum k"
  "cntp_tval (timer_rearm k) = quantum k" "cntp_ctl (timer_rearm k) = 1" "eoir (timer_rearm k) = eoir k"
  "console (timer_rearm k) = console k" "phys_mem (timer_rearm k) = phys_mem k"
  by (simp_all add: timer_rearm_def)

lemma timer_stop_simps [simp]:
  "tasks (timer_stop k) = tasks k" "current (timer_stop k) = current k" "quantum (timer_stop k) = quantum k"
  "cntp_ctl (timer_stop k) = 0" "eoir (timer_stop k) = eoir k"
  "console (timer_stop k) = console k" "phys_mem (timer_stop k) = phys_mem k"
  by (simp_all add: timer_stop_def)

text \<open>
  A device answers when every status it is asked for is clear after finitely many reads. Polling
  then ends; \<open>n\<close> bounds the reads.
\<close>

fun answers :: "device \<Rightarrow> u64 \<Rightarrow> nat \<Rightarrow> nat \<Rightarrow> access list \<Rightarrow> bool" where
  "answers dev reg b 0 h \<longleftrightarrow> False"
| "answers dev reg b (Suc n) h \<longleftrightarrow> \<not> bit (dev h reg) b \<or> answers dev reg b n (h @ [Read32 reg (dev h reg)])"

lemma poll_clear_returns:
  "answers dev reg b n h \<Longrightarrow>
     \<exists>vs v. poll_clear dev reg b h = Some (h @ map (Read32 reg) vs @ [Read32 reg v]) \<and> \<not> bit v b \<and> length vs < n"
proof (induction n arbitrary: h)
  case (Suc n)
  show ?case
  proof (cases "bit (dev h reg) b")
    case True
    then obtain vs v where "poll_clear dev reg b (h @ [Read32 reg (dev h reg)]) =
        Some ((h @ [Read32 reg (dev h reg)]) @ map (Read32 reg) vs @ [Read32 reg v])" "\<not> bit v b" "length vs < n"
      using Suc.IH [of "h @ [Read32 reg (dev h reg)]"] Suc.prems by auto
    then show ?thesis using True
      by (intro exI [of _ "dev h reg # vs"] exI [of _ v]) (simp add: poll_clear.simps [of dev reg b h] Let_def)
  next
    case False
    then show ?thesis
      by (intro exI [of _ "[]"] exI [of _ "dev h reg"]) (simp add: poll_clear.simps [of dev reg b h] Let_def)
  qed
qed simp

lemma poll_clear_ends:
  "(\<And>h. answers dev reg b n h) \<Longrightarrow> \<exists>h'. poll_clear dev reg b h = Some h'"
  using poll_clear_returns [of dev reg b n h] by auto

lemma gic_init_returns:
  assumes "\<And>h reg b. answers dev reg b n h"
  shows "\<exists>h'. gic_init dev sre h = Some h'"
proof -
  have p: "\<exists>h'. poll_clear dev reg b h = Some h'" for reg b h using poll_clear_ends assms by blast
  then obtain f where "\<And>reg b h. poll_clear dev reg b h = Some (f reg b h)" by metis
  then show ?thesis by (simp add: gic_init_def Let_def)
qed

end
