(* ===== verification/Task.thy ===== *)
theory Task
  imports Timer String_Lib
begin

text \<open>
  The tasks of \<^verbatim>\<open>kernel/task.c\<close> and \<^verbatim>\<open>kernel/task.h\<close>: round-robin scheduling, the exception handler
  \<^verbatim>\<open>trap\<close> with its two system calls, and the loading of the applications.
\<close>

unbundle bit_operations_syntax

section \<open>Scheduling\<close>

text \<open>The loop of \<^verbatim>\<open>next_runnable\<close> over the remaining offsets; its result is -1 when no task can run.\<close>

fun next_runnable_loop :: "task_struct list \<Rightarrow> nat \<Rightarrow> nat list \<Rightarrow> int option" where
  "next_runnable_loop ts cur [] = Some (- 1)"
| "next_runnable_loop ts cur (offset # offsets) = (
     let n = (cur + offset) mod APP_COUNT in
     if n < length ts then
       if t_runnable (ts ! n) then Some (int n) else next_runnable_loop ts cur offsets
     else None)"

definition next_runnable :: "task_struct list \<Rightarrow> nat \<Rightarrow> int option" where
  "next_runnable ts cur = next_runnable_loop ts cur [1..<APP_COUNT + 1]"

definition schedule :: "sysregs \<Rightarrow> kernel \<Rightarrow> (kernel \<times> exit) option" where
  "schedule sr k = do {
     n \<leftarrow> next_runnable (tasks k) (current k);
     if n \<ge> 0 then Some (timer_rearm (k\<lparr>current := nat n\<rparr>), Resume (nat n))
     else
       let k = timer_stop k in
       if cntp_ctl k AND 1 \<noteq> 0 then Some (kernel_panic sr k)
       else Some (print (''ALL APPS DONE'' @ NL) [] k, Halt)
   }"

section \<open>System calls\<close>

definition contains :: "u64 \<Rightarrow> u64 \<Rightarrow> u64 \<Rightarrow> u64 \<Rightarrow> bool" where
  "contains start sz pointer len \<longleftrightarrow> pointer \<ge> start \<and> pointer - start \<le> sz \<and> len \<le> sz - (pointer - start)"

definition task_prefix :: "kernel \<Rightarrow> kernel" where
  "task_prefix k = uart_out (''[app '' @ [char_of (48 + current k)] @ ''] '') k"

text \<open>The applications' addresses are physical: the user mapping is the identity.\<close>

definition uart_bytes :: "u64 \<Rightarrow> u64 \<Rightarrow> kernel \<Rightarrow> kernel" where
  "uart_bytes pointer len k =
     k\<lparr>console := console k @ map (\<lambda>i. Putc (phys_mem k (pointer + of_nat i))) [0..<unat len]\<rparr>"

definition sys_log :: "task_struct \<Rightarrow> u64 \<Rightarrow> u64 \<Rightarrow> kernel \<Rightarrow> kernel \<times> u64" where
  "sys_log task pointer len k =
     (if len > LOG_LIMIT then (k, - EINVAL)
      else if len = 0 then (k, 0)
      else if \<not> contains (t_image task) (t_size task) pointer len \<and>
              \<not> contains (t_stack_bottom task) APP_STACK_SIZE pointer len then (k, - EFAULT)
      else (uart_bytes pointer len (task_prefix k), len))"

section \<open>The exception handler\<close>

definition reg :: "pt_regs \<Rightarrow> nat \<Rightarrow> u64 option" where
  "reg r i = (if i < length (r_regs r) then Some (r_regs r ! i) else None)"

definition set_x0 :: "u64 \<Rightarrow> task_struct \<Rightarrow> task_struct" where
  "set_x0 v t = t\<lparr>t_regs := (t_regs t)\<lparr>r_regs := (r_regs (t_regs t))[0 := v]\<rparr>\<rparr>"

text \<open>The part of \<^verbatim>\<open>trap\<close> after the exception is known to be a supervisor call.\<close>

definition syscall :: "sysregs \<Rightarrow> pt_regs \<Rightarrow> kernel \<Rightarrow> (kernel \<times> exit) option" where
  "syscall sr regs k = do {
     task \<leftarrow> get_task k (current k);
     x0 \<leftarrow> reg regs 0;
     x1 \<leftarrow> reg regs 1;
     x8 \<leftarrow> reg regs 8;
     if x8 = NR_log then do {
       let (k, r) = sys_log task x0 x1 k;
       k \<leftarrow> upd_task (set_x0 r) (current k) k;
       Some (k, Resume (current k))
     }
     else if x8 = NR_exit then do {
       k \<leftarrow> upd_task (\<lambda>t. t\<lparr>t_exit_code := x0\<rparr>) (current k) k;
       let k = print (''[app %u] EXIT status=%ld'' @ NL) [of_nat (current k), x0] k;
       k \<leftarrow> upd_task (\<lambda>t. t\<lparr>t_runnable := False\<rparr>) (current k) k;
       schedule sr k
     }
     else do {
       k \<leftarrow> upd_task (set_x0 (- ENOSYS)) (current k) k;
       Some (k, Resume (current k))
     }
   }"

text \<open>The steps of \<^verbatim>\<open>trap\<close> after its checks: saving the frame, then acting on the cause.\<close>

definition save_frame :: "sysregs \<Rightarrow> pt_regs \<Rightarrow> kernel \<Rightarrow> kernel option" where
  "save_frame sr regs k = do {
     k \<leftarrow> upd_task (\<lambda>t. t\<lparr>t_regs := regs\<rparr>) (current k) k;
     task \<leftarrow> get_task k (current k);
     if \<not> t_observed task then
       upd_task (\<lambda>t. t\<lparr>t_observed := True\<rparr>) (current k)
         (print (''[app %u] TRAP origin=%016lx handler=%016lx'' @ NL)
           [of_nat (current k), r_pstate regs AND 0x1f, drop_bit 2 (CurrentEL sr)] k)
     else Some k
   }"

definition dispatch :: "sysregs \<Rightarrow> pt_regs \<Rightarrow> bool \<Rightarrow> kernel \<Rightarrow> (kernel \<times> exit) option" where
  "dispatch sr regs irq k =
     (if irq then
        (case timer_interrupt sr k of
           (k, Spurious) \<Rightarrow> Some (k, Resume (current k))
         | (k, Unexpected) \<Rightarrow> Some (kernel_panic sr k)
         | (k, Tick) \<Rightarrow> schedule sr k)
      else if drop_bit 26 (esr_el1 sr) \<noteq> 0x15 \<or> esr_el1 sr AND 0xffff \<noteq> 0 then do {
        k \<leftarrow> upd_task (\<lambda>t. t\<lparr>t_runnable := False\<rparr>) (current k)
              (print (''[app %u] FAULT ESR=%016lx FAR=%016lx ELR=%016lx'' @ NL)
                [of_nat (current k), esr_el1 sr, far_el1 sr, r_pc regs] k);
        schedule sr k
      }
      else syscall sr regs k)"

definition trap :: "sysregs \<Rightarrow> pt_regs \<Rightarrow> bool \<Rightarrow> kernel \<Rightarrow> (kernel \<times> exit) option" where
  "trap sr regs irq k = do {
     task \<leftarrow> get_task k (current k);
     if r_pstate regs AND 0x1f \<noteq> 0 \<or> daif sr AND 0x80 = 0 \<or> r_sp regs < t_stack_bottom task \<or>
        r_sp regs > t_stack_top task \<or> r_sp regs AND 15 \<noteq> 0 then Some (kernel_panic sr k)
     else do {
       k \<leftarrow> save_frame sr regs k;
       dispatch sr regs irq k
     }
   }"

section \<open>Loading the applications\<close>

text \<open>
  The kernel writes to physical memory through its linear map: a function on the memory as the
  kernel addresses it, applied to physical memory.
\<close>

definition via_kva :: "(byte_mem \<Rightarrow> byte_mem) \<Rightarrow> byte_mem \<Rightarrow> byte_mem" where
  "via_kva f m = (\<lambda>p. f (\<lambda>v. m (kpa v)) (kva p))"

fun copy_image :: "u64 \<Rightarrow> u8 list \<Rightarrow> byte_mem \<Rightarrow> byte_mem" where
  "copy_image destination [] m = m"
| "copy_image destination (b # bs) m = copy_image (destination + 1) bs (m(destination := b))"

fun verify_image :: "u64 \<Rightarrow> u8 list \<Rightarrow> byte_mem \<Rightarrow> bool" where
  "verify_image destination [] m \<longleftrightarrow> True"
| "verify_image destination (b # bs) m \<longleftrightarrow> m destination = b \<and> verify_image (destination + 1) bs m"

definition load_app :: "sysregs \<Rightarrow> u8 list \<Rightarrow> nat \<Rightarrow> kernel \<Rightarrow> (kernel \<times> exit option) option" where
  "load_app sr payload i k = do {
     let image = APP_FIRST + of_nat i * APP_SLOT_SIZE;
     let sz = of_nat (length payload);
     let stack_top = image + APP_SLOT_SIZE;
     let stack_bottom = stack_top - APP_STACK_SIZE;
     k \<leftarrow> upd_task (\<lambda>t. t\<lparr>t_image := image, t_size := sz, t_stack_bottom := stack_bottom, t_stack_top := stack_top\<rparr>) i k;
     if sz = 0 \<or> sz > APP_IMAGE_SIZE \<or> image + sz > stack_bottom then
       (case kernel_panic sr k of (k, e) \<Rightarrow> Some (k, Some e))
     else do {
       let k = k\<lparr>phys_mem := via_kva (copy_image (kva image) payload) (phys_mem k)\<rparr>;
       if \<not> verify_image (kva image) payload (\<lambda>v. phys_mem k (kpa v)) then
         (case kernel_panic sr k of (k, e) \<Rightarrow> Some (k, Some e))
       else do {
         let k = k\<lparr>phys_mem := via_kva (\<lambda>m. memset m (kva stack_bottom) 0 APP_STACK_SIZE) (phys_mem k)\<rparr>;
         k \<leftarrow> upd_task (\<lambda>t. t\<lparr>t_regs := (t_regs t)\<lparr>r_pc := image, r_sp := stack_top, r_pstate := 0x340\<rparr>,
                              t_runnable := True\<rparr>) i k;
         Some (print (''LOADED app=%u image=%016lx stack=%016lx copy=OK'' @ NL) [of_nat i, image, stack_top] k, None)
       }
     }
   }"

fun load_apps :: "sysregs \<Rightarrow> (nat \<times> u8 list) list \<Rightarrow> kernel \<Rightarrow> (kernel \<times> exit option) option" where
  "load_apps sr [] k = Some (k, None)"
| "load_apps sr ((i, payload) # rest) k = do {
     (k, e) \<leftarrow> load_app sr payload i k;
     case e of None \<Rightarrow> load_apps sr rest k | Some e \<Rightarrow> Some (k, Some e)
   }"

definition start_apps ::
  "device \<Rightarrow> u64 \<Rightarrow> u64 \<Rightarrow> sysregs \<Rightarrow> u8 list list \<Rightarrow> access list \<Rightarrow> kernel \<Rightarrow> (access list \<times> kernel \<times> exit) option" where
  "start_apps dev sre cntfrq sr payloads h k = do {
     (k, e) \<leftarrow> load_apps sr (enumerate 0 (take APP_COUNT payloads)) k;
     case e of
       Some e \<Rightarrow> Some (h, k, e)
     | None \<Rightarrow> do {
         (h, k, e) \<leftarrow> timer_init dev sre cntfrq sr h k;
         case e of Some e \<Rightarrow> Some (h, k, e) | None \<Rightarrow> Some (h, k, Resume 0)
       }
   }"

end
