(* ===== verification/Task_Props.thy ===== *)
theory Task_Props
  imports Task
begin

text \<open>
  The invariant of the task table, its preservation by every exception, and the properties of the
  scheduler, the system calls and the loader.
\<close>

section \<open>The invariant\<close>

lemmas app_layout = APP_FIRST_def APP_SLOT_SIZE_def APP_IMAGE_SIZE_def APP_STACK_SIZE_def

definition task_ok :: "nat \<Rightarrow> task_struct \<Rightarrow> bool" where
  "task_ok i t \<longleftrightarrow>
     t_image t = APP_FIRST + of_nat i * APP_SLOT_SIZE \<and> 0 < t_size t \<and> t_size t \<le> APP_IMAGE_SIZE \<and>
     t_stack_top t = t_image t + APP_SLOT_SIZE \<and> t_stack_bottom t = t_stack_top t - APP_STACK_SIZE \<and>
     length (r_regs (t_regs t)) = 31"

definition kernel_ok :: "kernel \<Rightarrow> bool" where
  "kernel_ok k \<longleftrightarrow> length (tasks k) = APP_COUNT \<and> (\<forall>i<APP_COUNT. task_ok i (tasks k ! i)) \<and> current k < APP_COUNT"

lemma task_ok_simps [simp]:
  "length (r_regs r) = 31 \<Longrightarrow> task_ok i t \<Longrightarrow> task_ok i (t\<lparr>t_regs := r\<rparr>)"
  "task_ok i (t\<lparr>t_observed := b\<rparr>) \<longleftrightarrow> task_ok i t" "task_ok i (t\<lparr>t_runnable := b\<rparr>) \<longleftrightarrow> task_ok i t"
  "task_ok i (t\<lparr>t_exit_code := e\<rparr>) \<longleftrightarrow> task_ok i t" "task_ok i (set_x0 v t) \<longleftrightarrow> task_ok i t"
  by (simp_all add: task_ok_def set_x0_def)

lemma set_x0_simps [simp]: "t_runnable (set_x0 v t) = t_runnable t" "t_observed (set_x0 v t) = t_observed t"
  by (simp_all add: set_x0_def)

text \<open>What an operation on one task leaves alone.\<close>

definition only_task :: "nat \<Rightarrow> kernel \<Rightarrow> kernel \<Rightarrow> bool" where
  "only_task i k k' \<longleftrightarrow> length (tasks k') = length (tasks k) \<and> (\<forall>j. j \<noteq> i \<longrightarrow> tasks k' ! j = tasks k ! j) \<and>
     phys_mem k' = phys_mem k \<and> quantum k' = quantum k"

lemma only_task_refl [simp]: "only_task i k k"
  by (simp add: only_task_def)

lemma only_task_trans: "only_task i k k' \<Longrightarrow> only_task i k' k'' \<Longrightarrow> only_task i k k''"
  by (simp add: only_task_def)

lemma upd_task_ok:
  assumes "i < length (tasks k)"
  obtains k' where "upd_task f i k = Some k'" "tasks k' ! i = f (tasks k ! i)" "only_task i k k'" "current k' = current k"
    "cntp_ctl k' = cntp_ctl k" "console k' = console k" "tasks k' = (tasks k)[i := f (tasks k ! i)]"
  using assms by (simp add: upd_task_def only_task_def)

lemma upd_task_inv:
  "kernel_ok k \<Longrightarrow> upd_task f i k = Some k' \<Longrightarrow> (\<And>t. task_ok i t \<Longrightarrow> task_ok i (f t)) \<Longrightarrow> kernel_ok k'"
  by (auto simp: upd_task_def kernel_ok_def nth_list_update split: if_splits)

lemma kernel_ok_frame:
  "kernel_ok k \<Longrightarrow> tasks k' = tasks k \<Longrightarrow> current k' = current k \<Longrightarrow> kernel_ok k'"
  by (simp add: kernel_ok_def)

text \<open>A kernel that is well formed, for the witnesses below.\<close>

definition sample_regs :: "nat \<Rightarrow> pt_regs" where
  "sample_regs i = \<lparr>r_regs = replicate 31 0, r_sp = APP_FIRST + of_nat (Suc i) * APP_SLOT_SIZE,
     r_pc = APP_FIRST + of_nat i * APP_SLOT_SIZE, r_pstate = 0x340\<rparr>"

definition sample_task :: "nat \<Rightarrow> task_struct" where
  "sample_task i = \<lparr>t_regs = sample_regs i, t_image = APP_FIRST + of_nat i * APP_SLOT_SIZE, t_size = 64,
     t_stack_bottom = APP_FIRST + of_nat (Suc i) * APP_SLOT_SIZE - APP_STACK_SIZE,
     t_stack_top = APP_FIRST + of_nat (Suc i) * APP_SLOT_SIZE, t_runnable = True, t_observed = False, t_exit_code = 0\<rparr>"

definition sample_kernel :: kernel where
  "sample_kernel = \<lparr>tasks = map sample_task [0..<APP_COUNT], current = 0, quantum = 1000, cntp_tval = 1000, cntp_ctl = 1,
     eoir = [], console = [], phys_mem = (\<lambda>_. 0)\<rparr>"

lemma sample_task_ok: "task_ok i (sample_task i)"
proof -
  have "of_nat (Suc i) * APP_SLOT_SIZE = of_nat i * APP_SLOT_SIZE + APP_SLOT_SIZE" by (simp add: distrib_right)
  then show ?thesis by (simp add: task_ok_def sample_task_def sample_regs_def APP_IMAGE_SIZE_def)
qed

lemma sample_kernel_ok: "kernel_ok sample_kernel"
  by (simp add: kernel_ok_def sample_kernel_def sample_task_ok APP_COUNT_def)

section \<open>Scheduling\<close>

lemma less_APP_COUNT: "i < APP_COUNT \<longleftrightarrow> i = 0 \<or> i = 1 \<or> i = 2"
  by (auto simp: APP_COUNT_def)

lemma upt_APP_COUNT: "[1..<APP_COUNT + 1] = [1, 2, 3]"
  by (simp add: APP_COUNT_def upt_rec)

lemma next_runnable_cases:
  assumes "length ts = APP_COUNT" and "cur < APP_COUNT"
  obtains (none) "next_runnable ts cur = Some (- 1)" "\<And>i. i < APP_COUNT \<Longrightarrow> \<not> t_runnable (ts ! i)"
  | (some) d where "1 \<le> d" "d \<le> APP_COUNT" "next_runnable ts cur = Some (int ((cur + d) mod APP_COUNT))"
      "t_runnable (ts ! ((cur + d) mod APP_COUNT))"
      "\<And>d'. 1 \<le> d' \<Longrightarrow> d' < d \<Longrightarrow> \<not> t_runnable (ts ! ((cur + d') mod APP_COUNT))"
proof -
  let ?r = "\<lambda>d. t_runnable (ts ! ((cur + d) mod APP_COUNT))"
  have ix: "(cur + d) mod APP_COUNT < length ts" for d using assms(1) by (simp add: APP_COUNT_def)
  have loop: "next_runnable ts cur = (if ?r 1 then Some (int ((cur + 1) mod APP_COUNT))
      else if ?r 2 then Some (int ((cur + 2) mod APP_COUNT))
      else if ?r 3 then Some (int ((cur + 3) mod APP_COUNT)) else Some (- 1))"
    unfolding next_runnable_def upt_APP_COUNT using ix [of 1] ix [of 2] ix [of 3] by (simp add: Let_def)
  have below: "\<not> ?r d'" if "1 \<le> d'" "d' < Suc d" "\<And>e. e \<in> {1..d} \<Longrightarrow> \<not> ?r e" for d d' using that by simp
  have atMost: "{1..0::nat} = {}" "{1..1::nat} = {1}" "{1..2::nat} = {1, 2}" "{1..3::nat} = {1, 2, 3}" by auto
  have le: "1 \<le> APP_COUNT" "Suc 0 \<le> APP_COUNT" "2 \<le> APP_COUNT" "3 \<le> APP_COUNT" by (simp_all add: APP_COUNT_def)
  show thesis
  proof (cases "?r 1")
    case True
    then show thesis by (intro some [of 1]) (simp_all add: loop le)
  next
    case n1: False
    show thesis
    proof (cases "?r 2")
      case True
      show thesis using n1 True below [of _ 1, unfolded atMost] le by (intro some [of 2]) (simp_all add: loop)
    next
      case n2: False
      show thesis
      proof (cases "?r 3")
        case True
        have "\<not> ?r d'" if "1 \<le> d'" "d' < 3" for d'
          using that n1 n2 by (cases "d' = 1") (simp_all add: numeral_2_eq_2 numeral_3_eq_3 le_less_Suc_eq less_Suc_eq)
        with n1 n2 True show thesis using le by (intro some [of 3]) (simp_all add: loop)
      next
        case False
        have "\<exists>d\<in>{1, 2, 3}. i = (cur + d) mod APP_COUNT" if "i < APP_COUNT" for i
          using that assms(2) unfolding less_APP_COUNT by (auto simp: APP_COUNT_def)
        then have "\<not> t_runnable (ts ! i)" if "i < APP_COUNT" for i using that n1 n2 False by fastforce
        then show thesis using n1 n2 False by (intro none) (simp_all add: loop)
      qed
    qed
  qed
qed

lemma schedule_cases:
  assumes "kernel_ok k"
  obtains (halt) k' where "schedule sr k = Some (k', Halt)" "\<And>i. i < APP_COUNT \<Longrightarrow> \<not> t_runnable (tasks k ! i)"
      "tasks k' = tasks k" "phys_mem k' = phys_mem k" "cntp_ctl k' = 0" "quantum k' = quantum k" "current k' = current k"
  | (resume) k' d where "1 \<le> d" "d \<le> APP_COUNT" "schedule sr k = Some (k', Resume ((current k + d) mod APP_COUNT))"
      "current k' = (current k + d) mod APP_COUNT" "tasks k' = tasks k" "phys_mem k' = phys_mem k"
      "quantum k' = quantum k" "cntp_ctl k' = 1" "cntp_tval k' = quantum k"
      "t_runnable (tasks k ! ((current k + d) mod APP_COUNT))"
      "\<And>d'. 1 \<le> d' \<Longrightarrow> d' < d \<Longrightarrow> \<not> t_runnable (tasks k ! ((current k + d') mod APP_COUNT))" "kernel_ok k'"
      "next_runnable (tasks k) (current k) = Some (int ((current k + d) mod APP_COUNT))"
proof -
  have l: "length (tasks k) = APP_COUNT" "current k < APP_COUNT" using assms by (simp_all add: kernel_ok_def)
  from l show thesis
  proof (cases rule: next_runnable_cases)
    case none
    then have "schedule sr k = Some (print (''ALL APPS DONE'' @ NL) [] (timer_stop k), Halt)"
      by (simp add: schedule_def Let_def)
    then show thesis by (rule halt) (use none in simp_all)
  next
    case (some d)
    let ?n = "(current k + d) mod APP_COUNT" and ?k = "timer_rearm (k\<lparr>current := (current k + d) mod APP_COUNT\<rparr>)"
    have "schedule sr k = Some (?k, Resume ?n)" using some(3) by (simp add: schedule_def nat_mod_distrib)
    moreover have "kernel_ok ?k" using assms by (simp add: kernel_ok_def APP_COUNT_def)
    ultimately show thesis using some by (intro resume [of d ?k]) simp_all
  qed
qed

section \<open>Exceptions\<close>

text \<open>The condition on the frame that \<^verbatim>\<open>trap\<close> checks first.\<close>

definition frame_ok :: "sysregs \<Rightarrow> pt_regs \<Rightarrow> task_struct \<Rightarrow> bool" where
  "frame_ok sr regs t \<longleftrightarrow> r_pstate regs AND 0x1f = 0 \<and> daif sr AND 0x80 \<noteq> 0 \<and> t_stack_bottom t \<le> r_sp regs \<and>
     r_sp regs \<le> t_stack_top t \<and> r_sp regs AND 15 = 0"

text \<open>
  What an exception may do: the state stays well formed, only the interrupted task and the choice
  of the current one change, no task becomes runnable, and the task that is resumed is the interrupted one or the next in turn, and runnable.
\<close>

definition trap_effect :: "kernel \<Rightarrow> kernel \<Rightarrow> exit \<Rightarrow> bool" where
  "trap_effect k k' e \<longleftrightarrow> kernel_ok k' \<and> only_task (current k) k k' \<and>
     (\<forall>i<APP_COUNT. t_runnable (tasks k' ! i) \<longrightarrow> t_runnable (tasks k ! i)) \<and>
     (case e of
        Resume j \<Rightarrow> j = current k' \<and> t_runnable (tasks k' ! j) \<and>
          (j = current k \<or> next_runnable (tasks k') (current k) = Some (int j))
      | Halt \<Rightarrow> (\<forall>i<APP_COUNT. \<not> t_runnable (tasks k' ! i)) \<and> cntp_ctl k' = 0
      | Panic \<Rightarrow> True)"

lemma schedule_effect:
  assumes ok: "kernel_ok k" and sub: "only_task (current k0) k0 k" "current k = current k0"
    "\<And>i. i < APP_COUNT \<Longrightarrow> t_runnable (tasks k ! i) \<Longrightarrow> t_runnable (tasks k0 ! i)"
  obtains k' e where "schedule sr k = Some (k', e)" "trap_effect k0 k' e" "e \<noteq> Panic"
  using ok
proof (cases rule: schedule_cases [where sr = sr])
  case (halt k')
  have "kernel_ok k'" using kernel_ok_frame [OF ok halt(3,7)] .
  with halt sub show thesis
    by (intro that [OF halt(1)]) (simp_all add: trap_effect_def only_task_def)
next
  case (resume k' d)
  then show thesis using sub
    by (intro that [OF resume(3)]) (simp_all add: trap_effect_def only_task_def)
qed

text \<open>The state between the entry checks and the dispatch.\<close>

definition entered :: "kernel \<Rightarrow> pt_regs \<Rightarrow> kernel \<Rightarrow> bool" where
  "entered k0 regs k \<longleftrightarrow> kernel_ok k \<and> only_task (current k0) k0 k \<and> current k = current k0 \<and>
     t_regs (tasks k ! current k) = regs \<and>
     (\<forall>i<APP_COUNT. t_runnable (tasks k ! i) = t_runnable (tasks k0 ! i)) \<and>
     t_image (tasks k ! current k) = t_image (tasks k0 ! current k0) \<and>
     t_size (tasks k ! current k) = t_size (tasks k0 ! current k0) \<and>
     t_stack_bottom (tasks k ! current k) = t_stack_bottom (tasks k0 ! current k0)"

lemma enteredD:
  assumes "entered k0 regs k"
  shows "kernel_ok k" "only_task (current k0) k0 k" "current k = current k0" "current k < length (tasks k)"
    "\<And>i. i < APP_COUNT \<Longrightarrow> t_runnable (tasks k ! i) = t_runnable (tasks k0 ! i)"
  using assms by (auto simp: entered_def kernel_ok_def)

lemma same_task_effect:
  assumes ok: "kernel_ok k" and o: "only_task (current k0) k0 k" "current k = current k0"
    and r: "\<And>i. i < APP_COUNT \<Longrightarrow> t_runnable (tasks k ! i) = t_runnable (tasks k0 ! i)" "t_runnable (tasks k0 ! current k0)"
  shows "trap_effect k0 k (Resume (current k))"
proof -
  have "current k0 < APP_COUNT" using ok o(2) by (simp add: kernel_ok_def)
  then show ?thesis using assms by (simp add: trap_effect_def)
qed

lemma stopped_effect:
  assumes e: "entered k0 regs k" and f: "upd_task (\<lambda>t. t\<lparr>t_runnable := False\<rparr>) (current k) k' = Some k''"
    and k': "kernel_ok k'" "only_task (current k0) k0 k'" "current k' = current k0"
      "\<And>i. i < APP_COUNT \<Longrightarrow> t_runnable (tasks k' ! i) = t_runnable (tasks k0 ! i)"
  obtains k3 x where "schedule sr k'' = Some (k3, x)" "trap_effect k0 k3 x" "x \<noteq> Panic"
proof (rule schedule_effect [of k'' k0 sr])
  note d = enteredD [OF e]
  show "kernel_ok k''" by (rule upd_task_inv [OF k'(1) f]) simp
  have c: "current k0 < length (tasks k')" using k'(1,3) by (simp add: kernel_ok_def)
  have ts: "tasks k'' = (tasks k')[current k0 := (tasks k' ! current k0)\<lparr>t_runnable := False\<rparr>]" "phys_mem k'' = phys_mem k'"
      "quantum k'' = quantum k'"
    using f d(3) c by (auto simp: upd_task_def)
  show "only_task (current k0) k0 k''" using k'(2) ts by (auto simp: only_task_def)
  show "current k'' = current k0" using f k'(3) by (auto simp: upd_task_def split: if_splits)
  show "t_runnable (tasks k0 ! i)" if "i < APP_COUNT" "t_runnable (tasks k'' ! i)" for i
    using that k'(4) c ts(1) by (cases "i = current k0") simp_all
qed (rule that)

lemma sys_log_frame:
  "sys_log t p n k = (k', r) \<Longrightarrow> tasks k' = tasks k \<and> current k' = current k \<and> phys_mem k' = phys_mem k \<and>
     quantum k' = quantum k \<and> cntp_ctl k' = cntp_ctl k"
  by (auto simp: sys_log_def uart_bytes_def task_prefix_def split: if_splits)

lemma result_effect:
  assumes e: "entered k0 regs k" and run: "t_runnable (tasks k0 ! current k0)" and u: "upd_task (set_x0 r) (current k) k1 = Some k2"
    and k1: "tasks k1 = tasks k" "current k1 = current k" "phys_mem k1 = phys_mem k" "quantum k1 = quantum k"
  shows "trap_effect k0 k2 (Resume (current k2))"
proof -
  note d = enteredD [OF e]
  have ok2: "kernel_ok k2" by (rule upd_task_inv [OF kernel_ok_frame [OF d(1) k1(1,2)] u]) simp
  have ts: "tasks k2 = (tasks k)[current k0 := set_x0 r (tasks k ! current k0)]" "current k2 = current k0"
      "phys_mem k2 = phys_mem k" "quantum k2 = quantum k"
    using u k1 d(3,4) by (auto simp: upd_task_def)
  have "only_task (current k0) k0 k2" using d(2) ts by (auto simp: only_task_def)
  moreover have "t_runnable (tasks k2 ! i) = t_runnable (tasks k0 ! i)" if "i < APP_COUNT" for i
    using d(3,4,5) that ts(1) by (cases "i = current k0") auto
  ultimately show ?thesis using same_task_effect [OF ok2 _ ts(2) _ run] by blast
qed

lemma exit_effect:
  assumes e: "entered k0 regs k" and len: "length (r_regs regs) = 31" and nr: "r_regs regs ! 8 = NR_exit"
  obtains k' x where "syscall sr regs k = Some (k', x)" "trap_effect k0 k' x" "x \<noteq> Panic"
proof -
  note d = enteredD [OF e]
  let ?x0 = "r_regs regs ! 0" and ?p = "''[app %u] EXIT status=%ld'' @ NL"
  obtain k1 where u1: "upd_task (\<lambda>t. t\<lparr>t_exit_code := ?x0\<rparr>) (current k) k = Some k1" "current k1 = current k"
      "tasks k1 = (tasks k)[current k := (tasks k ! current k)\<lparr>t_exit_code := ?x0\<rparr>]" "only_task (current k) k k1"
    by (rule upd_task_ok [OF d(4), of "\<lambda>t. t\<lparr>t_exit_code := ?x0\<rparr>"]) simp
  define k2 where "k2 = print ?p [of_nat (current k1), ?x0] k1"
  have ok2: "kernel_ok k2" using upd_task_inv [OF d(1) u1(1)] by (simp add: k2_def kernel_ok_def)
  obtain k3 where u3: "upd_task (\<lambda>t. t\<lparr>t_runnable := False\<rparr>) (current k) k2 = Some k3"
    using d(4) u1 by (simp add: upd_task_def k2_def)
  have "only_task (current k0) k0 k2" using d(2,3) u1(4) by (simp add: only_task_def k2_def)
  moreover have "t_runnable (tasks k2 ! i) = t_runnable (tasks k0 ! i)" if "i < APP_COUNT" for i
    using d(3,4,5) that u1(3) by (cases "i = current k0") (auto simp: k2_def)
  ultimately obtain k4 x where s: "schedule sr k3 = Some (k4, x)" "trap_effect k0 k4 x" "x \<noteq> Panic"
    using stopped_effect [OF e u3 ok2, of sr] u1(2) d(3) by (auto simp: k2_def)
  have "syscall sr regs k = schedule sr k3"
    using nr u1(1,2) u3 len d(4) by (simp add: syscall_def reg_def get_task_def k2_def NR_log_def NR_exit_def)
  with s show thesis by (intro that) simp_all
qed

lemma syscall_effect:
  assumes e: "entered k0 regs k" and len: "length (r_regs regs) = 31" and run: "t_runnable (tasks k0 ! current k0)"
  obtains k' x where "syscall sr regs k = Some (k', x)" "trap_effect k0 k' x" "x \<noteq> Panic"
proof -
  note d = enteredD [OF e]
  have reg: "reg regs 0 = Some (r_regs regs ! 0)" "reg regs 1 = Some (r_regs regs ! 1)" "reg regs 8 = Some (r_regs regs ! 8)"
    using len by (simp_all add: reg_def)
  have task: "get_task k (current k) = Some (tasks k ! current k)" using d(4) by (simp add: get_task_def)
  let ?x8 = "r_regs regs ! 8"
  consider "?x8 = NR_log" | "?x8 = NR_exit" | "?x8 \<noteq> NR_log" "?x8 \<noteq> NR_exit" by blast
  then show thesis
  proof cases
    case 1
    obtain k1 r where l: "sys_log (tasks k ! current k) (r_regs regs ! 0) (r_regs regs ! 1) k = (k1, r)" by fastforce
    note f = sys_log_frame [OF l]
    obtain k2 where u: "upd_task (set_x0 r) (current k) k1 = Some k2" "current k2 = current k"
      using f d(4) by (auto simp: upd_task_def)
    show thesis by (rule that [OF _ result_effect [OF e run u(1)]]) (use 1 l f u reg task in \<open>simp_all add: syscall_def\<close>)
  next
    case 2
    show thesis by (rule exit_effect [OF e len 2]) (rule that)
  next
    case 3
    obtain k2 where u: "upd_task (set_x0 (- ENOSYS)) (current k) k = Some k2" using d(4) by (simp add: upd_task_def)
    show thesis by (rule that [OF _ result_effect [OF e run u]]) (use 3 u reg task in \<open>simp_all add: syscall_def\<close>)
  qed
qed

text \<open>The entry of \<^verbatim>\<open>trap\<close>: the frame is saved and the first trap reported.\<close>

lemma observed_update: "t_observed t \<Longrightarrow> t\<lparr>t_regs := r, t_observed := True\<rparr> = t\<lparr>t_regs := r\<rparr>"
  by (rule task_struct.equality) simp_all

lemma save_frame_enters:
  assumes ok: "kernel_ok k" and len: "length (r_regs regs) = 31"
  obtains k1 where "save_frame sr regs k = Some k1" "entered k regs k1" "eoir k1 = eoir k"
proof -
  let ?c = "current k" and ?t = "tasks k ! current k"
  have c: "?c < length (tasks k)" "?c < APP_COUNT" using ok by (simp_all add: kernel_ok_def)
  obtain k1 where k1: "save_frame sr regs k = Some k1" "current k1 = ?c" "phys_mem k1 = phys_mem k" "quantum k1 = quantum k"
      "eoir k1 = eoir k" "tasks k1 = (tasks k)[?c := ?t\<lparr>t_regs := regs, t_observed := True\<rparr>]"
    using c by (cases "t_observed ?t") (simp_all add: save_frame_def upd_task_def get_task_def observed_update)
  have "kernel_ok k1" using ok len c by (auto simp: kernel_ok_def k1 nth_list_update)
  then have "entered k regs k1" using c by (auto simp: entered_def only_task_def k1 nth_list_update)
  with k1 show thesis by (intro that)
qed

lemma fault_effect:
  assumes e: "entered k0 regs k" and fault: "drop_bit 26 (esr_el1 sr) \<noteq> 0x15 \<or> esr_el1 sr AND 0xffff \<noteq> 0"
  shows "\<exists>k' x. dispatch sr regs False k = Some (k', x) \<and> trap_effect k0 k' x \<and> x \<noteq> Panic"
proof -
  note d = enteredD [OF e]
  define k1 where "k1 = print (''[app %u] FAULT ESR=%016lx FAR=%016lx ELR=%016lx'' @ NL)
      [of_nat (current k), esr_el1 sr, far_el1 sr, r_pc regs] k"
  have k1: "tasks k1 = tasks k" "current k1 = current k" "phys_mem k1 = phys_mem k" "quantum k1 = quantum k"
    by (simp_all add: k1_def)
  obtain k2 where u: "upd_task (\<lambda>t. t\<lparr>t_runnable := False\<rparr>) (current k) k1 = Some k2"
    using d(4) by (simp add: upd_task_def k1)
  have "only_task (current k0) k0 k1" using d(2) by (simp add: only_task_def k1)
  then obtain k3 x where "schedule sr k2 = Some (k3, x)" "trap_effect k0 k3 x" "x \<noteq> Panic"
    using stopped_effect [OF e u kernel_ok_frame [OF d(1) k1(1,2)], of sr] d(3,5) k1(1,2) by auto
  moreover have "dispatch sr regs False k = schedule sr k2"
    using fault u by (auto simp: dispatch_def k1_def)
  ultimately show ?thesis by auto
qed

lemma dispatch_effect:
  assumes e: "entered k0 regs k" and len: "length (r_regs regs) = 31" and run: "t_runnable (tasks k0 ! current k0)"
  obtains k' x where "dispatch sr regs irq k = Some (k', x)" "trap_effect k0 k' x"
    "x = Panic \<longleftrightarrow> irq \<and> icc_iar1 sr \<noteq> TIMER_IRQ \<and> \<not> (1020 \<le> icc_iar1 sr \<and> icc_iar1 sr \<le> 1023)"
proof -
  note d = enteredD [OF e]
  note goal = that
  let ?fault = "drop_bit 26 (esr_el1 sr) \<noteq> 0x15 \<or> esr_el1 sr AND 0xffff \<noteq> 0"
  consider (spurious) "irq" "1020 \<le> icc_iar1 sr" "icc_iar1 sr \<le> 1023"
    | (tick) "irq" "icc_iar1 sr = TIMER_IRQ"
    | (unexpected) "irq" "icc_iar1 sr \<noteq> TIMER_IRQ" "\<not> (1020 \<le> icc_iar1 sr \<and> icc_iar1 sr \<le> 1023)"
    | (fault) "\<not> irq" ?fault | (svc) "\<not> irq" "\<not> ?fault"
    by blast
  then show thesis
  proof cases
    case spurious
    then have "dispatch sr regs irq k = Some (k, Resume (current k))" by (simp add: dispatch_def timer_interrupt_def)
    then show thesis by (rule goal) (use spurious same_task_effect [OF d(1-3) _ run] d(5) in auto)
  next
    case tick
    let ?k = "timer_rearm k\<lparr>eoir := eoir k @ [TIMER_IRQ]\<rparr>"
    have "dispatch sr regs irq k = schedule sr ?k"
      using tick by (simp add: dispatch_def timer_interrupt_def Let_def TIMER_IRQ_def)
    moreover have "kernel_ok ?k" using d(1) by (rule kernel_ok_frame) simp_all
    moreover have "only_task (current k0) k0 ?k" using d(2) by (simp add: only_task_def)
    moreover have "t_runnable (tasks k0 ! i)" if "i < APP_COUNT" "t_runnable (tasks ?k ! i)" for i using that d(5) by simp
    moreover have "current ?k = current k0" using d(3) by simp
    ultimately show thesis using tick by (metis goal schedule_effect)
  next
    case unexpected
    have "dispatch sr regs irq k = Some (kernel_panic sr k)"
      using unexpected by (auto simp: dispatch_def timer_interrupt_def Let_def)
    moreover have "kernel_ok (fst (kernel_panic sr k))"
      using d(1) by (rule kernel_ok_frame) (simp_all add: kernel_panic_def)
    moreover have "only_task (current k0) k0 (fst (kernel_panic sr k))"
      using d(2) by (simp add: only_task_def kernel_panic_def)
    ultimately show thesis using unexpected d(5)
      by (intro goal [of "fst (kernel_panic sr k)" Panic]) (auto simp: trap_effect_def kernel_panic_def)
  next
    case fault
    then show thesis using fault_effect [OF e, of sr] goal by auto
  next
    case svc
    then have "dispatch sr regs irq k = syscall sr regs k" by (simp add: dispatch_def)
    then show thesis using syscall_effect [OF e len run, of sr] svc by (metis goal)
  qed
qed

lemma trap_total_effect:
  assumes "kernel_ok k" "length (r_regs regs) = 31" "t_runnable (tasks k ! current k)"
  shows "\<exists>k' x. trap sr regs irq k = Some (k', x) \<and> trap_effect k k' x \<and>
    (x = Panic \<longleftrightarrow> \<not> frame_ok sr regs (tasks k ! current k) \<or>
       irq \<and> icc_iar1 sr \<noteq> TIMER_IRQ \<and> \<not> (1020 \<le> icc_iar1 sr \<and> icc_iar1 sr \<le> 1023))"
proof -
  have t: "get_task k (current k) = Some (tasks k ! current k)" using assms(1) by (simp add: kernel_ok_def get_task_def)
  show ?thesis
  proof (cases "frame_ok sr regs (tasks k ! current k)")
    case True
    obtain k1 where k1: "save_frame sr regs k = Some k1" "entered k regs k1" using save_frame_enters assms(1,2) .
    have "trap sr regs irq k = dispatch sr regs irq k1"
      using True t k1 by (auto simp: trap_def frame_ok_def)
    with True dispatch_effect [OF k1(2) assms(2,3), of sr irq] show ?thesis by metis
  next
    case False
    have "trap sr regs irq k = Some (kernel_panic sr k)"
      using False t by (auto simp: trap_def frame_ok_def)
    moreover have "trap_effect k (fst (kernel_panic sr k)) Panic"
      using assms(1) by (simp add: trap_effect_def kernel_panic_def only_task_def kernel_ok_def)
    ultimately show ?thesis using False by (auto simp: kernel_panic_def)
  qed
qed



section \<open>What a system call may show\<close>

text \<open>The bounds check is the inclusion of intervals, without overflow.\<close>

lemma contains_iff:
  "contains start sz p n \<longleftrightarrow> unat start \<le> unat p \<and> unat p + unat n \<le> unat start + unat sz"
proof (cases "start \<le> p")
  case True
  then have d: "unat (p - start) = unat p - unat start" by (rule unat_sub)
  have "p - start \<le> sz \<and> n \<le> sz - (p - start) \<longleftrightarrow> unat (p - start) + unat n \<le> unat sz"
  proof (cases "p - start \<le> sz")
    case True
    then have "unat (sz - (p - start)) = unat sz - unat (p - start)" by (rule unat_sub)
    then show ?thesis using True by (auto simp: word_le_nat_alt)
  next
    case False
    then show ?thesis by (auto simp: word_le_nat_alt)
  qed
  moreover have "unat start \<le> unat p" using True by (simp add: word_le_nat_alt)
  ultimately show ?thesis using True by (auto simp: contains_def d)
next
  case False
  then show ?thesis by (simp add: contains_def word_le_nat_alt)
qed

text \<open>The memory slot of an application: its image and its stack.\<close>

definition slot :: "nat \<Rightarrow> u64 set" where
  "slot i = {a. unat (APP_FIRST + of_nat i * APP_SLOT_SIZE) \<le> unat a \<and>
     unat a < unat (APP_FIRST + of_nat i * APP_SLOT_SIZE) + unat APP_SLOT_SIZE}"

lemma slots_disjoint:
  assumes "i < APP_COUNT" "j < APP_COUNT" "i \<noteq> j"
  shows "slot i \<inter> slot j = {}"
  using assms by (auto simp: slot_def app_layout less_APP_COUNT)

lemma task_regions:
  assumes "task_ok i t" "i < APP_COUNT" and "contains (t_image t) (t_size t) p n \<or> contains (t_stack_bottom t) APP_STACK_SIZE p n"
    and "m < unat n"
  shows "p + of_nat m \<in> slot i"
proof -
  have "unat (t_size t) \<le> 0x10000" using assms(1) by (simp add: task_ok_def APP_IMAGE_SIZE_def word_le_nat_alt)
  moreover have "t_image t = APP_FIRST + of_nat i * APP_SLOT_SIZE" "t_stack_bottom t = t_image t + APP_SLOT_SIZE - APP_STACK_SIZE"
    using assms(1) by (auto simp: task_ok_def)
  ultimately have b: "unat (APP_FIRST + of_nat i * APP_SLOT_SIZE) \<le> unat p"
      "unat p + unat n \<le> unat (APP_FIRST + of_nat i * APP_SLOT_SIZE) + 0x20000" "unat p < 0x42000000"
    using assms(2,3) unfolding contains_iff less_APP_COUNT by (auto simp: app_layout)
  have "m < 2 ^ 32" using assms(2,4) b unfolding less_APP_COUNT by (auto simp: app_layout)
  then have "unat (p + of_nat m) = unat p + m"
    using b(3) by (simp add: unat_word_ariths unat_of_nat)
  then show ?thesis using b assms(4) by (simp add: slot_def APP_SLOT_SIZE_def)
qed

lemma sys_log_branches:
  assumes "task_ok i t" and "i < APP_COUNT"
  shows "\<exists>k' r. sys_log t p n k = (k', r) \<and>
    (if unat n > 256 then r = - EINVAL \<and> k' = k
     else if n = 0 then r = 0 \<and> k' = k
     else if unat (t_image t) \<le> unat p \<and> unat p + unat n \<le> unat (t_image t) + unat (t_size t) \<or>
             unat (t_stack_bottom t) \<le> unat p \<and> unat p + unat n \<le> unat (t_stack_top t)
     then r = n \<and> (\<forall>m<unat n. p + of_nat m \<in> slot i) \<and>
       k' = k\<lparr>console := console k @ map (Putc \<circ> of_char) (''[app '' @ [char_of (48 + current k)] @ ''] '') @
              map (\<lambda>m. Putc (phys_mem k (p + of_nat m))) [0..<unat n]\<rparr>
     else r = - EFAULT \<and> k' = k)"
proof -
  have top: "t_stack_bottom t = t_stack_top t - APP_STACK_SIZE" "t_stack_top t = APP_FIRST + of_nat (Suc i) * APP_SLOT_SIZE"
    using assms(1) by (auto simp: task_ok_def algebra_simps)
  have "unat (t_stack_bottom t) + unat APP_STACK_SIZE = unat (t_stack_top t)"
    using assms(2) unfolding top less_APP_COUNT by (auto simp: app_layout)
  note stack = this
  have lim: "LOG_LIMIT < n \<longleftrightarrow> 256 < unat n" by (simp add: LOG_LIMIT_def word_less_nat_alt)
  show ?thesis
    using task_regions [OF assms, of p n]
    by (simp add: sys_log_def lim stack contains_iff uart_bytes_def task_prefix_def uart_out_def)
qed

text \<open>
  C29: The logging call, on every branch: a length over 256 is refused with \<^verbatim>\<open>-EINVAL\<close>, an
  empty message returns 0, a message that does not lie wholly in the caller's image or in its stack is refused with
  \<^verbatim>\<open>-EFAULT\<close>, all three printing nothing; otherwise exactly the message's bytes are sent, in order, after the
  task's prefix, and the length is returned. Each of these bytes is in the caller's memory slot, the bounds
  being compared as integers, whatever the pointer and the length are.
\<close>

theorem sys_log_spec:
  assumes "task_ok i t" and "i < APP_COUNT"
  shows "\<exists>k' r. sys_log t p n k = (k', r) \<and>
    (if unat n > 256 then r = - EINVAL \<and> k' = k
     else if n = 0 then r = 0 \<and> k' = k
     else if unat (t_image t) \<le> unat p \<and> unat p + unat n \<le> unat (t_image t) + unat (t_size t) \<or>
             unat (t_stack_bottom t) \<le> unat p \<and> unat p + unat n \<le> unat (t_stack_top t)
     then r = n \<and> (\<forall>m<unat n. p + of_nat m \<in> slot i) \<and>
       k' = k\<lparr>console := console k @ map (Putc \<circ> of_char) (''[app '' @ [char_of (48 + current k)] @ ''] '') @
              map (\<lambda>m. Putc (phys_mem k (p + of_nat m))) [0..<unat n]\<rparr>
     else r = - EFAULT \<and> k' = k)"
  by (rule sys_log_branches [OF assms])

theorem sys_log_spec_witness:
  "\<exists>k' r. sys_log (sample_task 1) 0x41020004 2 sample_kernel = (k', r) \<and> r = 2 \<and>
     (\<forall>m<unat (2 :: u64). 0x41020004 + of_nat m \<in> slot 1)"
  using sys_log_spec [OF sample_task_ok [of 1], of "0x41020004" 2 sample_kernel]
  by (auto simp: sample_task_def app_layout APP_COUNT_def)

end
