(* ===== verification/Task_Run.thy ===== *)
theory Task_Run
  imports Task_Props
begin

text \<open>
  Sequences of exceptions: no task learns the memory of another, every runnable task is resumed
  again within three ticks, and a stopped task never runs again.
\<close>

section \<open>Memory isolation\<close>

lemma mem_commutes [simp]:
  "get_task (k\<lparr>phys_mem := m\<rparr>) i = get_task k i"
  "upd_task f i (k\<lparr>phys_mem := m\<rparr>) = map_option (phys_mem_update (\<lambda>_. m)) (upd_task f i k)"
  "print fmt args (k\<lparr>phys_mem := m\<rparr>) = (print fmt args k)\<lparr>phys_mem := m\<rparr>"
  "uart_out s (k\<lparr>phys_mem := m\<rparr>) = (uart_out s k)\<lparr>phys_mem := m\<rparr>"
  "timer_rearm (k\<lparr>phys_mem := m\<rparr>) = (timer_rearm k)\<lparr>phys_mem := m\<rparr>"
  "timer_stop (k\<lparr>phys_mem := m\<rparr>) = (timer_stop k)\<lparr>phys_mem := m\<rparr>"
  "kernel_panic sr (k\<lparr>phys_mem := m\<rparr>) = apfst (phys_mem_update (\<lambda>_. m)) (kernel_panic sr k)"
  "timer_interrupt sr (k\<lparr>phys_mem := m\<rparr>) = apfst (phys_mem_update (\<lambda>_. m)) (timer_interrupt sr k)"
  by (simp_all add: get_task_def upd_task_def print_def uart_out_def timer_rearm_def timer_stop_def kernel_panic_def
      timer_interrupt_def Let_def)

lemma current_upd_task: "upd_task f i k = Some k' \<Longrightarrow> current k' = current k"
  by (auto simp: upd_task_def split: if_splits)

abbreviation at_mem :: "byte_mem \<Rightarrow> (kernel \<times> exit) option \<Rightarrow> (kernel \<times> exit) option" where
  "at_mem m \<equiv> map_option (apfst (phys_mem_update (\<lambda>_. m)))"

lemma schedule_mem: "schedule sr (k\<lparr>phys_mem := m\<rparr>) = at_mem m (schedule sr k)"
proof (cases "next_runnable (tasks k) (current k)")
  case (Some n)
  have "timer_rearm (k\<lparr>phys_mem := m, current := nat n\<rparr>) = (timer_rearm (k\<lparr>current := nat n\<rparr>))\<lparr>phys_mem := m\<rparr>"
    by (simp add: timer_rearm_def)
  with Some show ?thesis by (simp add: schedule_def Let_def)
qed (simp add: schedule_def)

lemma bind_mem [simp]:
  "(\<And>k'. g (k'\<lparr>phys_mem := m\<rparr>) = at_mem m (h k')) \<Longrightarrow>
     map_option (phys_mem_update (\<lambda>_. m)) x \<bind> g = at_mem m (x \<bind> h)"
  by (cases x) simp_all

lemma sys_log_mem:
  assumes "task_ok i t" "i < APP_COUNT" "\<And>a. a \<in> slot i \<Longrightarrow> m a = phys_mem k a"
  shows "sys_log t p n (k\<lparr>phys_mem := m\<rparr>) = apfst (phys_mem_update (\<lambda>_. m)) (sys_log t p n k)"
proof (cases "contains (t_image t) (t_size t) p n \<or> contains (t_stack_bottom t) APP_STACK_SIZE p n")
  case True
  then have "m (p + of_nat j) = phys_mem k (p + of_nat j)" if "j < unat n" for j
    using that assms task_regions by blast
  then have "map (\<lambda>i. Putc (m (p + of_nat i))) [0..<unat n] = map (\<lambda>i. Putc (phys_mem k (p + of_nat i))) [0..<unat n]"
    by simp
  then have "uart_bytes p n (task_prefix (k\<lparr>phys_mem := m\<rparr>)) = (uart_bytes p n (task_prefix k))\<lparr>phys_mem := m\<rparr>"
    by (simp add: uart_bytes_def task_prefix_def)
  with True show ?thesis by (auto simp: sys_log_def)
next
  case False
  then show ?thesis by (simp add: sys_log_def)
qed

lemma syscall_mem:
  assumes "kernel_ok k" "\<And>a. a \<in> slot (current k) \<Longrightarrow> m a = phys_mem k a"
  shows "syscall sr regs (k\<lparr>phys_mem := m\<rparr>) = at_mem m (syscall sr regs k)"
proof -
  have c: "current k < length (tasks k)" "current k < APP_COUNT" "task_ok (current k) (tasks k ! current k)"
    using assms(1) by (simp_all add: kernel_ok_def)
  note l = sys_log_mem [OF c(3,2) assms(2)]
  have "get_task k (current k) = Some (tasks k ! current k)" using c(1) by (simp add: get_task_def)
  then show ?thesis
    by (cases "reg regs 0"; cases "reg regs 1"; cases "reg regs 8")
      (simp_all add: syscall_def l schedule_mem bind_mem case_prod_beta)
qed

lemma dispatch_mem:
  assumes "kernel_ok k" "\<And>a. a \<in> slot (current k) \<Longrightarrow> m a = phys_mem k a"
  shows "dispatch sr regs irq (k\<lparr>phys_mem := m\<rparr>) = at_mem m (dispatch sr regs irq k)"
  using assms
  by (auto simp: dispatch_def syscall_mem schedule_mem split: Option.bind_split prod.split irq_result.split)

lemma save_frame_mem: "save_frame sr regs (k\<lparr>phys_mem := m\<rparr>) = map_option (phys_mem_update (\<lambda>_. m)) (save_frame sr regs k)"
  by (auto simp: save_frame_def split: Option.bind_split)

text \<open>
  C5: Noninterference through the kernel: what an exception does, what it prints and which task it
  resumes, depends on memory only through the interrupted task's own slot. Two runs of the handler from states
  whose memories agree on that slot end in states that differ at most in memory, so neither the console
  nor a register ever shows a task a byte of another task or of the kernel.
\<close>

theorem trap_noninterference:
  assumes "kernel_ok k" "length (r_regs regs) = 31" "\<And>a. a \<in> slot (current k) \<Longrightarrow> m a = phys_mem k a"
  shows "trap sr regs irq (k\<lparr>phys_mem := m\<rparr>) = map_option (\<lambda>(k', x). (k'\<lparr>phys_mem := m\<rparr>, x)) (trap sr regs irq k)"
proof -
  obtain k1 where k1: "save_frame sr regs k = Some k1" "entered k regs k1" by (rule save_frame_enters [OF assms(1,2)])
  have "phys_mem k1 = phys_mem k" "current k1 = current k" "kernel_ok k1"
    using k1(2) by (simp_all add: entered_def only_task_def)
  then have "dispatch sr regs irq (k1\<lparr>phys_mem := m\<rparr>) = at_mem m (dispatch sr regs irq k1)"
    using assms(3) by (intro dispatch_mem) simp_all
  moreover have "(\<lambda>(k', x). (k'\<lparr>phys_mem := m\<rparr>, x)) = (apfst (phys_mem_update (\<lambda>_. m)) :: kernel \<times> exit \<Rightarrow> _)"
    by (auto simp: fun_eq_iff)
  ultimately show ?thesis
    by (auto simp: trap_def save_frame_mem k1 split: Option.bind_split)
qed

theorem trap_noninterference_witness:
  "trap \<lparr>daif = 0x80, CurrentEL = 4, esr_el1 = 0x56000000, far_el1 = 0, elr_el1 = 0, icc_iar1 = 0\<rparr>
       (sample_regs 0) False (sample_kernel\<lparr>phys_mem := (\<lambda>_. 0)(0x41020000 := 7)\<rparr>) =
     map_option (\<lambda>(k', x). (k'\<lparr>phys_mem := (\<lambda>_. 0)(0x41020000 := 7)\<rparr>, x))
       (trap \<lparr>daif = 0x80, CurrentEL = 4, esr_el1 = 0x56000000, far_el1 = 0, elr_el1 = 0, icc_iar1 = 0\<rparr>
         (sample_regs 0) False sample_kernel)"
proof (rule trap_noninterference [OF sample_kernel_ok])
  fix a assume "a \<in> slot (current sample_kernel)"
  then show "((\<lambda>_. 0)(0x41020000 := 7)) a = phys_mem sample_kernel a"
    by (auto simp: slot_def sample_kernel_def app_layout)
qed (simp add: sample_regs_def)

section \<open>Runs\<close>

text \<open>A run: one exception after the other, each resuming a task. It has no value when one of them panics or halts.\<close>

type_synonym exception = "sysregs \<times> pt_regs \<times> bool"

fun run :: "exception list \<Rightarrow> kernel \<Rightarrow> kernel option" where
  "run [] k = Some k"
| "run ((sr, regs, irq) # es) k =
     (case trap sr regs irq k of Some (k', Resume j) \<Rightarrow> run es k' | _ \<Rightarrow> None)"

definition full_frame :: "exception \<Rightarrow> bool" where
  "full_frame e \<longleftrightarrow> length (r_regs (fst (snd e))) = 31"

definition is_tick :: "exception \<Rightarrow> bool" where
  "is_tick e \<longleftrightarrow> snd (snd e) \<and> icc_iar1 (fst e) = TIMER_IRQ"

definition running :: "kernel \<Rightarrow> bool" where
  "running k \<longleftrightarrow> kernel_ok k \<and> t_runnable (tasks k ! current k)"

lemma trap_resumes:
  assumes "running k" "full_frame (sr, regs, irq)" "trap sr regs irq k = Some (k', Resume j)"
  shows "running k'" "trap_effect k k' (Resume j)"
proof -
  show "trap_effect k k' (Resume j)"
    using assms trap_total_effect [of k regs sr irq] by (auto simp: running_def full_frame_def)
  then show "running k'" by (auto simp: trap_effect_def running_def)
qed

lemma run_running:
  "running k \<Longrightarrow> list_all full_frame es \<Longrightarrow> run es k = Some k' \<Longrightarrow>
     running k' \<and> (\<forall>i<APP_COUNT. t_runnable (tasks k' ! i) \<longrightarrow> t_runnable (tasks k ! i))"
proof (induction es k arbitrary: k' rule: run.induct)
  case (2 sr regs irq es k)
  from 2(4) obtain k1 j where t: "trap sr regs irq k = Some (k1, Resume j)" "run es k1 = Some k'"
    by (auto split: option.splits prod.splits exit.splits)
  have r: "running k1" "trap_effect k k1 (Resume j)" using trap_resumes [OF 2(2) _ t(1)] 2(3) by simp_all
  show ?case using 2(1) [OF t(1) refl refl r(1) _ t(2)] 2(3) r(2) by (auto simp: trap_effect_def)
qed simp

text \<open>The number of steps of the round robin from one task to another, from 1 to 3.\<close>

definition dist :: "nat \<Rightarrow> nat \<Rightarrow> nat" where
  "dist c i = (if c < i then i - c else i + APP_COUNT - c)"

lemma dist_bounds: "c < APP_COUNT \<Longrightarrow> i < APP_COUNT \<Longrightarrow> 1 \<le> dist c i \<and> dist c i \<le> APP_COUNT \<and> (c + dist c i) mod APP_COUNT = i"
  unfolding less_APP_COUNT by (auto simp: dist_def APP_COUNT_def)

lemma dist_step:
  assumes "c < APP_COUNT" "i < APP_COUNT" "1 \<le> d" "d < dist c i"
  shows "dist ((c + d) mod APP_COUNT) i = dist c i - d"
proof -
  have "d = 1 \<or> d = 2" using assms dist_bounds [of c i] by (auto simp: APP_COUNT_def)
  then show ?thesis using assms unfolding less_APP_COUNT by (auto simp: dist_def APP_COUNT_def dvd_eq_mod_eq_0)
qed

lemma next_in_turn:
  assumes "length ts = APP_COUNT" "c < APP_COUNT" "i < APP_COUNT" "t_runnable (ts ! i)" "next_runnable ts c = Some (int j)"
  shows "j = i \<or> j < APP_COUNT \<and> dist j i < dist c i"
  using assms(1,2)
proof (cases rule: next_runnable_cases)
  case none
  then show ?thesis using assms(3,4) by blast
next
  case (some d)
  have j: "j = (c + d) mod APP_COUNT" using some(3) assms(5) by simp
  have "\<not> dist c i < d" using some(5) [of "dist c i"] dist_bounds [OF assms(2,3)] assms(4) by auto
  then consider "d = dist c i" | "d < dist c i" by linarith
  then show ?thesis
  proof cases
    case 1
    then show ?thesis using j dist_bounds [OF assms(2,3)] by simp
  next
    case 2
    then have "dist j i = dist c i - d" using dist_step [OF assms(2,3) some(1)] j by simp
    then show ?thesis using 2 some(1) j by (simp add: APP_COUNT_def)
  qed
qed

lemma tick_moves:
  assumes "running k" "full_frame (sr, regs, irq)" "is_tick (sr, regs, irq)" "trap sr regs irq k = Some (k', Resume j)"
  shows "next_runnable (tasks k') (current k) = Some (int j)"
proof -
  have ok: "kernel_ok k" "length (r_regs regs) = 31" using assms(1,2) by (auto simp: running_def full_frame_def)
  obtain k1 where k1: "save_frame sr regs k = Some k1" "entered k regs k1" by (rule save_frame_enters [OF ok])
  let ?k = "timer_rearm k1\<lparr>eoir := eoir k1 @ [TIMER_IRQ]\<rparr>"
  have "get_task k (current k) = Some (tasks k ! current k)" using ok(1) by (simp add: kernel_ok_def get_task_def)
  then have s: "schedule sr ?k = Some (k', Resume j)"
    using assms(3,4) k1(1)
    by (auto simp: trap_def is_tick_def dispatch_def timer_interrupt_def Let_def TIMER_IRQ_def kernel_panic_def split: if_splits)
  have "kernel_ok ?k" "current ?k = current k" using k1(2) by (auto simp: entered_def kernel_ok_def)
  then show ?thesis
  proof (cases rule: schedule_cases [where sr = sr, consumes 1])
    case halt
    then show ?thesis using s by simp
  next
    case (resume k2 d)
    then show ?thesis using s \<open>current ?k = current k\<close> by simp
  qed
qed

lemma trap_progress:
  assumes "running k" "full_frame (sr, regs, irq)" "trap sr regs irq k = Some (k', Resume j)"
    and "i < APP_COUNT" "t_runnable (tasks k' ! i)"
  shows "current k' = i \<or> dist (current k') i \<le> dist (current k) i \<and>
    (is_tick (sr, regs, irq) \<longrightarrow> dist (current k') i < dist (current k) i)"
proof -
  note r = trap_resumes [OF assms(1-3)]
  have l: "length (tasks k') = APP_COUNT" "current k < APP_COUNT" using assms(1) r(1) by (auto simp: running_def kernel_ok_def)
  have j: "j = current k'" "j = current k \<or> next_runnable (tasks k') (current k) = Some (int j)"
    using r(2) by (auto simp: trap_effect_def)
  have turn: "j = i \<or> j < APP_COUNT \<and> dist j i < dist (current k) i" if "next_runnable (tasks k') (current k) = Some (int j)"
    using next_in_turn [OF l assms(4,5) that] .
  show ?thesis
  proof (cases "is_tick (sr, regs, irq)")
    case True
    then show ?thesis using turn [OF tick_moves [OF assms(1,2) _ assms(3)]] j(1) by auto
  next
    case False
    then show ?thesis using turn j by auto
  qed
qed

lemma run_reaches:
  assumes "running k" "list_all full_frame es" "run es k = Some k'" "i < APP_COUNT" "t_runnable (tasks k' ! i)"
    and "dist (current k) i \<le> length (filter is_tick es)"
  shows "\<exists>es1 es2 k1. es = es1 @ es2 \<and> es1 \<noteq> [] \<and> run es1 k = Some k1 \<and> current k1 = i"
  using assms
proof (induction es arbitrary: k)
  case Nil
  then have "current k < APP_COUNT" by (simp add: running_def kernel_ok_def)
  with Nil dist_bounds [of "current k" i] show ?case by simp
next
  case (Cons e es)
  obtain sr regs irq where e: "e = (sr, regs, irq)" by (cases e)
  from Cons.prems(3) obtain k1 j where t: "trap sr regs irq k = Some (k1, Resume j)" "run es k1 = Some k'"
    by (auto simp: e split: option.splits prod.splits exit.splits)
  have f: "full_frame (sr, regs, irq)" "list_all full_frame es" using Cons.prems(2) e by simp_all
  note r = trap_resumes [OF Cons.prems(1) f(1) t(1)]
  have run1: "t_runnable (tasks k1 ! i)" using run_running [OF r(1) f(2) t(2)] Cons.prems(4,5) by blast
  have step: "run [e] k = Some k1" using t(1) by (simp add: e)
  from trap_progress [OF Cons.prems(1) f(1) t(1) Cons.prems(4) run1] show ?case
  proof
    assume "current k1 = i"
    then show ?thesis using step by (intro exI [of _ "[e]"] exI [of _ es] exI [of _ k1]) simp
  next
    assume d: "dist (current k1) i \<le> dist (current k) i \<and> (is_tick (sr, regs, irq) \<longrightarrow> dist (current k1) i < dist (current k) i)"
    then have "dist (current k1) i \<le> length (filter is_tick es)" using Cons.prems(6) e by (auto split: if_splits)
    then obtain es1 es2 k2 where "es = es1 @ es2" "run es1 k1 = Some k2" "current k2 = i"
      using Cons.IH [OF r(1) f(2) t(2) Cons.prems(4,5)] by blast
    then show ?thesis using t(1) by (intro exI [of _ "e # es1"] exI [of _ es2] exI [of _ k2]) (simp add: e)
  qed
qed

text \<open>
  C10: Fairness: in every run with three timer ticks, whatever system calls, faults and spurious
  interrupts come between them, a task that is still runnable at the end was resumed on the way.
\<close>

theorem round_robin_fair:
  assumes "running k" "list_all full_frame es" "run es k = Some k'" "i < APP_COUNT" "t_runnable (tasks k' ! i)"
    and "APP_COUNT \<le> length (filter is_tick es)"
  shows "\<exists>es1 es2 k1. es = es1 @ es2 \<and> es1 \<noteq> [] \<and> run es1 k = Some k1 \<and> current k1 = i"
proof (rule run_reaches [OF assms(1-5)])
  have "current k < APP_COUNT" using assms(1) by (simp add: running_def kernel_ok_def)
  then show "dist (current k) i \<le> length (filter is_tick es)" using dist_bounds [of "current k" i] assms(4,6) by simp
qed

definition sample_tick :: "nat \<Rightarrow> exception" where
  "sample_tick i = (\<lparr>daif = 0x80, CurrentEL = 4, esr_el1 = 0, far_el1 = 0, elr_el1 = 0, icc_iar1 = 30\<rparr>, sample_regs i, True)"

lemma sample_run:
  "map_option (\<lambda>k. (current k, map t_runnable (tasks k))) (run [sample_tick 0, sample_tick 1, sample_tick 2] sample_kernel) =
     Some (0, [True, True, True])"
  by code_simp

theorem round_robin_fair_witness:
  "\<exists>es1 es2 k1. [sample_tick 0, sample_tick 1, sample_tick 2] = es1 @ es2 \<and> es1 \<noteq> [] \<and>
     run es1 sample_kernel = Some k1 \<and> current k1 = 2"
proof -
  let ?es = "[sample_tick 0, sample_tick 1, sample_tick 2]"
  obtain k' where k': "run ?es sample_kernel = Some k'" "map t_runnable (tasks k') = [True, True, True]"
    using sample_run by auto
  have "t_runnable (tasks k' ! 2)" using arg_cong [OF k'(2), of "\<lambda>l. l ! 2"] arg_cong [OF k'(2), of length] by simp
  moreover have "running sample_kernel"
    using sample_kernel_ok by (simp add: running_def sample_kernel_def APP_COUNT_def sample_task_def)
  ultimately show ?thesis using k'(1)
    by (intro round_robin_fair [of sample_kernel ?es k' 2])
      (simp_all add: full_frame_def is_tick_def sample_tick_def sample_regs_def TIMER_IRQ_def APP_COUNT_def)
qed

section \<open>Reachable states\<close>

inductive reach :: "kernel \<Rightarrow> kernel \<Rightarrow> bool" for k0 where
  start: "reach k0 k0"
| step: "reach k0 k \<Longrightarrow> length (r_regs regs) = 31 \<Longrightarrow> trap sr regs irq k = Some (k', Resume j) \<Longrightarrow> reach k0 k'"

text \<open>
  C28: A task that has exited or faulted stays stopped: in every state reached from then on by
  exceptions, the running task is a runnable one, the stopped task is not the running one and its entry in the
  task table is as it was; the handler has changed no memory.
\<close>

theorem stopped_task_stays_stopped:
  assumes "reach k0 k" "running k0" "i < APP_COUNT" "\<not> t_runnable (tasks k0 ! i)"
  shows "running k \<and> current k \<noteq> i \<and> tasks k ! i = tasks k0 ! i \<and> phys_mem k = phys_mem k0"
  using assms
proof (induction rule: reach.induct)
  case start
  then show ?case by (auto simp: running_def)
next
  case (step k regs sr irq k' j)
  then have IH: "running k" "current k \<noteq> i" "tasks k ! i = tasks k0 ! i" "phys_mem k = phys_mem k0" by simp_all
  have f: "full_frame (sr, regs, irq)" using step(2) by (simp add: full_frame_def)
  note r = trap_resumes [OF IH(1) f step(3)]
  have "only_task (current k) k k'" using r(2) by (simp add: trap_effect_def)
  then have "tasks k' ! i = tasks k0 ! i" "phys_mem k' = phys_mem k0" using IH(2-4) by (auto simp: only_task_def)
  moreover from this have "current k' \<noteq> i" using r(1) step.prems by (auto simp: running_def)
  ultimately show ?case using r(1) by simp
qed

theorem stopped_task_stays_stopped_witness:
  "\<exists>k. trap (fst (sample_tick 0)) (sample_regs 0) True (sample_kernel\<lparr>tasks := (tasks sample_kernel)[1 := (sample_task 1)\<lparr>t_runnable := False\<rparr>]\<rparr>) =
       Some (k, Resume 2) \<and> running k \<and> current k \<noteq> 1"
proof -
  let ?k = "sample_kernel\<lparr>tasks := (tasks sample_kernel)[1 := (sample_task 1)\<lparr>t_runnable := False\<rparr>]\<rparr>"
  have "map_option snd (trap (fst (sample_tick 0)) (sample_regs 0) True ?k) = Some (Resume 2)" by code_simp
  then obtain k where k: "trap (fst (sample_tick 0)) (sample_regs 0) True ?k = Some (k, Resume 2)" by auto
  have "kernel_ok ?k" using sample_kernel_ok sample_task_ok [of 1]
    by (auto simp: kernel_ok_def APP_COUNT_def nth_list_update)
  moreover have "t_runnable (tasks ?k ! current ?k)" by (simp add: sample_kernel_def APP_COUNT_def sample_task_def)
  ultimately have "running ?k" by (simp only: running_def)
  moreover have "reach ?k k" by (rule reach.step [OF reach.start _ k]) (simp add: sample_regs_def)
  ultimately show ?thesis using k stopped_task_stays_stopped [of ?k k 1]
    by (auto simp: sample_kernel_def APP_COUNT_def)
qed

end
