(* ===== verification/Task_Load.thy ===== *)
theory Task_Load
  imports Task_Run
begin

text \<open>The loader of \<^verbatim>\<open>start_apps\<close>: it installs every image, clears every stack and starts the first task.\<close>

section \<open>Copying through the linear map\<close>

lemma copy_image_apply:
  "length bs < 2 ^ 64 \<Longrightarrow> copy_image d bs m x = (if unat (x - d) < length bs then bs ! unat (x - d) else m x)"
proof (induction bs arbitrary: d m)
  case (Cons b bs)
  have IH: "copy_image (d + 1) bs (m(d := b)) x = (if unat (x - (d + 1)) < length bs then bs ! unat (x - (d + 1)) else (m(d := b)) x)"
    using Cons by simp
  show ?case
  proof (cases "x = d")
    case True
    have "unat (x - (d + 1)) = 2 ^ 64 - 1" using True by (simp add: unsigned_minus_1_eq_mask mask_eq_exp_minus_1)
    then show ?thesis using Cons.prems IH [unfolded True] True by simp
  next
    case False
    then have "x - d \<noteq> 0" by simp
    then have "unat (x - d) = Suc (unat (x - d - 1))" using unat_minus_one [of "x - d"] unat_gt_0 [of "x - d"] by simp
    then show ?thesis using False by (simp add: IH diff_diff_eq)
  qed
qed simp

lemma verify_image_iff:
  "length bs < 2 ^ 64 \<Longrightarrow> verify_image d bs m \<longleftrightarrow> (\<forall>i<length bs. m (d + of_nat i) = bs ! i)"
proof (induction bs arbitrary: d)
  case (Cons b bs)
  have "(\<forall>i<Suc (length bs). m (d + of_nat i) = (b # bs) ! i) \<longleftrightarrow> m d = b \<and> (\<forall>i<length bs. m (d + of_nat (Suc i)) = bs ! i)"
    by (auto simp: less_Suc_eq_0_disj)
  then show ?case using Cons by (simp add: add.assoc)
qed simp

lemma kva_diff [simp]: "kva a - kva b = a - b"
  by (simp add: kva_def)

lemma kva_add: "kva a + n = kva (a + n)"
  by (simp add: kva_def)

text \<open>The memory of one slot after loading: the image, then what was there, then an empty stack.\<close>

definition loaded :: "nat \<Rightarrow> u8 list \<Rightarrow> byte_mem \<Rightarrow> byte_mem" where
  "loaded i bs m a = (
     let x = unat (a - (APP_FIRST + of_nat i * APP_SLOT_SIZE)) in
     if x < length bs then bs ! x else if 0x1C000 \<le> x \<and> x < 0x20000 then 0 else m a)"

lemma loaded_via_kva:
  assumes "length bs \<le> 0x10000"
  shows "via_kva (\<lambda>m. memset m (kva (APP_FIRST + of_nat i * APP_SLOT_SIZE + APP_SLOT_SIZE - APP_STACK_SIZE)) 0 APP_STACK_SIZE)
      (via_kva (copy_image (kva (APP_FIRST + of_nat i * APP_SLOT_SIZE)) bs) m) = loaded i bs m"
proof
  fix a
  let ?base = "APP_FIRST + of_nat i * APP_SLOT_SIZE"
  have "unat (a - (?base + APP_SLOT_SIZE - APP_STACK_SIZE)) < 0x4000 \<longleftrightarrow> 0x1C000 \<le> unat (a - ?base) \<and> unat (a - ?base) < 0x20000"
  proof -
    have e: "a - (?base + APP_SLOT_SIZE - APP_STACK_SIZE) = a - ?base - 0x1C000"
      by (simp add: APP_SLOT_SIZE_def APP_STACK_SIZE_def)
    have "unat (w - 0x1C000) < 0x4000 \<longleftrightarrow> 0x1C000 \<le> unat w \<and> unat w < 0x20000" for w :: u64
      using u64_bound [of w] by (auto simp: unat_sub_if')
    then show ?thesis unfolding e .
  qed
  then show "via_kva (\<lambda>m. memset m (kva (?base + APP_SLOT_SIZE - APP_STACK_SIZE)) 0 APP_STACK_SIZE)
      (via_kva (copy_image (kva ?base) bs) m) a = loaded i bs m a"
    using assms by (simp add: via_kva_def memset_apply in_span_def copy_image_apply loaded_def Let_def APP_STACK_SIZE_def)
qed

section \<open>One application\<close>

definition app_fits :: "u8 list \<Rightarrow> bool" where
  "app_fits bs \<longleftrightarrow> 0 < length bs \<and> length bs \<le> 0x10000"

lemma size_fits: "i < APP_COUNT \<Longrightarrow> length bs < 2 ^ 64 \<Longrightarrow>
  (let image = APP_FIRST + of_nat i * APP_SLOT_SIZE; sz = of_nat (length bs) :: u64; stack_bottom = image + APP_SLOT_SIZE - APP_STACK_SIZE in
   sz = 0 \<or> sz > APP_IMAGE_SIZE \<or> image + sz > stack_bottom) \<longleftrightarrow> \<not> app_fits bs"
proof -
  assume i: "i < APP_COUNT" and l: "length bs < 2 ^ 64"
  let ?sz = "of_nat (length bs) :: u64"
  have u: "unat ?sz = length bs" using l by (simp add: unat_of_nat)
  have "?sz = 0 \<longleftrightarrow> length bs = 0" using u by (metis unat_eq_zero)
  moreover have "?sz > APP_IMAGE_SIZE \<longleftrightarrow> length bs > 0x10000" by (simp add: word_less_nat_alt u APP_IMAGE_SIZE_def)
  moreover have "\<not> APP_FIRST + of_nat i * APP_SLOT_SIZE + ?sz > APP_FIRST + of_nat i * APP_SLOT_SIZE + APP_SLOT_SIZE - APP_STACK_SIZE"
    if "length bs \<le> 0x10000"
    using i that unfolding less_APP_COUNT
    by (auto simp: app_layout word_less_nat_alt unat_word_ariths u)
  ultimately show ?thesis by (auto simp: app_fits_def Let_def)
qed

text \<open>A task as the loader leaves it, from its entry in the zeroed table.\<close>

definition task_ready :: "nat \<Rightarrow> u8 list \<Rightarrow> task_struct \<Rightarrow> task_struct \<Rightarrow> bool" where
  "task_ready i bs t0 t \<longleftrightarrow>
     (length (r_regs (t_regs t0)) = 31 \<longrightarrow> task_ok i t) \<and> t_runnable t \<and> t_size t = of_nat (length bs) \<and>
     r_pc (t_regs t) = t_image t \<and> r_sp (t_regs t) = t_stack_top t \<and> r_pstate (t_regs t) = 0x340"

lemma load_app_fits:
  assumes "i < length (tasks k)" "i < APP_COUNT" "app_fits bs"
  shows "\<exists>k'. load_app sr bs i k = Some (k', None) \<and> phys_mem k' = loaded i bs (phys_mem k) \<and> current k' = current k \<and>
    tasks k' = (tasks k)[i := tasks k' ! i] \<and> task_ready i bs (tasks k ! i) (tasks k' ! i)"
proof -
  let ?image = "APP_FIRST + of_nat i * APP_SLOT_SIZE" and ?sz = "of_nat (length bs) :: u64"
  have l: "length bs < 2 ^ 64" "length bs \<le> 0x10000" using assms(3) by (auto simp: app_fits_def)
  have size: "\<not> (?sz = 0 \<or> ?sz > APP_IMAGE_SIZE \<or> ?image + ?sz > ?image + APP_SLOT_SIZE - APP_STACK_SIZE)"
    using size_fits [OF assms(2) l(1)] assms(3) by (simp add: Let_def)
  then have pos: "0 < ?sz" "?sz \<le> APP_IMAGE_SIZE" by (auto simp: word_gt_0)
  have ver: "verify_image (kva ?image) bs (\<lambda>v. via_kva (copy_image (kva ?image) bs) m (kpa v))" for m
    using l by (simp add: verify_image_iff via_kva_def copy_image_apply unat_of_nat kva_add)
  show ?thesis
    using assms(1) size pos ver loaded_via_kva [OF l(2), of i "phys_mem k"]
    by (simp add: load_app_def upd_task_def Let_def task_ok_def task_ready_def)
qed

lemma load_app_too_big:
  assumes "i < length (tasks k)" "i < APP_COUNT" "\<not> app_fits bs" "length bs < 2 ^ 64"
  shows "\<exists>k'. load_app sr bs i k = Some (k', Some Panic) \<and> phys_mem k' = phys_mem k"
  using assms(1) size_fits [OF assms(2,4)] assms(3)
  by (simp add: load_app_def upd_task_def Let_def kernel_panic_def)

section \<open>All applications\<close>

lemma slot_iff: "i < APP_COUNT \<Longrightarrow> a \<in> slot i \<longleftrightarrow> unat (a - (APP_FIRST + of_nat i * APP_SLOT_SIZE)) < 0x20000"
  unfolding less_APP_COUNT slot_def using u64_bound [of a] by (auto simp: app_layout unat_sub_if')

lemma loaded_outside: "i < APP_COUNT \<Longrightarrow> app_fits bs \<Longrightarrow> a \<notin> slot i \<Longrightarrow> loaded i bs m a = m a"
  by (auto simp: loaded_def slot_iff app_fits_def Let_def)

lemma loaded_cong: "m a = m' a \<Longrightarrow> loaded i bs m a = loaded i bs m' a"
  by (simp add: loaded_def Let_def)

text \<open>What has been installed once the tasks \<open>n\<close>, \<open>n + 1\<close>, \dots have been loaded.\<close>

definition installed :: "nat \<Rightarrow> u8 list list \<Rightarrow> kernel \<Rightarrow> kernel \<Rightarrow> bool" where
  "installed n bss k k' \<longleftrightarrow>
     length (tasks k') = length (tasks k) \<and> current k' = current k \<and>
     (\<forall>i<APP_COUNT. i < n \<or> n + length bss \<le> i \<longrightarrow> tasks k' ! i = tasks k ! i) \<and>
     (\<forall>i<length bss. task_ready (n + i) (bss ! i) (tasks k ! (n + i)) (tasks k' ! (n + i))) \<and>
     (\<forall>i<length bss. \<forall>a\<in>slot (n + i). phys_mem k' a = loaded (n + i) (bss ! i) (phys_mem k) a) \<and>
     (\<forall>a. (\<forall>i<length bss. a \<notin> slot (n + i)) \<longrightarrow> phys_mem k' a = phys_mem k a)"

lemma installed_step:
  assumes "installed (Suc n) bss k1 k'" and "n + length (b # bss) \<le> APP_COUNT" "app_fits b"
    and "length (tasks k) = APP_COUNT" "tasks k1 = (tasks k)[n := tasks k1 ! n]" "current k1 = current k"
    and "phys_mem k1 = loaded n b (phys_mem k)"
    and "task_ready n b (tasks k ! n) (tasks k1 ! n)"
  shows "installed n (b # bss) k k'"
proof -
  have n: "n < APP_COUNT" using assms(2) by simp
  have t1: "tasks k1 ! i = tasks k ! i" if "i \<noteq> n" for i using assms(5) that by (metis nth_list_update_neq)
  have len: "length (tasks k1) = length (tasks k)" using assms(5) by (metis length_list_update)
  have t': "tasks k' ! n = tasks k1 ! n" using assms(1) n by (auto simp: installed_def)
  have other: "a \<notin> slot (Suc n + i)" if "a \<in> slot n" "i < length bss" for a i
    using slots_disjoint [OF n, of "Suc n + i"] that assms(2) by auto
  have other': "phys_mem k1 a = phys_mem k a" if "a \<in> slot (Suc n + i)" "i < length bss" for a i
    using slots_disjoint [OF n, of "Suc n + i"] that assms(2,3,7) n by (auto intro: loaded_outside)
  note I = assms(1) [unfolded installed_def]
  have "length (tasks k') = length (tasks k)" "current k' = current k" using I len assms(6) by simp_all
  moreover have "tasks k' ! i = tasks k ! i" if "i < APP_COUNT" "i < n \<or> n + length (b # bss) \<le> i" for i
    using I t1 that by (auto simp: Let_def)
  moreover have "phys_mem k' a = phys_mem k a" if "\<forall>i<length (b # bss). a \<notin> slot (n + i)" for a
  proof -
    have "a \<notin> slot n" "\<forall>i<length bss. a \<notin> slot (Suc n + i)" using that by (auto simp: less_Suc_eq_0_disj)
    then show ?thesis using I assms(3,7) n loaded_outside by auto
  qed
  moreover have "phys_mem k' a = loaded n b (phys_mem k) a" if "a \<in> slot n" for a
    using I other that assms(7) by auto
  moreover have "phys_mem k' a = loaded (Suc n + i) (bss ! i) (phys_mem k) a" if "i < length bss" "a \<in> slot (Suc n + i)" for i a
    using I that other' [OF that(2,1)] loaded_cong by metis
  ultimately show ?thesis
    using I assms(8-) t' t1 by (auto simp: installed_def Let_def less_Suc_eq_0_disj)
qed

lemma load_apps_fits:
  assumes "n + length bss \<le> APP_COUNT" "list_all app_fits bss" "length (tasks k) = APP_COUNT"
  shows "\<exists>k'. load_apps sr (enumerate n bss) k = Some (k', None) \<and> installed n bss k k'"
  using assms
proof (induction bss arbitrary: n k)
  case Nil
  then show ?case by (simp add: installed_def)
next
  case (Cons b bss)
  have n: "n < APP_COUNT" "n < length (tasks k)" "app_fits b" using Cons.prems by simp_all
  from load_app_fits [OF n(2,1,3), of sr] obtain k1 where k1: "load_app sr b n k = Some (k1, None)"
    "phys_mem k1 = loaded n b (phys_mem k)" "current k1 = current k" "tasks k1 = (tasks k)[n := tasks k1 ! n]"
    "task_ready n b (tasks k ! n) (tasks k1 ! n)"
    by blast
  have "length (tasks k1) = APP_COUNT" using k1(4) Cons.prems(3) by (metis length_list_update)
  then obtain k' where k': "load_apps sr (enumerate (Suc n) bss) k1 = Some (k', None)" "installed (Suc n) bss k1 k'"
    using Cons.IH [of "Suc n" k1] Cons.prems by auto
  have "installed n (b # bss) k k'"
    by (rule installed_step [OF k'(2) Cons.prems(1) n(3) Cons.prems(3) k1(4,3,2,5)])
  with k1(1) k'(1) show ?case by simp
qed

lemma load_apps_too_big:
  assumes "n + length bss \<le> APP_COUNT" "\<not> list_all app_fits bss" "length (tasks k) = APP_COUNT"
    and "\<And>bs. bs \<in> set bss \<Longrightarrow> length bs < 2 ^ 64"
  shows "\<exists>k'. load_apps sr (enumerate n bss) k = Some (k', Some Panic)"
  using assms
proof (induction bss arbitrary: n k)
  case (Cons b bss)
  have n: "n < APP_COUNT" "n < length (tasks k)" "length b < 2 ^ 64" using Cons.prems by simp_all
  show ?case
  proof (cases "app_fits b")
    case True
    from load_app_fits [OF n(2,1) True, of sr] obtain k1 where k1: "load_app sr b n k = Some (k1, None)"
      "tasks k1 = (tasks k)[n := tasks k1 ! n]"
      by blast
    have "length (tasks k1) = APP_COUNT" using k1(2) Cons.prems(3) by (metis length_list_update)
    then show ?thesis using Cons.IH [of "Suc n" k1] Cons.prems True k1(1) by auto
  next
    case False
    then show ?thesis using load_app_too_big [OF n(2,1) False n(3), of sr] by auto
  qed
qed simp

lemma timer_init_returns:
  assumes "\<And>h reg b. answers dev reg b n h"
  shows "\<exists>h'. timer_init dev sre cntfrq sr h k = Some (h',
    if 100 \<le> unat cntfrq \<and> unat cntfrq div 100 \<le> 0x7fffffff
    then (timer_rearm (print (''TIMER frequency=%016lx quantum=%016lx'' @ NL) [cntfrq, cntfrq div 100] (k\<lparr>quantum := cntfrq div 100\<rparr>)), None)
    else apsnd Some (kernel_panic sr (k\<lparr>quantum := cntfrq div 100\<rparr>)))"
proof -
  obtain h' where "gic_init dev sre h = Some h'" using gic_init_returns [OF assms] by blast
  moreover have "cntfrq div 100 = 0 \<longleftrightarrow> \<not> 100 \<le> unat cntfrq"
    by (simp add: word_unat_eq_iff unat_div div_eq_0_iff not_le)
  moreover have "cntfrq div 100 > 0x7fffffff \<longleftrightarrow> \<not> unat cntfrq div 100 \<le> 0x7fffffff"
    by (simp add: word_less_nat_alt unat_div not_le)
  ultimately show ?thesis by (auto simp: timer_init_def Let_def kernel_panic_def)
qed

section \<open>Properties\<close>

text \<open>The tables as the program starts: zeroed.\<close>

definition boot_tables :: "kernel \<Rightarrow> bool" where
  "boot_tables k \<longleftrightarrow> length (tasks k) = APP_COUNT \<and> current k = 0 \<and> (\<forall>t\<in>set (tasks k). length (r_regs (t_regs t)) = 31)"

lemma start_apps_ok:
  assumes "length payloads = APP_COUNT" "list_all app_fits payloads" "boot_tables k" "\<And>h reg b. answers dev reg b n h"
    and "100 \<le> unat cntfrq" "unat cntfrq div 100 \<le> 0x7fffffff"
  shows "\<exists>h' k'. start_apps dev sre cntfrq sr payloads h k = Some (h', k', Resume 0) \<and> running k' \<and> current k' = 0 \<and>
    (\<forall>i<APP_COUNT. task_ready i (payloads ! i) (tasks k ! i) (tasks k' ! i) \<and>
       (\<forall>a\<in>slot i. phys_mem k' a = loaded i (payloads ! i) (phys_mem k) a)) \<and>
    (\<forall>a. (\<forall>i<APP_COUNT. a \<notin> slot i) \<longrightarrow> phys_mem k' a = phys_mem k a) \<and>
    cntp_ctl k' = 1 \<and> cntp_tval k' = quantum k' \<and> 0 < quantum k'"
proof -
  have b: "length (tasks k) = APP_COUNT" "\<And>i. i < APP_COUNT \<Longrightarrow> length (r_regs (t_regs (tasks k ! i))) = 31" "current k = 0"
    using assms(3) by (auto simp: boot_tables_def)
  obtain k1 where k1: "load_apps sr (enumerate 0 payloads) k = Some (k1, None)" "installed 0 payloads k k1"
    using load_apps_fits [of 0 payloads k sr] assms(1,2) b(1) by auto
  let ?k = "timer_rearm (print (''TIMER frequency=%016lx quantum=%016lx'' @ NL) [cntfrq, cntfrq div 100] (k1\<lparr>quantum := cntfrq div 100\<rparr>))"
  obtain h' where "timer_init dev sre cntfrq sr h k1 = Some (h', ?k, None)"
    using timer_init_returns [OF assms(4), of sre cntfrq sr h k1] assms(5,6) by auto
  then have s: "start_apps dev sre cntfrq sr payloads h k = Some (h', ?k, Resume 0)"
    using k1(1) assms(1) by (simp add: start_apps_def)
  have q: "0 < cntfrq div 100" using assms(5) by (simp add: word_less_nat_alt unat_div)
  have r: "\<And>i. i < APP_COUNT \<Longrightarrow> task_ready i (payloads ! i) (tasks k ! i) (tasks k1 ! i)" "current k1 = 0"
      "length (tasks k1) = APP_COUNT"
    using k1(2) assms(1) b by (auto simp: installed_def)
  have "running ?k" using r b(2) by (auto simp: running_def kernel_ok_def task_ready_def APP_COUNT_def)
  then show ?thesis using s q r k1(2) assms(1)
    by (intro exI [of _ h'] exI [of _ ?k]) (auto simp: installed_def)
qed

text \<open>
  Starting the applications ends, given an interrupt controller that answers: when every image
  fits its slot and the counter frequency gives a usable time slice, the first task is entered with the timer armed
  for one slice, every task is ready at its image's first byte with its own empty stack, each slot holds its image and a zeroed
  stack, and no byte outside the three slots has changed. The state satisfies the invariant of the exception handler.
\<close>

theorem start_apps_loads:
  assumes "length payloads = APP_COUNT" "list_all app_fits payloads" "boot_tables k" "\<And>h reg b. answers dev reg b n h"
    and "100 \<le> unat cntfrq" "unat cntfrq div 100 \<le> 0x7fffffff"
  shows "\<exists>h' k'. start_apps dev sre cntfrq sr payloads h k = Some (h', k', Resume 0) \<and> running k' \<and> current k' = 0 \<and>
    (\<forall>i<APP_COUNT. task_ready i (payloads ! i) (tasks k ! i) (tasks k' ! i) \<and>
       (\<forall>a\<in>slot i. phys_mem k' a = loaded i (payloads ! i) (phys_mem k) a)) \<and>
    (\<forall>a. (\<forall>i<APP_COUNT. a \<notin> slot i) \<longrightarrow> phys_mem k' a = phys_mem k a) \<and>
    cntp_ctl k' = 1 \<and> cntp_tval k' = quantum k' \<and> 0 < quantum k'"
  by (rule start_apps_ok [OF assms])

definition sample_payloads :: "u8 list list" where
  "sample_payloads = [[1, 2], [3], [4]]"

lemma sample_boot: "boot_tables sample_kernel" "length sample_payloads = APP_COUNT"
  by (auto simp: boot_tables_def sample_kernel_def sample_task_def sample_regs_def sample_payloads_def APP_COUNT_def)

theorem start_apps_loads_witness:
  "\<exists>h' k'. start_apps (\<lambda>_ _. 0) 0 62500000 (fst (sample_tick 0)) sample_payloads [] sample_kernel = Some (h', k', Resume 0) \<and>
     running k' \<and> cntp_ctl k' = 1"
proof -
  have "list_all app_fits sample_payloads" by (simp add: sample_payloads_def app_fits_def)
  moreover have "answers (\<lambda>_ _. 0) reg b 1 h" for reg b h by simp
  ultimately show ?thesis
    using start_apps_loads [OF sample_boot(2) _ sample_boot(1), of "\<lambda>_ _. 0" 1 62500000 0 "fst (sample_tick 0)" "[]"] by auto
qed

text \<open>
  C30: The loader refuses: when an image is empty or larger than 64 KiB the kernel panics instead of
  starting any task.
\<close>

theorem start_apps_rejects:
  assumes "length payloads = APP_COUNT" "\<not> list_all app_fits payloads" "boot_tables k" "\<And>bs. bs \<in> set payloads \<Longrightarrow> length bs < 2 ^ 64"
  shows "\<exists>k'. start_apps dev sre cntfrq sr payloads h k = Some (h, k', Panic)"
proof -
  have "length (tasks k) = APP_COUNT" using assms(3) by (simp add: boot_tables_def)
  then obtain k' where "load_apps sr (enumerate 0 payloads) k = Some (k', Some Panic)"
    using load_apps_too_big [of 0 payloads k sr] assms(1,2,4) by auto
  then show ?thesis using assms(1) by (simp add: start_apps_def)
qed

theorem start_apps_rejects_witness:
  "\<exists>k'. start_apps (\<lambda>_ _. 0) 0 62500000 (fst (sample_tick 0)) [[1], [], [2]] [] sample_kernel = Some ([], k', Panic)"
  by (rule start_apps_rejects [OF _ _ sample_boot(1)]) (auto simp: APP_COUNT_def app_fits_def)

end
