(* ===== verification/Vsprintf.thy ===== *)
theory Vsprintf
  imports Byte_Memory
begin

text \<open>
  Number parsing and formatted output (\<^verbatim>\<open>lib/vsprintf.c\<close>). Characters are unsigned, as \<^verbatim>\<open>char\<close> is on
  AArch64. A string that is only read is the list of its characters before the terminating NUL, and
  a pointer into it is the rest of the list; the output buffer is memory, addressed by words. An \<^verbatim>\<open>int\<close>
  is an integer, and every operation on one that can overflow is checked: \<^verbatim>\<open>int\<close> overflow is undefined, so it
  has no value. The variable arguments are a list of 64-bit values and strings; a missing
  argument or one of the wrong kind has no value either.
\<close>

unbundle bit_operations_syntax

section \<open>Characters and strings\<close>

abbreviation code :: "char \<Rightarrow> int" where "code \<equiv> of_char"

abbreviation NUL :: char where "NUL \<equiv> CHR 0x00"

definition isdigit :: "int \<Rightarrow> bool" where
  "isdigit c \<longleftrightarrow> c \<ge> code CHR ''0'' \<and> c \<le> code CHR ''9''"

definition isxdigit :: "int \<Rightarrow> bool" where
  "isxdigit c \<longleftrightarrow> isdigit c \<or> (c \<ge> code CHR ''a'' \<and> c \<le> code CHR ''f'') \<or> (c \<ge> code CHR ''A'' \<and> c \<le> code CHR ''F'')"

definition islower :: "int \<Rightarrow> bool" where
  "islower c \<longleftrightarrow> c \<ge> code CHR ''a'' \<and> c \<le> code CHR ''z''"

definition toupper :: "int \<Rightarrow> int" where
  "toupper c = (if islower c then c - code CHR ''a'' + code CHR ''A'' else c)"

definition small_digits :: string where
  "small_digits = ''0123456789abcdefghijklmnopqrstuvwxyz''"

definition large_digits :: string where
  "large_digits = ''0123456789ABCDEFGHIJKLMNOPQRSTUVWXYZ''"

definition peek :: "string \<Rightarrow> char" where
  "peek s = (case s of [] \<Rightarrow> NUL | c # _ \<Rightarrow> c)"

text \<open>The loop of \<^verbatim>\<open>strnlen\<close>; \<open>n\<close> is the distance from the start.\<close>

fun strnlen_loop :: "string \<Rightarrow> u64 \<Rightarrow> u64 \<Rightarrow> u64" where
  "strnlen_loop [] count n = n"
| "strnlen_loop (c # s) count n = (if count \<noteq> 0 \<and> c \<noteq> NUL then strnlen_loop s (count - 1) (n + 1) else n)"

definition strnlen :: "string \<Rightarrow> u64 \<Rightarrow> u64" where
  "strnlen s count = strnlen_loop s count 0"

section \<open>Parsing numbers\<close>

text \<open>The base a prefix selects when the given one is 0, and the position after the prefix.\<close>

definition parse_base :: "string \<Rightarrow> u32 \<Rightarrow> u32 \<times> string" where
  "parse_base cp base =
     (if base = 0 then
        if peek cp = CHR ''0'' then
          let cp = tl cp in
          if peek cp = CHR ''x'' \<and> isxdigit (code (peek (tl cp))) then (16, tl cp) else (8, cp)
        else (10, cp)
      else (base, cp))"

definition strtoul_value :: "char \<Rightarrow> u64" where
  "strtoul_value c = of_int (if isdigit (code c) then code c - code CHR ''0'' else toupper (code c) - code CHR ''A'' + 10)"

fun strtoul_loop :: "string \<Rightarrow> u32 \<Rightarrow> u64 \<Rightarrow> u64 \<times> string" where
  "strtoul_loop [] base result = (result, [])"
| "strtoul_loop (c # cp) base result =
     (if isxdigit (code c) \<and> strtoul_value c < ucast base
      then strtoul_loop cp base (result * ucast base + strtoul_value c)
      else (result, c # cp))"

text \<open>The result and the rest of the string, which is what \<^verbatim>\<open>endp\<close> receives.\<close>

definition simple_strtoul :: "string \<Rightarrow> u32 \<Rightarrow> u64 \<times> string" where
  "simple_strtoul cp base = (case parse_base cp base of (base, cp) \<Rightarrow> strtoul_loop cp base 0)"

definition simple_strtol :: "string \<Rightarrow> u32 \<Rightarrow> u64 \<times> string" where
  "simple_strtol cp base =
     (if peek cp = CHR ''-'' then apfst uminus (simple_strtoul (tl cp) base) else simple_strtoul cp base)"

definition strtoull_value :: "char \<Rightarrow> u64" where
  "strtoull_value c = of_int (if isdigit (code c) then code c - code CHR ''0''
     else (if islower (code c) then toupper (code c) else code c) - code CHR ''A'' + 10)"

fun strtoull_loop :: "string \<Rightarrow> u32 \<Rightarrow> u64 \<Rightarrow> u64 \<times> string" where
  "strtoull_loop [] base result = (result, [])"
| "strtoull_loop (c # cp) base result =
     (if isxdigit (code c) \<and> strtoull_value c < ucast base
      then strtoull_loop cp base (result * ucast base + strtoull_value c)
      else (result, c # cp))"

definition simple_strtoull :: "string \<Rightarrow> u32 \<Rightarrow> u64 \<times> string" where
  "simple_strtoull cp base = (case parse_base cp base of (base, cp) \<Rightarrow> strtoull_loop cp base 0)"

definition simple_strtoll :: "string \<Rightarrow> u32 \<Rightarrow> u64 \<times> string" where
  "simple_strtoll cp base =
     (if peek cp = CHR ''-'' then apfst uminus (simple_strtoull (tl cp) base) else simple_strtoull cp base)"

section \<open>Integers\<close>

text \<open>The value of an \<^verbatim>\<open>int\<close> expression, unless it overflows.\<close>

definition cint :: "int \<Rightarrow> int option" where
  "cint i = (if - 0x80000000 \<le> i \<and> i \<le> 0x7fffffff then Some i else None)"

fun skip_atoi_loop :: "string \<Rightarrow> int \<Rightarrow> (int \<times> string) option" where
  "skip_atoi_loop [] i = Some (i, [])"
| "skip_atoi_loop (c # s) i =
     (if isdigit (code c) then do {
        i \<leftarrow> cint (i * 10);
        i \<leftarrow> cint (i + code c);
        i \<leftarrow> cint (i - code CHR ''0'');
        skip_atoi_loop s i
      }
      else Some (i, c # s))"

definition skip_atoi :: "string \<Rightarrow> (int \<times> string) option" where
  "skip_atoi s = skip_atoi_loop s 0"

section \<open>Output\<close>

type_synonym sink = "byte_mem \<times> u64"

text \<open>\<^verbatim>\<open>if (str <= end) *str = c; ++str\<close>\<close>

definition put :: "u64 \<Rightarrow> char \<Rightarrow> sink \<Rightarrow> sink" where
  "put fin c out = (case out of (m, str) \<Rightarrow> (if str \<le> fin then m(str := of_char c) else m, str + 1))"

text \<open>\<^verbatim>\<open>while (low < n--) put\<close>, with the value of \<open>n\<close> after the loop\<close>

function pad_while :: "u64 \<Rightarrow> char \<Rightarrow> int \<Rightarrow> int \<Rightarrow> sink \<Rightarrow> (int \<times> sink) option" where
  "pad_while fin c low n out = do {
     n' \<leftarrow> cint (n - 1);
     if low < n then pad_while fin c low n' (put fin c out) else Some (n', out)
   }"
  by pat_completeness auto
termination
  by (relation "measure (\<lambda>(_, _, low, n, _). nat (n - low))") (auto simp: cint_def split: if_splits)

text \<open>\<^verbatim>\<open>while (--n > 0) put\<close>\<close>

function pad_pre :: "u64 \<Rightarrow> char \<Rightarrow> int \<Rightarrow> sink \<Rightarrow> (int \<times> sink) option" where
  "pad_pre fin c n out = do {
     n' \<leftarrow> cint (n - 1);
     if n' > 0 then pad_pre fin c n' (put fin c out) else Some (n', out)
   }"
  by pat_completeness auto
termination
  by (relation "measure (\<lambda>(_, _, n, _). nat n)") (auto simp: cint_def split: if_splits)

declare pad_while.simps [simp del] pad_pre.simps [simp del]

definition ZEROPAD :: u32 where "ZEROPAD = 1"
definition SIGN :: u32 where "SIGN = 2"
definition PLUS :: u32 where "PLUS = 4"
definition SPACE :: u32 where "SPACE = 8"
definition LEFT :: u32 where "LEFT = 16"
definition SPECIAL :: u32 where "SPECIAL = 32"
definition LARGE :: u32 where "LARGE = 64"

abbreviation flag :: "u32 \<Rightarrow> u32 \<Rightarrow> bool" where
  "flag flags f \<equiv> flags AND f \<noteq> 0"

section \<open>Formatting a number\<close>

text \<open>The sign, the magnitude and the remaining width. Negating the smallest number overflows.\<close>

definition number_sign :: "u32 \<Rightarrow> u64 \<Rightarrow> int \<Rightarrow> (char \<times> u64 \<times> int) option" where
  "number_sign type num width =
     (if flag type SIGN then
        if sint num < 0 then
          if num = push_bit 63 1 then None
          else do { width \<leftarrow> cint (width - 1); Some (CHR ''-'', - num, width) }
        else if flag type PLUS then do { width \<leftarrow> cint (width - 1); Some (CHR ''+'', num, width) }
        else if flag type SPACE then do { width \<leftarrow> cint (width - 1); Some (CHR '' '', num, width) }
        else Some (NUL, num, width)
      else Some (NUL, num, width))"

definition number_special :: "u32 \<Rightarrow> int \<Rightarrow> int \<Rightarrow> int option" where
  "number_special type base width =
     (if flag type SPECIAL then if base = 16 then cint (width - 2) else if base = 8 then cint (width - 1) else Some width
      else Some width)"

text \<open>The digits, lowest first, in the array \<^verbatim>\<open>tmp\<close> of 66 characters.\<close>

function number_digits :: "string \<Rightarrow> u64 \<Rightarrow> u64 \<Rightarrow> string \<Rightarrow> string option" where
  "number_digits digits base value tmp =
     (if value = 0 then Some tmp
      else if length tmp < 66 \<and> unat (value mod base) < length digits
      then number_digits digits base (value div base) (tmp @ [digits ! unat (value mod base)])
      else None)"
  by pat_completeness auto
termination
  by (relation "measure (\<lambda>(_, _, _, tmp). 66 - length tmp)") auto

declare number_digits.simps [simp del]

text \<open>\<^verbatim>\<open>while (i-- > 0) put tmp[i]\<close>\<close>

fun put_tmp :: "u64 \<Rightarrow> string \<Rightarrow> nat \<Rightarrow> sink \<Rightarrow> sink" where
  "put_tmp fin tmp 0 out = out"
| "put_tmp fin tmp (Suc i) out = put_tmp fin tmp i (put fin (tmp ! i) out)"

definition put_special :: "u64 \<Rightarrow> string \<Rightarrow> u32 \<Rightarrow> int \<Rightarrow> sink \<Rightarrow> sink" where
  "put_special fin digits type base out =
     (if flag type SPECIAL then
        if base = 8 then put fin CHR ''0'' out
        else if base = 16 then put fin (digits ! 33) (put fin CHR ''0'' out)
        else out
      else out)"

text \<open>The output of \<^verbatim>\<open>number\<close>, once the digits and the remaining width are known.\<close>

definition number_emit :: "u64 \<Rightarrow> string \<Rightarrow> u32 \<Rightarrow> int \<Rightarrow> char \<Rightarrow> string \<Rightarrow> int \<Rightarrow> int \<Rightarrow> sink \<Rightarrow> sink option" where
  "number_emit fin digits type base sign tmp precision width out = do {
     let c = (if flag type ZEROPAD then CHR ''0'' else CHR '' '');
     (width, out) \<leftarrow> (if \<not> flag type (ZEROPAD + LEFT) then pad_while fin CHR '' '' 0 width out else Some (width, out));
     let out = (if sign \<noteq> NUL then put fin sign out else out);
     let out = put_special fin digits type base out;
     (width, out) \<leftarrow> (if \<not> flag type LEFT then pad_while fin c 0 width out else Some (width, out));
     (precision, out) \<leftarrow> pad_while fin CHR ''0'' (int (length tmp)) precision out;
     let out = put_tmp fin tmp (length tmp) out;
     (width, out) \<leftarrow> pad_while fin CHR '' '' 0 width out;
     Some out
   }"

definition number :: "u64 \<Rightarrow> u64 \<Rightarrow> int \<Rightarrow> int \<Rightarrow> int \<Rightarrow> u32 \<Rightarrow> sink \<Rightarrow> sink option" where
  "number fin num base width precision type out = do {
     let digits = (if flag type LARGE then large_digits else small_digits);
     let type = (if flag type LEFT then type AND NOT ZEROPAD else type);
     if base < 2 \<or> base > 36 then Some (fst out, 0)
     else do {
       (sign, num, width) \<leftarrow> number_sign type num width;
       width \<leftarrow> number_special type base width;
       tmp \<leftarrow> (if num = 0 then Some ''0'' else number_digits digits (of_int base) num []);
       let i = int (length tmp);
       let precision = (if i > precision then i else precision);
       width \<leftarrow> cint (width - precision);
       number_emit fin digits type base sign tmp precision width out
     }
   }"

section \<open>Variable arguments\<close>

datatype va = Val u64 | Str "string option"

definition va_val :: "va list \<Rightarrow> (u64 \<times> va list) option" where
  "va_val args = (case args of Val w # args \<Rightarrow> Some (w, args) | _ \<Rightarrow> None)"

definition va_int :: "va list \<Rightarrow> (int \<times> va list) option" where
  "va_int args = map_option (\<lambda>(w, args). (sint (ucast w :: u32), args)) (va_val args)"

definition va_str :: "va list \<Rightarrow> (string option \<times> va list) option" where
  "va_str args = (case args of Str s # args \<Rightarrow> Some (s, args) | _ \<Rightarrow> None)"

section \<open>Format directives\<close>

text \<open>The flags, from the character after the percent sign on.\<close>

fun parse_flags :: "string \<Rightarrow> u32 \<Rightarrow> u32 \<times> string" where
  "parse_flags [] flags = (flags, [])"
| "parse_flags (c # fmt) flags =
     (if c = CHR ''-'' then parse_flags fmt (flags OR LEFT)
      else if c = CHR ''+'' then parse_flags fmt (flags OR PLUS)
      else if c = CHR '' '' then parse_flags fmt (flags OR SPACE)
      else if c = CHR ''#'' then parse_flags fmt (flags OR SPECIAL)
      else if c = CHR ''0'' then parse_flags fmt (flags OR ZEROPAD)
      else (flags, c # fmt))"

definition parse_width :: "string \<Rightarrow> va list \<Rightarrow> u32 \<Rightarrow> (int \<times> u32 \<times> string \<times> va list) option" where
  "parse_width fmt args flags =
     (if isdigit (code (peek fmt)) then do {
        (field_width, fmt) \<leftarrow> skip_atoi fmt;
        Some (field_width, flags, fmt, args)
      }
      else if peek fmt = CHR ''*'' then do {
        (field_width, args) \<leftarrow> va_int args;
        if field_width < 0 then do {
          field_width \<leftarrow> cint (- field_width);
          Some (field_width, flags OR LEFT, tl fmt, args)
        }
        else Some (field_width, flags, tl fmt, args)
      }
      else Some (- 1, flags, fmt, args))"

definition parse_precision :: "string \<Rightarrow> va list \<Rightarrow> (int \<times> string \<times> va list) option" where
  "parse_precision fmt args =
     (if peek fmt = CHR ''.'' then do {
        let fmt = tl fmt;
        (precision, fmt, args) \<leftarrow>
          (if isdigit (code (peek fmt)) then do {
             (precision, fmt) \<leftarrow> skip_atoi fmt;
             Some (precision, fmt, args)
           }
           else if peek fmt = CHR ''*'' then do {
             (precision, args) \<leftarrow> va_int args;
             Some (precision, tl fmt, args)
           }
           else Some (- 1, fmt, args));
        Some (if precision < 0 then 0 else precision, fmt, args)
      }
      else Some (- 1, fmt, args))"

text \<open>The qualifier, \<open>NUL\<close> for none.\<close>

definition parse_qualifier :: "string \<Rightarrow> char \<times> string" where
  "parse_qualifier fmt =
     (if peek fmt = CHR ''h'' \<or> peek fmt = CHR ''l'' \<or> peek fmt = CHR ''L'' \<or> peek fmt = CHR ''Z''
      then (peek fmt, tl fmt) else (NUL, fmt))"

section \<open>Conversions\<close>

definition conv_char :: "u64 \<Rightarrow> u32 \<Rightarrow> int \<Rightarrow> va list \<Rightarrow> sink \<Rightarrow> (va list \<times> sink) option" where
  "conv_char fin flags field_width args out = do {
     (field_width, out) \<leftarrow> (if \<not> flag flags LEFT then pad_pre fin CHR '' '' field_width out else Some (field_width, out));
     (c, args) \<leftarrow> va_int args;
     let out = put fin (char_of c) out;
     (field_width, out) \<leftarrow> pad_pre fin CHR '' '' field_width out;
     Some (args, out)
   }"

text \<open>\<^verbatim>\<open>for (i = 0; i < len; i++) put *s++\<close>\<close>

fun put_str :: "u64 \<Rightarrow> string \<Rightarrow> nat \<Rightarrow> sink \<Rightarrow> sink" where
  "put_str fin s 0 out = out"
| "put_str fin s (Suc n) out = put_str fin (tl s) n (put fin (peek s) out)"

definition conv_str :: "u64 \<Rightarrow> u32 \<Rightarrow> int \<Rightarrow> int \<Rightarrow> va list \<Rightarrow> sink \<Rightarrow> (va list \<times> sink) option" where
  "conv_str fin flags field_width precision args out = do {
     (s, args) \<leftarrow> va_str args;
     let s = (case s of None \<Rightarrow> ''<NULL>'' | Some s \<Rightarrow> s);
     let len = sint (ucast (strnlen s (of_int precision)) :: u32);
     (field_width, out) \<leftarrow> (if \<not> flag flags LEFT then pad_while fin CHR '' '' len field_width out else Some (field_width, out));
     let out = put_str fin s (nat len) out;
     (field_width, out) \<leftarrow> pad_while fin CHR '' '' len field_width out;
     Some (args, out)
   }"

definition conv_ptr :: "u64 \<Rightarrow> u32 \<Rightarrow> int \<Rightarrow> int \<Rightarrow> va list \<Rightarrow> sink \<Rightarrow> (va list \<times> sink) option" where
  "conv_ptr fin flags field_width precision args out = do {
     let (field_width, flags) = (if field_width = - 1 then (16, flags OR ZEROPAD) else (field_width, flags));
     (w, args) \<leftarrow> va_val args;
     out \<leftarrow> number fin w 16 field_width precision flags out;
     Some (args, out)
   }"

definition store32 :: "byte_mem \<Rightarrow> u64 \<Rightarrow> u64 \<Rightarrow> byte_mem" where
  "store32 m a w = fold (\<lambda>i m. m(a + of_nat i := byte_of w i)) [0..<4] m"

definition conv_count :: "u64 \<Rightarrow> char \<Rightarrow> va list \<Rightarrow> sink \<Rightarrow> (va list \<times> sink) option" where
  "conv_count buf qualifier args out = do {
     (ip, args) \<leftarrow> va_val args;
     let (m, str) = out;
     if qualifier = CHR ''l'' then Some (args, store64 m ip (str - buf), str)
     else if qualifier = CHR ''Z'' then Some (args, store64 m ip (str - buf), str)
     else Some (args, store32 m ip (str - buf), str)
   }"

text \<open>The argument of an integer conversion, by qualifier and signedness.\<close>

definition int_arg :: "char \<Rightarrow> u32 \<Rightarrow> u64 \<Rightarrow> u64" where
  "int_arg qualifier flags w =
     (if qualifier = CHR ''L'' then w
      else if qualifier = CHR ''l'' then w
      else if qualifier = CHR ''Z'' then w
      else if qualifier = CHR ''h'' then
        if flag flags SIGN then scast (ucast w :: 16 word) else ucast (ucast w :: 16 word)
      else
        if flag flags SIGN then scast (ucast w :: u32) else ucast (ucast w :: u32))"

definition conv_int ::
  "u64 \<Rightarrow> int \<Rightarrow> u32 \<Rightarrow> int \<Rightarrow> int \<Rightarrow> char \<Rightarrow> va list \<Rightarrow> sink \<Rightarrow> (va list \<times> sink) option" where
  "conv_int fin base flags field_width precision qualifier args out = do {
     (w, args) \<leftarrow> va_val args;
     out \<leftarrow> number fin (int_arg qualifier flags w) base field_width precision flags out;
     Some (args, out)
   }"

text \<open>The switch on the conversion character; the default prints the directive's last character.\<close>

definition convert ::
  "u64 \<Rightarrow> u64 \<Rightarrow> u32 \<Rightarrow> int \<Rightarrow> int \<Rightarrow> char \<Rightarrow> char \<Rightarrow> va list \<Rightarrow> sink \<Rightarrow> (va list \<times> sink) option" where
  "convert buf fin flags field_width precision qualifier c args out =
     (if c = CHR ''c'' then conv_char fin flags field_width args out
      else if c = CHR ''s'' then conv_str fin flags field_width precision args out
      else if c = CHR ''p'' then conv_ptr fin flags field_width precision args out
      else if c = CHR ''n'' then conv_count buf qualifier args out
      else if c = CHR ''%'' then Some (args, put fin CHR ''%'' out)
      else if c = CHR ''o'' then conv_int fin 8 flags field_width precision qualifier args out
      else if c = CHR ''X'' then conv_int fin 16 (flags OR LARGE) field_width precision qualifier args out
      else if c = CHR ''x'' then conv_int fin 16 flags field_width precision qualifier args out
      else if c = CHR ''d'' \<or> c = CHR ''i'' then conv_int fin 10 (flags OR SIGN) field_width precision qualifier args out
      else if c = CHR ''u'' then conv_int fin 10 flags field_width precision qualifier args out
      else
        let out = put fin CHR ''%'' out in
        Some (args, if c \<noteq> NUL then put fin c out else out))"

text \<open>
  The parts of a directive after its percent sign, then its conversion; the result is the rest of the
  format. The default case steps back at the end of the format, which the loop then finds again.
\<close>

definition directive :: "u64 \<Rightarrow> u64 \<Rightarrow> string \<Rightarrow> va list \<Rightarrow> sink \<Rightarrow> (string \<times> va list \<times> sink) option" where
  "directive buf fin fmt args out = do {
     let (flags, fmt) = parse_flags fmt 0;
     (field_width, flags, fmt, args) \<leftarrow> parse_width fmt args flags;
     (precision, fmt, args) \<leftarrow> parse_precision fmt args;
     let (qualifier, fmt) = parse_qualifier fmt;
     (args, out) \<leftarrow> convert buf fin flags field_width precision qualifier (peek fmt) args out;
     Some (if peek fmt = NUL then fmt else tl fmt, args, out)
   }"

lemma parse_flags_length: "length (snd (parse_flags fmt flags)) \<le> length fmt"
  by (induction fmt flags rule: parse_flags.induct) auto

lemma skip_atoi_length: "skip_atoi_loop s i = Some (j, s') \<Longrightarrow> length s' \<le> length s"
  by (induction s i arbitrary: j s' rule: skip_atoi_loop.induct) (fastforce split: if_splits Option.bind_splits)+

lemma parse_width_length: "parse_width fmt args flags = Some (w, flags', fmt', args') \<Longrightarrow> length fmt' \<le> length fmt"
  by (auto simp: parse_width_def skip_atoi_def dest: skip_atoi_length split: if_splits Option.bind_splits)

lemma parse_precision_length: "parse_precision fmt args = Some (w, fmt', args') \<Longrightarrow> length fmt' \<le> length fmt"
  by (auto simp: parse_precision_def skip_atoi_def Let_def dest!: skip_atoi_length split: if_splits Option.bind_splits)

lemma parse_qualifier_length: "length (snd (parse_qualifier fmt)) \<le> length fmt"
  by (simp add: parse_qualifier_def)

lemma directive_length:
  assumes "directive buf fin fmt args out = Some (fmt', args', out')"
  shows "length fmt' \<le> length fmt"
proof -
  obtain flags fmt1 where 1: "parse_flags fmt 0 = (flags, fmt1)" by fastforce
  from assms 1 obtain w flags2 fmt2 args2 where 2: "parse_width fmt1 args flags = Some (w, flags2, fmt2, args2)"
    by (auto simp: directive_def split: Option.bind_splits)
  from assms 1 2 obtain p fmt3 args3 where 3: "parse_precision fmt2 args2 = Some (p, fmt3, args3)"
    by (auto simp: directive_def split: Option.bind_splits)
  have "length fmt' \<le> length (snd (parse_qualifier fmt3))"
    using assms 1 2 3 by (auto simp: directive_def Let_def split: Option.bind_splits if_splits prod.splits)
  then show ?thesis
    using parse_flags_length [of fmt 0] parse_width_length [OF 2] parse_precision_length [OF 3] parse_qualifier_length [of fmt3] 1
    by simp
qed

section \<open>The loop over the format\<close>

function vsnprintf_loop :: "u64 \<Rightarrow> u64 \<Rightarrow> string \<Rightarrow> va list \<Rightarrow> sink \<Rightarrow> sink option" where
  "vsnprintf_loop buf fin fmt args out =
     (if peek fmt = NUL then Some out
      else if peek fmt \<noteq> CHR ''%'' then vsnprintf_loop buf fin (tl fmt) args (put fin (peek fmt) out)
      else do {
        (fmt, args, out) \<leftarrow> directive buf fin (tl fmt) args out;
        vsnprintf_loop buf fin fmt args out
      })"
  by pat_completeness auto
termination
proof (relation "measure (\<lambda>(_, _, fmt, _, _). length fmt)")
  fix buf fin args out and fmt :: string
  assume "peek fmt \<noteq> NUL"
  then have "fmt \<noteq> []" by (auto simp: peek_def)
  then show "((buf, fin, tl fmt, args, put fin (peek fmt) out), buf, fin, fmt, args, out) \<in> measure (\<lambda>(_, _, fmt, _, _). length fmt)"
    by simp
next
  fix buf fin args out r fmt' s args' out' and fmt :: string
  assume "peek fmt \<noteq> NUL" "directive buf fin (tl fmt) args out = Some r" "(fmt', s) = r" "(args', out') = s"
  moreover from this have "fmt \<noteq> []" by (auto simp: peek_def)
  ultimately show "((buf, fin, fmt', args', out'), buf, fin, fmt, args, out) \<in> measure (\<lambda>(_, _, fmt, _, _). length fmt)"
    using directive_length [of buf fin "tl fmt" args out fmt' args' out'] by (cases fmt) auto
qed simp

declare vsnprintf_loop.simps [simp del]

text \<open>The terminating NUL is written where the text ends, or at the end of a buffer that is too small.\<close>

definition vsnprintf_end :: "u64 \<Rightarrow> u64 \<Rightarrow> sink \<Rightarrow> byte_mem" where
  "vsnprintf_end fin sz out = (case out of (m, str) \<Rightarrow> if str \<le> fin then m(str := 0) else if sz > 0 then m(fin := 0) else m)"

text \<open>The return value is the truncation of the pointer difference to an \<^verbatim>\<open>int\<close>.\<close>

definition vsnprintf :: "byte_mem \<Rightarrow> u64 \<Rightarrow> u64 \<Rightarrow> string \<Rightarrow> va list \<Rightarrow> (byte_mem \<times> int) option" where
  "vsnprintf m buf sz fmt args = do {
     let fin = buf + sz - 1;
     let (fin, sz) = (if fin < buf - 1 then (- 1, - 1 - buf + 1) else (fin, sz));
     (m, str) \<leftarrow> vsnprintf_loop buf fin fmt args (m, buf);
     Some (vsnprintf_end fin sz (m, str), sint (ucast (str - buf) :: u32))
   }"

definition snprintf :: "byte_mem \<Rightarrow> u64 \<Rightarrow> u64 \<Rightarrow> string \<Rightarrow> va list \<Rightarrow> (byte_mem \<times> int) option" where
  "snprintf m buf sz fmt args = vsnprintf m buf sz fmt args"

definition vsprintf :: "byte_mem \<Rightarrow> u64 \<Rightarrow> string \<Rightarrow> va list \<Rightarrow> (byte_mem \<times> int) option" where
  "vsprintf m buf fmt args = vsnprintf m buf 0xFFFFFFFF fmt args"

definition sprintf :: "byte_mem \<Rightarrow> u64 \<Rightarrow> string \<Rightarrow> va list \<Rightarrow> (byte_mem \<times> int) option" where
  "sprintf m buf fmt args = vsprintf m buf fmt args"

end
