(* ===== verification/Vsprintf_Text.thy ===== *)
theory Vsprintf_Text
  imports Vsprintf
begin

text \<open>
  What formatted output means: the text of every conversion as a string, without a buffer, and the
  proof that the code of \<^verbatim>\<open>lib/vsprintf.c\<close> emits exactly these characters, one after the other.
\<close>

unbundle bit_operations_syntax

section \<open>Emitting a string\<close>

definition puts :: "u64 \<Rightarrow> string \<Rightarrow> sink \<Rightarrow> sink" where
  "puts fin s out = fold (put fin) s out"

lemma puts_simps [simp]:
  "puts fin [] out = out" "puts fin (c # s) out = puts fin s (put fin c out)"
  "puts fin (s @ t) out = puts fin t (puts fin s out)"
  by (simp_all add: puts_def)

lemma pad_while_puts:
  "- 0x80000000 < low \<Longrightarrow> - 0x80000000 < n \<Longrightarrow> n \<le> 0x7fffffff \<Longrightarrow>
     pad_while fin c low n out = Some (if low < n then low - 1 else n - 1, puts fin (replicate (nat (n - low)) c) out)"
proof (induction fin c low n out rule: pad_while.induct)
  case (1 fin c low n out)
  have c: "cint (n - 1) = Some (n - 1)" using 1(2-4) by (simp add: cint_def)
  show ?case
  proof (cases "low < n")
    case True
    then have "nat (n - low) = Suc (nat (n - 1 - low))" by simp
    then show ?thesis using 1(1) [OF c True] 1(2-4) True by (simp add: pad_while.simps [of fin c low n out] c)
  next
    case False
    then show ?thesis by (simp add: pad_while.simps [of fin c low n out] c)
  qed
qed

lemma pad_pre_puts:
  "- 0x80000000 < n \<Longrightarrow> n \<le> 0x7fffffff \<Longrightarrow>
     pad_pre fin c n out = Some (if 1 < n then 0 else n - 1, puts fin (replicate (nat (n - 1)) c) out)"
proof (induction fin c n out rule: pad_pre.induct)
  case (1 fin c n out)
  have c: "cint (n - 1) = Some (n - 1)" using 1(2,3) by (simp add: cint_def)
  show ?case
  proof (cases "0 < n - 1")
    case True
    then have "nat (n - 1) = Suc (nat (n - 1 - 1))" by simp
    then show ?thesis using 1(1) [OF c True] 1(2,3) True by (simp add: pad_pre.simps [of fin c n out] c)
  next
    case False
    then show ?thesis by (simp add: pad_pre.simps [of fin c n out] c)
  qed
qed

lemma put_tmp_puts: "n \<le> length tmp \<Longrightarrow> put_tmp fin tmp n out = puts fin (rev (take n tmp)) out"
  by (induction n arbitrary: out) (simp_all add: take_Suc_conv_app_nth)

lemma put_str_puts: "n \<le> length s \<Longrightarrow> put_str fin s n out = puts fin (take n s) out"
proof (induction n arbitrary: s out)
  case (Suc n)
  then obtain c t where "s = c # t" by (cases s) auto
  with Suc show ?case by (simp add: peek_def)
qed simp

section \<open>Digits\<close>

text \<open>The digits of a number in a base, highest first.\<close>

function radix :: "nat \<Rightarrow> nat \<Rightarrow> nat list" where
  "radix b v = (if b < 2 \<or> v < b then [v] else radix b (v div b) @ [v mod b])"
  by pat_completeness auto
termination
  by (relation "measure snd") auto

declare radix.simps [simp del]

lemma radix_digits: "2 \<le> b \<Longrightarrow> \<forall>d\<in>set (radix b v). d < b"
proof (induction b v rule: radix.induct)
  case (1 b v)
  then show ?case by (subst radix.simps) auto
qed

lemma radix_value: "2 \<le> b \<Longrightarrow> foldl (\<lambda>a d. a * b + d) 0 (radix b v) = v"
proof (induction b v rule: radix.induct)
  case (1 b v)
  then show ?case by (subst radix.simps) (auto simp: mult.commute)
qed

lemma radix_length: "2 \<le> b \<Longrightarrow> v < 2 ^ n \<Longrightarrow> 0 < n \<Longrightarrow> length (radix b v) \<le> n"
proof (induction b v arbitrary: n rule: radix.induct)
  case (1 b v)
  show ?case
  proof (cases "v < b")
    case True
    then show ?thesis using 1(4) by (subst radix.simps) simp
  next
    case False
    then obtain n' where n: "n = Suc n'" "n' > 0" using 1(2-4) by (cases n; cases "n = 1") auto
    have "v div b \<le> v div 2" using 1(2) by (simp add: div_le_mono2)
    moreover have "v div 2 < 2 ^ n'" using 1(3) n(1) by (intro less_mult_imp_div_less) (simp add: mult.commute)
    ultimately have "length (radix b (v div b)) \<le> n'" using 1(1) [of n'] 1(2) False n(2) by simp
    then show ?thesis using n by (subst radix.simps) simp
  qed
qed

lemma radix_nonempty [simp]: "radix b v \<noteq> []"
  by (subst radix.simps) simp

lemma number_digits_radix:
  assumes b2: "2 \<le> b" "b < 2 ^ 64"
  shows "b \<le> length digits \<Longrightarrow> value \<noteq> 0 \<Longrightarrow> unat value < 2 ^ (66 - length tmp) \<Longrightarrow>
    number_digits digits (of_nat b) value tmp = Some (tmp @ rev (map ((!) digits) (radix b (unat value))))"
proof (induction digits "of_nat b :: u64" "value" tmp rule: number_digits.induct)
  case (1 digits "value" tmp)
  have b: "unat (of_nat b :: u64) = b" using b2(2) by (simp add: unat_of_nat)
  have d: "unat (value div of_nat b) = unat value div b" "unat (value mod of_nat b) = unat value mod b"
    by (simp_all add: unat_div unat_mod b)
  have l: "length tmp < 66" using 1(3,4) by (cases "length tmp < 66") (auto simp: unat_eq_zero)
  have m: "unat value mod b < length digits"
    using b2(1) 1(2) mod_less_divisor [of b "unat value"] by linarith
  show ?case
  proof (cases "value div of_nat b = 0")
    case True
    then have z: "unat value < b" using d(1) b2(1) by (simp add: div_eq_0_iff)
    then show ?thesis using 1(3) True l m d(2)
      by (simp add: number_digits.simps [of digits _ "value" tmp] number_digits.simps [of digits _ 0] radix.simps [of b "unat value"])
  next
    case False
    then have z: "\<not> unat value < b" using d(1) by (metis div_less unat_eq_zero)
    have "unat value div b \<le> unat value div 2" using b2(1) by (simp add: div_le_mono2)
    moreover have "66 - length tmp = Suc (65 - length tmp)" using l by simp
    then have "unat value div 2 < 2 ^ (65 - length tmp)" using 1(4) by (intro less_mult_imp_div_less) (simp add: mult.commute)
    ultimately have "unat (value div of_nat b) < 2 ^ (66 - length (tmp @ [digits ! unat (value mod of_nat b)]))"
      by (simp add: d(1))
    then show ?thesis using 1(1) [OF 1(3) _ 1(2) False] 1(3) l m z b2(1)
      by (simp add: number_digits.simps [of digits _ "value" tmp] d radix.simps [of b "unat value"])
  qed
qed

section \<open>The text of a number\<close>

definition table :: "u32 \<Rightarrow> string" where
  "table flags = (if flag flags LARGE then large_digits else small_digits)"

definition negative :: "u32 \<Rightarrow> u64 \<Rightarrow> bool" where
  "negative flags num \<longleftrightarrow> flag flags SIGN \<and> sint num < 0"

definition sign_text :: "u32 \<Rightarrow> u64 \<Rightarrow> string" where
  "sign_text flags num =
     (if negative flags num then ''-''
      else if flag flags SIGN \<and> flag flags PLUS then ''+''
      else if flag flags SIGN \<and> flag flags SPACE then '' ''
      else [])"

definition prefix_text :: "u32 \<Rightarrow> int \<Rightarrow> string" where
  "prefix_text flags base =
     (if \<not> flag flags SPECIAL then []
      else if base = 16 then (if flag flags LARGE then ''0X'' else ''0x'')
      else if base = 8 then ''0'' else [])"

definition digits_text :: "u32 \<Rightarrow> int \<Rightarrow> u64 \<Rightarrow> string" where
  "digits_text flags base num =
     map ((!) (table flags)) (radix (nat base) (if negative flags num then nat (- sint num) else unat num))"

definition number_text :: "u64 \<Rightarrow> int \<Rightarrow> int \<Rightarrow> int \<Rightarrow> u32 \<Rightarrow> string" where
  "number_text num base width precision flags = (
     let digs = digits_text flags base num;
         lead = sign_text flags num @ prefix_text flags base;
         body = replicate (nat precision - length digs) CHR ''0'' @ digs;
         fill = nat (width - int (length lead + length body)) in
     if flag flags LEFT then lead @ body @ replicate fill CHR '' ''
     else if flag flags ZEROPAD then lead @ replicate fill CHR ''0'' @ body
     else replicate fill CHR '' '' @ lead @ body)"

lemmas flag_defs = ZEROPAD_def SIGN_def PLUS_def SPACE_def LEFT_def SPECIAL_def LARGE_def

lemma flag_or: "flag t (a OR b) \<longleftrightarrow> flag t a \<or> flag t b"
  by (simp add: bit.conj_disj_distrib or_eq_0_iff)

lemma flag_zeropad_left: "flag t (ZEROPAD + LEFT) \<longleftrightarrow> flag t ZEROPAD \<or> flag t LEFT"
proof -
  have "ZEROPAD + LEFT = ZEROPAD OR LEFT" by (simp add: flag_defs)
  then show ?thesis by (simp only: flag_or)
qed

lemma flag_without_zeropad:
  "(t AND NOT ZEROPAD) AND ZEROPAD = 0" "(t AND NOT ZEROPAD) AND SIGN = t AND SIGN"
  "(t AND NOT ZEROPAD) AND PLUS = t AND PLUS" "(t AND NOT ZEROPAD) AND SPACE = t AND SPACE"
  "(t AND NOT ZEROPAD) AND LEFT = t AND LEFT" "(t AND NOT ZEROPAD) AND SPECIAL = t AND SPECIAL"
  "(t AND NOT ZEROPAD) AND LARGE = t AND LARGE"
  by (simp_all add: flag_defs and.assoc)

lemma uint_negative: "sint w < 0 \<Longrightarrow> uint w = sint w + 2 ^ 64" for w :: u64
  using unsigned_greater_eq [of w, where ?'a = int] unsigned_less [of w, where ?'a = int]
  by (auto simp: take_bit_int_eq_self sint_uint signed_take_bit_eq_take_bit_minus of_bool_def split: if_splits)

lemma unat_uminus_negative: "sint w < 0 \<Longrightarrow> unat (- w) = nat (- sint w)" for w :: u64
proof -
  assume n: "sint w < 0"
  then have "uint w \<noteq> 0" by (auto simp: uint_0_iff)
  moreover have "uint w mod 2 ^ 64 = uint w" using unsigned_less [of w, where ?'a = int] by simp
  ultimately have "uint (- w) = 2 ^ 64 - uint w" by (simp add: uint_word_ariths zmod_zminus1_eq_if)
  then show ?thesis using uint_negative [OF n] by (simp add: unat_eq_nat_uint)
qed

lemma number_sign_text:
  assumes "- 2 \<le> w" "w \<le> 0x7fffffff" "\<not> (flag t SIGN \<and> num = push_bit 63 1)"
  obtains s mag where "number_sign t num w = Some (s, mag, w - int (length (sign_text t num)))"
    "sign_text t num = (if s = NUL then [] else [s])"
    "unat mag = (if negative t num then nat (- sint num) else unat num)"
proof -
  have c: "cint (w - 1) = Some (w - 1)" using assms(1,2) by (simp add: cint_def)
  consider (neg) "negative t num" | (plus) "\<not> negative t num" "flag t SIGN" "flag t PLUS"
    | (space) "\<not> negative t num" "flag t SIGN" "\<not> flag t PLUS" "flag t SPACE"
    | (none) "\<not> negative t num" "\<not> flag t SIGN \<or> \<not> flag t PLUS \<and> \<not> flag t SPACE" by blast
  then show thesis
  proof cases
    case neg
    then show thesis using assms(3) c
      by (intro that [of "CHR ''-''" "- num"]) (auto simp: number_sign_def sign_text_def negative_def unat_uminus_negative)
  next
    case plus
    then show thesis using c
      by (intro that [of "CHR ''+''" num]) (simp_all add: number_sign_def sign_text_def negative_def)
  next
    case space
    then show thesis using c
      by (intro that [of "CHR '' ''" num]) (simp_all add: number_sign_def sign_text_def negative_def)
  next
    case none
    then show thesis
      by (intro that [of NUL num]) (auto simp: number_sign_def sign_text_def negative_def)
  qed
qed

lemma number_special_text:
  "- 16 \<le> w \<Longrightarrow> w \<le> 0x7fffffff \<Longrightarrow> number_special t base w = Some (w - int (length (prefix_text t base)))"
  by (simp add: number_special_def prefix_text_def cint_def)

lemma table_length: "length (table flags) = 36"
  by (simp add: table_def small_digits_def large_digits_def)

lemma put_special_text: "put_special fin (table t) t base out = puts fin (prefix_text t base) out"
  by (simp add: put_special_def prefix_text_def table_def small_digits_def large_digits_def)

lemma tmp_text:
  assumes "2 \<le> base" "base \<le> 36" "unat mag = v"
  shows "(if mag = 0 then Some ''0'' else number_digits (table t) (of_int base) mag []) =
    Some (rev (map ((!) (table t)) (radix (nat base) v)))"
proof (cases "mag = 0")
  case True
  then have "radix (nat base) v = [0]" using assms by (subst radix.simps) simp
  moreover have "table t ! 0 = CHR ''0''" by (simp add: table_def small_digits_def large_digits_def)
  ultimately show ?thesis using True by simp
next
  case False
  have "unat mag < 2 ^ 66" using u64_bound [of mag] by simp
  then show ?thesis
    using number_digits_radix [of "nat base" "table t" mag "[]"] assms False by (simp add: table_length)
qed

lemma number_emit_puts:
  assumes "sg = (if s = NUL then [] else [s])" and n: "- 0x7fffffff + 8 \<le> n" "n \<le> 0x7fffffff"
    and p: "int (length digs) \<le> p" "p \<le> 0x7fffff00" and z: "\<not> (flag t ZEROPAD \<and> flag t LEFT)"
    and zs: "zs = replicate (nat (p - int (length digs))) CHR ''0''"
  shows "number_emit fin (table t) t base s (rev digs) p n out = Some (puts fin
    (if flag t LEFT then sg @ prefix_text t base @ zs @ digs @ replicate (nat n) CHR '' ''
     else if flag t ZEROPAD then sg @ prefix_text t base @ replicate (nat n) CHR ''0'' @ zs @ digs
     else replicate (nat n) CHR '' '' @ sg @ prefix_text t base @ zs @ digs) out)"
proof -
  have sgp: "(if s \<noteq> NUL then put fin s o2 else o2) = puts fin sg o2" for o2 by (simp add: assms(1))
  have body: "pad_while fin CHR ''0'' (int (length digs)) p o2 = Some (int (length digs) - 1, puts fin zs o2)" for o2
    using p pad_while_puts [of "int (length digs)" p fin "CHR ''0''" o2] by (auto simp: zs)
  have pad: "pad_while fin c 0 k o2 = Some (if 0 < k then - 1 else k - 1, puts fin (replicate (nat k) c) o2)"
    if "- 0x7fffffff \<le> k" "k \<le> 0x7fffffff" for c k o2
    using that pad_while_puts [of 0 k fin c o2] by simp
  have f: "put_special fin (table t) t base o2 = puts fin (prefix_text t base) o2" for o2 by (rule put_special_text)
  consider (left) "flag t LEFT" "\<not> flag t ZEROPAD" | (zero) "\<not> flag t LEFT" "flag t ZEROPAD"
    | (plain) "\<not> flag t LEFT" "\<not> flag t ZEROPAD" using z by blast
  then show ?thesis
  proof cases
    case left
    then show ?thesis using n
      by (simp add: number_emit_def sgp f body pad flag_zeropad_left put_tmp_puts)
  next
    case zero
    then show ?thesis using n
      by (simp add: number_emit_def sgp f body pad flag_zeropad_left put_tmp_puts)
  next
    case plain
    then show ?thesis using n
      by (simp add: number_emit_def sgp f body pad flag_zeropad_left put_tmp_puts)
  qed
qed

lemma number_puts:
  assumes base: "2 \<le> base" "base \<le> 36" and w: "- 2 \<le> width" "width \<le> 0x7fffffff"
    and p: "- 1 \<le> precision" "precision \<le> 0x7fffff00" and min: "\<not> (flag flags SIGN \<and> num = push_bit 63 1)"
  shows "number fin num base width precision flags out = Some (puts fin (number_text num base width precision flags) out)"
proof -
  define t where "t = (if flag flags LEFT then flags AND NOT ZEROPAD else flags)"
  have t: "flag t SIGN = flag flags SIGN" "flag t PLUS = flag flags PLUS" "flag t SPACE = flag flags SPACE"
      "flag t LEFT = flag flags LEFT" "flag t SPECIAL = flag flags SPECIAL" "flag t ZEROPAD \<longleftrightarrow> flag flags ZEROPAD \<and> \<not> flag flags LEFT"
    by (simp_all add: t_def flag_without_zeropad)
  have large: "flag t LARGE = flag flags LARGE" by (simp add: t_def flag_without_zeropad)
  have eqs: "sign_text t num = sign_text flags num" "prefix_text t base = prefix_text flags base" "negative t num = negative flags num"
      "table t = table flags"
    by (simp_all add: sign_text_def prefix_text_def negative_def table_def t large)
  obtain s mag where s: "number_sign t num width = Some (s, mag, width - int (length (sign_text flags num)))"
    "sign_text flags num = (if s = NUL then [] else [s])"
    "unat mag = (if negative flags num then nat (- sint num) else unat num)"
    using number_sign_text [of width t num] w min t(1) unfolding eqs by metis
  define digs where "digs = digits_text flags base num"
  have tmp: "(if mag = 0 then Some ''0'' else number_digits (table flags) (of_int base) mag []) = Some (rev digs)"
    using tmp_text [OF base s(3), of flags] by (simp add: digs_def digits_text_def)
  have len: "length (sign_text flags num) \<le> 1" "length (prefix_text flags base) \<le> 2"
    by (simp_all add: sign_text_def prefix_text_def)
  have "0 < length digs" "length digs \<le> 64"
    using radix_length [of "nat base" "unat mag" 64] base u64_bound [of mag] s(3)
    by (simp_all add: digs_def digits_text_def)
  note len = len this
  define p' where "p' = (if int (length (rev digs)) > precision then int (length (rev digs)) else precision)"
  define n where "n = width - int (length (sign_text flags num)) - int (length (prefix_text flags base)) - p'"
  have p': "int (length digs) \<le> p'" "p' \<le> 0x7fffff00" "nat (p' - int (length digs)) = nat precision - length digs"
    using p len by (auto simp: p'_def)
  have n: "- 0x7fffffff + 8 \<le> n" "n \<le> 0x7fffffff" using p'(1,2) w len by (auto simp: n_def)
  have sp: "number_special t base (width - int (length (sign_text flags num))) =
      Some (width - int (length (sign_text flags num)) - int (length (prefix_text flags base)))"
    unfolding eqs(2) [symmetric] using w len by (intro number_special_text) auto
  have "number fin num base width precision flags out = number_emit fin (table flags) t base s (rev digs) p' n out"
    using base n unfolding n_def p'_def
    by (cases "int (length digs) > precision")
      (simp_all add: number_def Let_def table_def [symmetric] t_def [symmetric] s(1) sp tmp cint_def)
  also have "\<dots> = Some (puts fin (number_text num base width precision flags) out)"
  proof -
    let ?zs = "replicate (nat precision - length digs) CHR ''0''"
    have "length ?zs + length digs = nat p'" using p' by simp
    then have "width - int (length (sign_text flags num @ prefix_text flags base) + length (?zs @ digs)) = n"
      using p'(1) by (simp add: n_def)
    then show ?thesis
      using number_emit_puts [OF s(2) n p'(1,2), of t ?zs fin base out] t eqs
      by (simp add: number_text_def Let_def digs_def [symmetric] p'(3))
  qed
  finally show ?thesis .
qed

section \<open>The text of a directive\<close>

definition justify :: "u32 \<Rightarrow> int \<Rightarrow> string \<Rightarrow> string" where
  "justify flags width s = (
     let fill = replicate (nat (width - int (length s))) CHR '' '' in
     if flag flags LEFT then s @ fill else fill @ s)"

text \<open>
  The text of a conversion. It has none where the code's behaviour is undefined (arguments missing or
  of the wrong kind, the smallest number printed as signed) or depends on \<^verbatim>\<open>int\<close> arithmetic near its limits
  (a precision or a string of about \<open>2 ^ 31\<close> characters), and none for \<^verbatim>\<open>%n\<close>.
\<close>

definition num_text :: "int \<Rightarrow> int \<Rightarrow> int \<Rightarrow> u32 \<Rightarrow> u64 \<Rightarrow> string option" where
  "num_text base width precision flags w =
     (if precision \<le> 0x7fffff00 \<and> \<not> (flag flags SIGN \<and> w = push_bit 63 1)
      then Some (number_text w base width precision flags) else None)"

definition str_text :: "int \<Rightarrow> string option \<Rightarrow> string option" where
  "str_text precision s = (
     let s = (case s of None \<Rightarrow> ''<NULL>'' | Some s \<Rightarrow> s);
         t = takeWhile (\<lambda>c. c \<noteq> NUL) s;
         t = (if precision < 0 then t else take (nat precision) t) in
     if length s < 2 ^ 63 \<and> length t < 0x7fffffff then Some t else None)"

definition conv_text :: "u32 \<Rightarrow> int \<Rightarrow> int \<Rightarrow> char \<Rightarrow> char \<Rightarrow> va list \<Rightarrow> (string \<times> va list) option" where
  "conv_text flags width precision qualifier c args =
     (if c = CHR ''c'' then map_option (apfst (\<lambda>v. justify flags width [char_of v])) (va_int args)
      else if c = CHR ''s'' then do {
        (s, args) \<leftarrow> va_str args;
        t \<leftarrow> str_text precision s;
        Some (justify flags width t, args)
      }
      else if c = CHR ''%'' then Some (''%'', args)
      else if c = CHR ''n'' then None
      else if c \<in> set ''poXxdiu'' then do {
        (w, args) \<leftarrow> va_val args;
        let base = (if c \<in> set ''pXx'' then 16 else if c = CHR ''o'' then 8 else 10);
        let flags = (if c = CHR ''X'' then flags OR LARGE else if c \<in> set ''di'' then flags OR SIGN
                     else if c = CHR ''p'' \<and> width = - 1 then flags OR ZEROPAD else flags);
        let width = (if c = CHR ''p'' \<and> width = - 1 then 16 else width);
        t \<leftarrow> num_text base width precision flags (if c = CHR ''p'' then w else int_arg qualifier flags w);
        Some (t, args)
      }
      else Some (if c = NUL then ''%'' else [CHR ''%'', c], args))"

lemma justify_simps: "justify flags width s = (if flag flags LEFT then s @ replicate (nat (width - int (length s))) CHR '' ''
    else replicate (nat (width - int (length s))) CHR '' '' @ s)"
  by (simp add: justify_def Let_def)

lemma conv_char_puts:
  assumes "- 1 \<le> width" "width \<le> 0x7fffffff" "va_int args = Some (v, args')"
  shows "conv_char fin flags width args out = Some (args', puts fin (justify flags width [char_of v]) out)"
  using assms by (simp add: conv_char_def pad_pre_puts justify_simps)

lemma strnlen_loop_take:
  "length s < 2 ^ 64 \<Longrightarrow> strnlen_loop s count n = n + of_nat (length (take (unat count) (takeWhile (\<lambda>c. c \<noteq> NUL) s)))"
proof (induction s count n rule: strnlen_loop.induct)
  case (2 c s count n)
  show ?case
  proof (cases "count \<noteq> 0 \<and> c \<noteq> NUL")
    case True
    then have "unat count = Suc (unat (count - 1))" using unat_minus_one [of count] unat_gt_0 [of count] by simp
    then show ?thesis using 2 True by simp
  next
    case False
    then show ?thesis by auto
  qed
qed simp

lemma int_of_length: "n < 2 ^ 31 \<Longrightarrow> sint (ucast (of_nat n :: u64) :: u32) = int n"
proof -
  assume n: "n < 2 ^ 31"
  then have "(ucast (of_nat n :: u64) :: u32) = of_nat n"
    by (simp add: unsigned_of_nat take_bit_nat_eq_self)
  then show ?thesis using n by (simp add: signed_of_nat signed_take_bit_int_eq_self)
qed

lemma conv_str_puts:
  assumes "- 1 \<le> width" "width \<le> 0x7fffffff" "- 1 \<le> precision" "precision \<le> 0x7fffffff"
    and "va_str args = Some (s, args')" "str_text precision s = Some t"
  shows "conv_str fin flags width precision args out = Some (args', puts fin (justify flags width t) out)"
proof -
  define s0 where "s0 = (case s of None \<Rightarrow> ''<NULL>'' | Some s \<Rightarrow> s)"
  let ?tw = "takeWhile (\<lambda>c. c \<noteq> NUL) s0"
  have l: "length s0 < 2 ^ 63" using assms(6) by (auto simp: str_text_def Let_def s0_def split: if_splits)
  have tw: "length ?tw < 2 ^ 63" using l length_takeWhile_le [of "\<lambda>c. c \<noteq> NUL" s0] by simp
  have t: "t = (if precision < 0 then ?tw else take (nat precision) ?tw)" "length t < 0x7fffffff"
    using assms(6) by (auto simp: str_text_def Let_def s0_def split: if_splits)
  have "take (unat (of_int precision :: u64)) ?tw = t"
  proof (cases "precision < 0")
    case True
    then have "precision = - 1" using assms(3) by simp
    then have "unat (of_int precision :: u64) = 2 ^ 64 - 1" by (simp add: unsigned_minus_1_eq_mask mask_eq_exp_minus_1)
    then show ?thesis using True tw t(1) by simp
  next
    case False
    then have "unat (of_int precision :: u64) = nat precision"
      using assms(4) by (simp add: unat_eq_nat_uint uint_word_of_int)
    then show ?thesis using False t(1) by simp
  qed
  then have "strnlen s0 (of_int precision) = of_nat (length t)"
    using strnlen_loop_take [of s0 "of_int precision" 0] l by (simp add: strnlen_def)
  moreover have "sint (ucast (of_nat (length t) :: u64) :: u32) = int (length t)"
    using t(2) by (intro int_of_length) simp
  ultimately have len: "sint (ucast (strnlen s0 (of_int precision)) :: u32) = int (length t)" by simp
  obtain k where "t = take k s0" using t(1) takeWhile_eq_take [of "\<lambda>c. c \<noteq> NUL" s0] by (metis take_take)
  then have "take (length t) s0 = t" "length t \<le> length s0" by (cases "k \<le> length s0"; simp)+
  then have ps: "put_str fin s0 (length t) o2 = puts fin t o2" for o2 using put_str_puts by metis
  show ?thesis using assms(1,2,5) t(2)
    by (simp add: conv_str_def s0_def [symmetric] len ps pad_while_puts justify_simps)
qed

lemma conv_int_puts:
  assumes "2 \<le> base" "base \<le> 36" "- 1 \<le> width" "width \<le> 0x7fffffff" "- 1 \<le> precision"
    and "va_val args = Some (w, args')" "num_text base width precision flags (int_arg qualifier flags w) = Some t"
  shows "conv_int fin base flags width precision qualifier args out = Some (args', puts fin t out)"
  using assms by (auto simp: conv_int_def num_text_def number_puts split: if_splits)

lemma conv_ptr_puts:
  assumes "- 1 \<le> width" "width \<le> 0x7fffffff" "- 1 \<le> precision" "va_val args = Some (w, args')"
    and "num_text 16 (if width = - 1 then 16 else width) precision (if width = - 1 then flags OR ZEROPAD else flags) w = Some t"
  shows "conv_ptr fin flags width precision args out = Some (args', puts fin t out)"
  using assms by (auto simp: conv_ptr_def num_text_def number_puts split: if_splits)

lemma conv_int_case:
  assumes "conv_text flags width precision qualifier c args = Some (t, args')"
    and "conv_text flags width precision qualifier c args = do {
      (w, args) \<leftarrow> va_val args;
      t \<leftarrow> num_text base width precision f (int_arg qualifier f w);
      Some (t, args)
    }"
    and "convert buf fin flags width precision qualifier c args out = conv_int fin base f width precision qualifier args out"
    and "2 \<le> base" "base \<le> 36" "- 1 \<le> width" "width \<le> 0x7fffffff" "- 1 \<le> precision"
  shows "convert buf fin flags width precision qualifier c args out = Some (args', puts fin t out)"
proof -
  obtain w where "va_val args = Some (w, args')" "num_text base width precision f (int_arg qualifier f w) = Some t"
    using assms(1,2) by (auto split: Option.bind_splits)
  then show ?thesis unfolding assms(3) by (rule conv_int_puts [OF assms(4-8)])
qed

lemma convert_puts:
  assumes b: "- 1 \<le> width" "width \<le> 0x7fffffff" "- 1 \<le> precision" "precision \<le> 0x7fffffff"
    and t: "conv_text flags width precision qualifier c args = Some (t, args')"
  shows "convert buf fin flags width precision qualifier c args out = Some (args', puts fin t out)"
proof -
  consider (c) "c = CHR ''c''" | (s) "c = CHR ''s''" | (pc) "c = CHR ''%''" | (n) "c = CHR ''n''" | (p) "c = CHR ''p''"
    | (o) "c = CHR ''o''" | (X) "c = CHR ''X''" | (x) "c = CHR ''x''" | (d) "c = CHR ''d'' \<or> c = CHR ''i''" | (u) "c = CHR ''u''"
    | (other) "c \<notin> set ''cs%npoXxdiu''" by auto
  then show ?thesis
  proof cases
    case c
    then show ?thesis using t conv_char_puts [OF b(1,2), where out = out] by (auto simp: conv_text_def convert_def)
  next
    case s
    then show ?thesis using t conv_str_puts [OF b, where out = out] by (auto simp: conv_text_def convert_def split: Option.bind_splits)
  next
    case p
    then show ?thesis using t conv_ptr_puts [OF b(1-3), where out = out]
      by (auto simp: conv_text_def convert_def Let_def split: Option.bind_splits if_splits)
  next
    case other
    then show ?thesis using t by (auto simp: conv_text_def convert_def)
  next
    case n
    then show ?thesis using t by (simp add: conv_text_def)
  next
    case pc
    then show ?thesis using t by (auto simp: conv_text_def convert_def)
  next
    case o
    then show ?thesis by (intro conv_int_case [OF t, of 8 flags] b) (simp_all add: conv_text_def convert_def Let_def)
  next
    case X
    then show ?thesis by (intro conv_int_case [OF t, of 16 "flags OR LARGE"] b) (simp_all add: conv_text_def convert_def Let_def)
  next
    case x
    then show ?thesis by (intro conv_int_case [OF t, of 16 flags] b) (simp_all add: conv_text_def convert_def Let_def)
  next
    case d
    then show ?thesis
      by (intro conv_int_case [OF t, of 10 "flags OR SIGN"] b) (elim disjE; simp add: conv_text_def convert_def Let_def)+
  next
    case u
    then show ?thesis by (intro conv_int_case [OF t, of 10 flags] b) (simp_all add: conv_text_def convert_def Let_def)
  qed
qed

section \<open>The text of a format\<close>

definition directive_text :: "string \<Rightarrow> va list \<Rightarrow> (string \<times> va list \<times> string) option" where
  "directive_text fmt args = do {
     let (flags, fmt) = parse_flags fmt 0;
     (width, flags, fmt, args) \<leftarrow> parse_width fmt args flags;
     (precision, fmt, args) \<leftarrow> parse_precision fmt args;
     let (qualifier, fmt) = parse_qualifier fmt;
     (t, args) \<leftarrow> conv_text flags width precision qualifier (peek fmt) args;
     Some (if peek fmt = NUL then fmt else tl fmt, args, t)
   }"

lemma skip_atoi_bounds: "skip_atoi_loop s i = Some (j, s') \<Longrightarrow> 0 \<le> i \<Longrightarrow> i \<le> 0x7fffffff \<Longrightarrow> 0 \<le> j \<and> j \<le> 0x7fffffff"
proof (induction s i arbitrary: j s' rule: skip_atoi_loop.induct)
  case (2 c s i)
  show ?case
  proof (cases "isdigit (code c)")
    case True
    then obtain i1 i2 i3 where c: "cint (i * 10) = Some i1" "cint (i1 + code c) = Some i2" "cint (i2 - code CHR ''0'') = Some i3"
        "skip_atoi_loop s i3 = Some (j, s')"
      using 2(2) by (auto split: Option.bind_splits)
    then have "0 \<le> i3" "i3 \<le> 0x7fffffff" using 2(3) True by (auto simp: cint_def isdigit_def split: if_splits)
    then show ?thesis using 2(1) [OF True c] by simp
  next
    case False
    then show ?thesis using 2(2-) by simp
  qed
qed simp

lemma va_int_bounds: "va_int args = Some (i, args') \<Longrightarrow> - 0x80000000 \<le> i \<and> i \<le> 0x7fffffff"
proof -
  have "- 0x80000000 \<le> sint w \<and> sint w \<le> 0x7fffffff" for w :: u32
    using sint_greater_eq [of w] sint_less [of w] by simp
  then show "va_int args = Some (i, args') \<Longrightarrow> - 0x80000000 \<le> i \<and> i \<le> 0x7fffffff" by (auto simp: va_int_def)
qed

lemma parse_width_bounds:
  assumes "parse_width fmt args flags = Some (w, flags', fmt', args')"
  shows "- 1 \<le> w" "w \<le> 0x7fffffff"
  using assms va_int_bounds skip_atoi_bounds [of _ 0]
  by (fastforce simp: parse_width_def skip_atoi_def cint_def split: if_splits Option.bind_splits)+

lemma parse_precision_bounds:
  assumes "parse_precision fmt args = Some (p, fmt', args')"
  shows "- 1 \<le> p" "p \<le> 0x7fffffff"
  using assms va_int_bounds skip_atoi_bounds [of _ 0]
  by (fastforce simp: parse_precision_def skip_atoi_def Let_def split: if_splits Option.bind_splits)+

lemma directive_puts:
  assumes "directive_text fmt args = Some (fmt', args', t)"
  shows "directive buf fin fmt args out = Some (fmt', args', puts fin t out)"
proof -
  obtain flags fmt1 where 1: "parse_flags fmt 0 = (flags, fmt1)" by fastforce
  from assms 1 obtain w flags2 fmt2 args2 where 2: "parse_width fmt1 args flags = Some (w, flags2, fmt2, args2)"
    by (auto simp: directive_text_def split: Option.bind_splits)
  from assms 1 2 obtain p fmt3 args3 where 3: "parse_precision fmt2 args2 = Some (p, fmt3, args3)"
    by (auto simp: directive_text_def split: Option.bind_splits)
  obtain q fmt4 where 4: "parse_qualifier fmt3 = (q, fmt4)" by fastforce
  have "conv_text flags2 w p q (peek fmt4) args3 = Some (t, args')" and f: "fmt' = (if peek fmt4 = NUL then fmt4 else tl fmt4)"
    using assms 1 2 3 4 by (auto simp: directive_text_def split: Option.bind_splits)
  then have "convert buf fin flags2 w p q (peek fmt4) args3 out = Some (args', puts fin t out)"
    using convert_puts parse_width_bounds [OF 2] parse_precision_bounds [OF 3] by blast
  then show ?thesis using 1 2 3 4 f by (simp add: directive_def)
qed

lemma directive_text_length:
  assumes "directive_text fmt args = Some (fmt', args', t)"
  shows "length fmt' \<le> length fmt"
  using directive_length [OF directive_puts [OF assms]] .

function render :: "string \<Rightarrow> va list \<Rightarrow> string option" where
  "render fmt args =
     (if peek fmt = NUL then Some []
      else if peek fmt \<noteq> CHR ''%'' then map_option ((#) (peek fmt)) (render (tl fmt) args)
      else do {
        (fmt, args, t) \<leftarrow> directive_text (tl fmt) args;
        map_option ((@) t) (render fmt args)
      })"
  by pat_completeness auto
termination
proof (relation "measure (\<lambda>(fmt, _). length fmt)")
  fix args and fmt :: string
  assume "peek fmt \<noteq> NUL"
  then show "((tl fmt, args), fmt, args) \<in> measure (\<lambda>(fmt, _). length fmt)" by (cases fmt) (auto simp: peek_def)
next
  fix args r fmt' s args' t and fmt :: string
  assume "peek fmt \<noteq> NUL" "directive_text (tl fmt) args = Some r" "(fmt', s) = r" "(args', t) = s"
  then show "((fmt', args'), fmt, args) \<in> measure (\<lambda>(fmt, _). length fmt)"
    using directive_text_length [of "tl fmt" args fmt' args' t] by (cases fmt) (auto simp: peek_def)
qed simp

declare render.simps [simp del]

lemma vsnprintf_loop_puts:
  "render fmt args = Some t \<Longrightarrow> vsnprintf_loop buf fin fmt args out = Some (puts fin t out)"
proof (induction fmt args arbitrary: t out rule: render.induct)
  case (1 fmt args)
  consider "peek fmt = NUL" | "peek fmt \<noteq> NUL" "peek fmt \<noteq> CHR ''%''" | "peek fmt = CHR ''%''" by blast
  then show ?case
  proof cases
    case 1
    then show ?thesis using "1.prems" by (simp add: render.simps [of fmt] vsnprintf_loop.simps [of buf fin fmt])
  next
    case 2
    then obtain t' where "render (tl fmt) args = Some t'" "t = peek fmt # t'"
      using "1.prems" by (auto simp: render.simps [of fmt])
    then show ?thesis using "1.IH"(1) [OF 2] 2 by (simp add: vsnprintf_loop.simps [of buf fin fmt])
  next
    case 3
    then obtain fmt' args' t1 t2 where "directive_text (tl fmt) args = Some (fmt', args', t1)" "render fmt' args' = Some t2" "t = t1 @ t2"
      using "1.prems" by (auto simp: render.simps [of fmt] split: Option.bind_splits)
    then show ?thesis using "1.IH"(2) [of "(fmt', args', t1)" fmt' "(args', t1)" args' t1 t2] 3 directive_puts
      by (simp add: vsnprintf_loop.simps [of buf fin fmt])
  qed
qed

end
