(* ===== verification/Vsprintf_Props.thy ===== *)
theory Vsprintf_Props
  imports Vsprintf_Text
begin

text \<open>
  Formatted output into a bounded buffer, and the round trip between printing and parsing numbers.
\<close>

unbundle bit_operations_syntax

section \<open>The buffer\<close>

lemma snd_puts: "snd (puts fin s (m, str)) = str + of_nat (length s)"
  by (induction s arbitrary: m str) (simp_all add: put_def add.assoc)

lemma fst_puts:
  assumes "unat str + length s < 2 ^ 64"
  shows "fst (puts fin s (m, str)) x =
    (if unat str \<le> unat x \<and> unat x < unat str + length s \<and> unat x \<le> unat fin
     then of_char (s ! (unat x - unat str)) else m x)"
  using assms
proof (induction s arbitrary: m str)
  case (Cons c s)
  have u: "unat (str + 1) = unat str + 1" using Cons.prems by (simp add: unat_word_ariths)
  let ?m = "if str \<le> fin then m(str := of_char c) else m"
  have IH: "fst (puts fin s (?m, str + 1)) x =
      (if unat str + 1 \<le> unat x \<and> unat x < unat str + 1 + length s \<and> unat x \<le> unat fin
       then of_char (s ! (unat x - (unat str + 1))) else ?m x)"
    using Cons.IH [of "str + 1" ?m] Cons.prems u by simp
  have m: "?m x = (if unat x = unat str \<and> unat x \<le> unat fin then of_char c else m x)"
    by (auto simp: word_le_nat_alt word_unat_eq_iff)
  have "fst (puts fin (c # s) (m, str)) x = fst (puts fin s (?m, str + 1)) x" by (simp add: put_def)
  then show ?case unfolding IH m by (auto simp: nth_Cons')
qed auto

text \<open>The buffer after the call: the text as far as it fits, then a NUL.\<close>

definition filled :: "byte_mem \<Rightarrow> u64 \<Rightarrow> nat \<Rightarrow> string \<Rightarrow> byte_mem" where
  "filled m buf n t x = (
     let i = unat x - unat buf in
     if x < buf \<or> n \<le> i then m x
     else if i < min (length t) (n - 1) then of_char (t ! i)
     else if i = min (length t) (n - 1) then 0
     else m x)"

lemma filled_outside: "unat x < unat buf \<or> unat buf + n \<le> unat x \<Longrightarrow> filled m buf n t x = m x"
  by (auto simp: filled_def Let_def word_less_nat_alt)

lemma filled_inside:
  "unat x = unat buf + i \<Longrightarrow> i < n \<Longrightarrow> filled m buf n t x =
     (if i < min (length t) (n - 1) then of_char (t ! i) else if i = min (length t) (n - 1) then 0 else m x)"
  by (simp add: filled_def Let_def word_less_nat_alt)

lemma vsnprintf_text:
  assumes t: "render fmt args = Some t" and buf: "unat buf + unat sz \<le> 2 ^ 64" "0 < unat buf"
    and len: "unat buf + length t < 2 ^ 64" "length t < 2 ^ 31"
  shows "vsnprintf m buf sz fmt args = Some (filled m buf (unat sz) t, int (length t))"
proof -
  let ?fin = "buf + sz - 1"
  have b1: "unat (buf - 1) = unat buf - 1" using unat_minus_one [of buf] buf(2) by (auto simp: unat_gt_0)
  have "?fin = buf - 1 + sz" by simp
  moreover have "unat (buf - 1 + sz) = unat buf - 1 + unat sz"
    using buf b1 by (subst unat_add_nowrap) simp_all
  ultimately have fin: "unat ?fin = unat buf - 1 + unat sz" by metis
  have nowrap: "\<not> ?fin < buf - 1" by (simp add: word_less_nat_alt fin b1)
  define m1 str where "m1 = fst (puts ?fin t (m, buf))" and "str = snd (puts ?fin t (m, buf))"
  have str: "str = buf + of_nat (length t)" "unat str = unat buf + length t"
    using len by (simp_all add: str_def snd_puts unat_word_ariths unat_of_nat)
  have m1: "m1 x = (if unat buf \<le> unat x \<and> unat x < unat buf + length t \<and> unat x \<le> unat ?fin
      then of_char (t ! (unat x - unat buf)) else m x)" for x
    unfolding m1_def by (rule fst_puts [OF len(1)])
  have "vsnprintf_loop buf ?fin fmt args (m, buf) = Some (m1, str)"
    using vsnprintf_loop_puts [OF t] by (simp add: m1_def str_def)
  then have "vsnprintf m buf sz fmt args =
      Some (if str \<le> ?fin then m1(str := 0) else if sz > 0 then m1(?fin := 0) else m1, int (length t))"
    using nowrap len(2) by (simp add: vsnprintf_def vsnprintf_end_def Let_def str(1) int_of_length)
  moreover have "(if str \<le> ?fin then m1(str := 0) else if sz > 0 then m1(?fin := 0) else m1) x = filled m buf (unat sz) t x" for x
  proof -
    let ?i = "unat x - unat buf"
    have le: "str \<le> ?fin \<longleftrightarrow> length t < unat sz" using buf(2) by (auto simp: word_le_nat_alt fin str(2))
    have xs: "x = str \<longleftrightarrow> unat x = unat buf + length t" by (simp add: word_unat_eq_iff str(2))
    have xf: "x = ?fin \<longleftrightarrow> unat x = unat buf - 1 + unat sz" by (simp add: word_unat_eq_iff fin)
    have pos: "sz > 0 \<longleftrightarrow> unat sz > 0" by (simp add: word_less_nat_alt)
    have lt: "x < buf \<longleftrightarrow> unat x < unat buf" by (simp add: word_less_nat_alt)
    show ?thesis
    proof (cases "unat x < unat buf \<or> unat sz \<le> ?i")
      case True
      then have "m1 x = m x" "length t < unat sz \<Longrightarrow> x \<noteq> str" "unat sz > 0 \<Longrightarrow> x \<noteq> ?fin"
        using buf(2) by (auto simp: m1 fin xs xf)
      then show ?thesis using True by (simp add: filled_def Let_def le pos lt)
    next
      case False
      define i where "i = ?i"
      have x: "unat x = unat buf + i" "i < unat sz" using False by (simp_all add: i_def)
      have "m1 x = (if i < length t then of_char (t ! i) else m x)" using x fin by (auto simp: m1)
      moreover have "x = str \<longleftrightarrow> i = length t" "x = ?fin \<longleftrightarrow> i = unat sz - 1" using x xs xf buf(2) by auto
      moreover have "filled m buf (unat sz) t x =
          (if i < min (length t) (unat sz - 1) then of_char (t ! i) else if i = min (length t) (unat sz - 1) then 0 else m x)"
        unfolding filled_def Let_def i_def [symmetric] lt using x by simp
      ultimately show ?thesis using x(2) le pos by (cases "length t < unat sz") (auto simp: min_def simp flip: length_greater_0_conv)
    qed
  qed
  ultimately show ?thesis by (simp add: fun_eq_iff)
qed

section \<open>Parsing what was printed\<close>

lemma digit_chars:
  "list_all (\<lambda>d. isxdigit (code (small_digits ! d)) \<and> strtoul_value (small_digits ! d) = of_nat d \<and>
     strtoull_value (small_digits ! d) = of_nat d \<and> isxdigit (code (large_digits ! d)) \<and>
     strtoul_value (large_digits ! d) = of_nat d \<and> strtoull_value (large_digits ! d) = of_nat d) [0..<16]"
  by code_simp

lemma digit_char:
  assumes "d < 16"
  shows "isxdigit (code (table flags ! d))" "strtoul_value (table flags ! d) = of_nat d" "strtoull_value (table flags ! d) = of_nat d"
  using digit_chars assms by (auto simp: table_def list_all_iff)

definition stops :: "string \<Rightarrow> bool" where
  "stops s \<longleftrightarrow> \<not> isxdigit (code (peek s))"

lemma strtoul_loop_digits:
  assumes "\<forall>d\<in>set ds. d < unat base" "unat base \<le> 16" "stops rest"
  shows "strtoul_loop (map ((!) (table flags)) ds @ rest) base r = (foldl (\<lambda>a d. a * ucast base + of_nat d) r ds, rest)"
    and "strtoull_loop (map ((!) (table flags)) ds @ rest) base r = (foldl (\<lambda>a d. a * ucast base + of_nat d) r ds, rest)"
  using assms
proof (induction ds arbitrary: r)
  case Nil
  {
    case 1
    then show ?case by (cases rest) (simp_all add: stops_def peek_def)
  next
    case 2
    then show ?case by (cases rest) (simp_all add: stops_def peek_def)
  }
next
  case (Cons d ds)
  have less: "(of_nat d :: u64) < ucast base \<and> d < 16" if "\<forall>d\<in>set (d # ds). d < unat base" "unat base \<le> 16"
  proof -
    have "unat (ucast base :: u64) = unat base"
      using unsigned_less [of base, where ?'a = nat] by (simp add: unsigned_ucast_eq take_bit_nat_eq_self_iff)
    then show ?thesis using that by (simp add: word_less_nat_alt unat_of_nat)
  qed
  {
    case 1
    then show ?case using Cons.IH(1) less digit_char [of d flags] by simp
  next
    case 2
    then show ?case using Cons.IH(2) less digit_char [of d flags] by simp
  }
qed

lemma foldl_of_nat:
  "foldl (\<lambda>a d. a * ucast base + of_nat d) (of_nat r) ds = (of_nat (foldl (\<lambda>a d. a * unat base + d) r ds) :: u64)" for base :: u32
proof (induction ds arbitrary: r)
  case (Cons d ds)
  have "of_nat r * ucast base + of_nat d = (of_nat (r * unat base + d) :: u64)" by simp
  then show ?case using Cons [of "r * unat base + d"] by (simp only: foldl_Cons)
qed simp

text \<open>The parsers on the digits of a number.\<close>

lemma strtoul_digits:
  assumes "2 \<le> unat base" "unat base \<le> 16" "stops rest"
  shows "strtoul_loop (map ((!) (table flags)) (radix (unat base) v) @ rest) base 0 = (of_nat v, rest)"
    and "strtoull_loop (map ((!) (table flags)) (radix (unat base) v) @ rest) base 0 = (of_nat v, rest)"
proof -
  have d: "\<forall>d\<in>set (radix (unat base) v). d < unat base" by (rule radix_digits [OF assms(1)])
  have f: "foldl (\<lambda>a d. a * ucast base + of_nat d) 0 (radix (unat base) v) = (of_nat v :: u64)"
    using foldl_of_nat [of base 0 "radix (unat base) v"] radix_value [OF assms(1), of v] by simp
  show "strtoul_loop (map ((!) (table flags)) (radix (unat base) v) @ rest) base 0 = (of_nat v, rest)"
    "strtoull_loop (map ((!) (table flags)) (radix (unat base) v) @ rest) base 0 = (of_nat v, rest)"
    using strtoul_loop_digits [OF d assms(2,3), where r = 0 and flags = flags] f by simp_all
qed

lemma radix_hd: "2 \<le> b \<Longrightarrow> v \<noteq> 0 \<Longrightarrow> hd (radix b v) \<noteq> 0"
proof (induction b v rule: radix.induct)
  case (1 b v)
  show ?case
  proof (cases "v < b")
    case True
    then show ?thesis using 1(3) by (subst radix.simps) simp
  next
    case False
    then have "v div b \<noteq> 0" using 1(2) by (simp add: div_eq_0_iff)
    then show ?thesis using 1(1,2) False by (subst radix.simps) simp
  qed
qed

lemma number_text_plain:
  "\<not> flag flags SIGN \<Longrightarrow> number_text num base (- 1) (- 1) flags = prefix_text flags base @ digits_text flags base num"
  by (simp add: number_text_def Let_def sign_text_def negative_def)

lemma peek_digits:
  assumes "2 \<le> b" "b \<le> 16"
  shows "isxdigit (code (peek (map ((!) (table flags)) (radix b v) @ rest)))"
    "peek (map ((!) (table flags)) (radix b v) @ rest) \<noteq> CHR ''x''"
proof -
  obtain d ds where r: "radix b v = d # ds" by (cases "radix b v") simp_all
  then have "d < 16" using radix_digits [OF assms(1), of v] assms(2) by auto
  then have "isxdigit (code (table flags ! d))" by (rule digit_char)
  moreover from this have "table flags ! d \<noteq> CHR ''x''" by (auto simp: isxdigit_def isdigit_def)
  ultimately show "isxdigit (code (peek (map ((!) (table flags)) (radix b v) @ rest)))"
    "peek (map ((!) (table flags)) (radix b v) @ rest) \<noteq> CHR ''x''" by (simp_all add: r peek_def)
qed

lemma table_zero: "d < 36 \<Longrightarrow> table flags ! d = CHR ''0'' \<longleftrightarrow> d = 0"
proof -
  have "list_all (\<lambda>d. (small_digits ! d = CHR ''0'' \<longleftrightarrow> d = 0) \<and> (large_digits ! d = CHR ''0'' \<longleftrightarrow> d = 0)) [0..<36]" by code_simp
  then show "d < 36 \<Longrightarrow> table flags ! d = CHR ''0'' \<longleftrightarrow> d = 0" by (auto simp: table_def list_all_iff)
qed

lemma peek_simps [simp]: "peek [] = NUL" "peek (c # s) = c"
  by (simp_all add: peek_def)

lemma strtoul_of_text:
  assumes "base \<in> {8, 10, 16}" "\<not> flag flags SIGN" "\<not> (flag flags SPECIAL \<and> flag flags LARGE)" "stops rest"
    and "flag flags SPECIAL \<longrightarrow> peek rest \<noteq> CHR ''x''"
  shows "\<exists>ds. parse_base (number_text num base (- 1) (- 1) flags @ rest) (if flag flags SPECIAL then 0 else of_int base) =
      (of_int base, map ((!) (table flags)) (radix (nat base) ds) @ rest) \<and> of_nat ds = num \<or>
    num = 0 \<and> parse_base (number_text num base (- 1) (- 1) flags @ rest) (if flag flags SPECIAL then 0 else of_int base) = (8, rest)"
proof -
  have t: "number_text num base (- 1) (- 1) flags = prefix_text flags base @ map ((!) (table flags)) (radix (nat base) (unat num))"
    using number_text_plain [OF assms(2)] assms(2) by (simp add: digits_text_def negative_def)
  let ?d = "map ((!) (table flags)) (radix (nat base) (unat num))"
  have b: "2 \<le> nat base" "nat base \<le> 16" "(of_int base :: u32) \<noteq> 0" using assms(1) by auto
  note pk = peek_digits [OF b(1,2), of flags "unat num" rest]
  show ?thesis
  proof (cases "flag flags SPECIAL")
    case False
    then show ?thesis unfolding t using b(3)
      by (intro exI [of _ "unat num"] disjI1) (simp add: prefix_text_def parse_base_def Let_def)
  next
    case special: True
    consider "base = 16" | "base = 8" | "base = 10" "num = 0" | "base = 10" "num \<noteq> 0" using assms(1) by blast
    then show ?thesis
    proof cases
      case 1
      then show ?thesis unfolding t using special assms(3) pk
        by (intro exI [of _ "unat num"] disjI1) (simp add: prefix_text_def parse_base_def Let_def)
    next
      case 2
      then show ?thesis unfolding t using special pk
        by (intro exI [of _ "unat num"] disjI1) (simp add: prefix_text_def parse_base_def Let_def)
    next
      case 3
      have "radix 10 0 = [0]" by (subst radix.simps) simp
      then show ?thesis unfolding t using 3 special assms(5) table_zero [of 0 flags]
        by (intro exI [of _ 0] disjI2) (simp add: prefix_text_def parse_base_def Let_def)
    next
      case 4
      obtain d ds where r: "radix 10 (unat num) = d # ds" by (cases "radix 10 (unat num)") simp_all
      then have "d \<noteq> 0" "d < 10" using radix_hd [of 10 "unat num"] 4(2) radix_digits [of 10 "unat num"] by (auto simp: unat_eq_zero)
      then have "table flags ! d \<noteq> CHR ''0''" using table_zero [of d flags] by simp
      then show ?thesis unfolding t using 4 special r
        by (intro exI [of _ "unat num"] disjI1) (simp add: prefix_text_def parse_base_def Let_def)
    qed
  qed
qed

lemma strtoul_loop_stops: "stops rest \<Longrightarrow> strtoul_loop rest base r = (r, rest)" "stops rest \<Longrightarrow> strtoull_loop rest base r = (r, rest)"
  by (cases rest; simp add: stops_def)+

section \<open>Properties\<close>

text \<open>
  C8: Formatting into a buffer of any size: \<^verbatim>\<open>vsnprintf\<close> returns the length of the whole text of the
  format, the buffer holds its first characters as far as they fit, then a NUL in the last byte used, and no byte outside the
  buffer changes; a buffer of size 0 is not touched at all. The text is defined without a buffer, directive by directive:
  flags, field width, precision and qualifier select sign, prefix, padding and digits.
\<close>

theorem vsnprintf_correct:
  assumes "render fmt args = Some t" and "0 < unat buf" "unat buf + unat sz \<le> 2 ^ 64"
    and "unat buf + length t < 2 ^ 64" "length t < 2 ^ 31"
  shows "\<exists>m'. vsnprintf m buf sz fmt args = Some (m', int (length t)) \<and>
    (\<forall>i<unat sz. m' (buf + of_nat i) =
       (if i < min (length t) (unat sz - 1) then of_char (t ! i) else if i = min (length t) (unat sz - 1) then 0 else m (buf + of_nat i))) \<and>
    (\<forall>x. unat x < unat buf \<or> unat buf + unat sz \<le> unat x \<longrightarrow> m' x = m x)"
proof -
  have u: "unat (buf + of_nat i) = unat buf + i" if "i < unat sz" for i
    using that assms(3) u64_bound [of sz] by (subst unat_add_nowrap) (simp_all add: unat_of_nat)
  have "filled m buf (unat sz) t (buf + of_nat i) =
      (if i < min (length t) (unat sz - 1) then of_char (t ! i) else if i = min (length t) (unat sz - 1) then 0 else m (buf + of_nat i))"
    if "i < unat sz" for i
    by (rule filled_inside [OF u [OF that] that])
  moreover have "filled m buf (unat sz) t x = m x" if "unat x < unat buf \<or> unat buf + unat sz \<le> unat x" for x
    by (rule filled_outside [OF that])
  ultimately show ?thesis using vsnprintf_text [OF assms(1,3,2,4,5), of m] by blast
qed

text \<open>Rules that evaluate the text of a concrete format.\<close>

lemma radix_eval: "v < b \<Longrightarrow> radix b v = [v]" "2 \<le> b \<Longrightarrow> b \<le> v \<Longrightarrow> radix b v = radix b (v div b) @ [v mod b]"
  by (subst radix.simps; simp)+

lemma render_eval:
  "render [] args = Some []"
  "c \<noteq> NUL \<Longrightarrow> c \<noteq> CHR ''%'' \<Longrightarrow> render (c # fmt) args = map_option ((#) c) (render fmt args)"
  "directive_text fmt args = Some (fmt', args', t) \<Longrightarrow> render (CHR ''%'' # fmt) args = map_option ((@) t) (render fmt' args')"
  by (subst render.simps; simp)+

lemmas text_eval = directive_text_def parse_width_def parse_precision_def parse_qualifier_def conv_text_def num_text_def
  str_text_def number_text_def digits_text_def sign_text_def prefix_text_def negative_def table_def justify_def small_digits_def
  va_val_def va_int_def va_str_def int_arg_def skip_atoi_def cint_def isdigit_def flag_defs Let_def

lemma sample_directives:
  "directive_text ''5d|%-4x|%s'' [Val (- 3), Val 0xab, Str (Some ''hey'')] = Some (''|%-4x|%s'', [Val 0xab, Str (Some ''hey'')], ''   -3'')"
  "directive_text ''-4x|%s'' [Val 0xab, Str (Some ''hey'')] = Some (''|%s'', [Str (Some ''hey'')], ''ab  '')"
  "directive_text ''s'' [Str (Some ''hey'')] = Some ('''', [], ''hey'')"
  by (simp_all add: text_eval radix_eval) (simp_all add: numeral_eq_Suc)

lemma sample_render: "render ''%5d|%-4x|%s'' [Val (- 3), Val 0xab, Str (Some ''hey'')] = Some ''   -3|ab  |hey''"
  by (simp add: render_eval sample_directives)

theorem vsnprintf_correct_witness:
  "\<exists>m'. vsnprintf (\<lambda>_. 0xff) 0x1000 10 ''%5d|%-4x|%s'' [Val (- 3), Val 0xab, Str (Some ''hey'')] = Some (m', 14) \<and>
     m' 0x1005 = 0x7c \<and> m' 0x1009 = 0 \<and> m' 0x100a = 0xff"
proof -
  obtain m' where m': "vsnprintf (\<lambda>_. 0xff) 0x1000 10 ''%5d|%-4x|%s'' [Val (- 3), Val 0xab, Str (Some ''hey'')] = Some (m', 14)"
    and b: "\<forall>i<10. m' (0x1000 + of_nat i) = (if i < 9 then of_char (''   -3|ab  |hey'' ! i) else if i = 9 then 0 else 0xff)"
    and o: "\<forall>x. unat x < 0x1000 \<or> 0x100a \<le> unat x \<longrightarrow> m' x = 0xff"
    using vsnprintf_correct [OF sample_render, of "0x1000" 10 "\<lambda>_. 0xff"] by auto
  have "m' 0x1005 = 0x7c" "m' 0x1009 = 0" using b [rule_format, of 5] b [rule_format, of 9] by simp_all
  moreover have "m' 0x100a = 0xff" using o [rule_format, of "0x100a"] by simp
  ultimately show ?thesis using m' by blast
qed

text \<open>
  C31: Numbers survive a round trip: what \<^verbatim>\<open>number\<close> prints of an unsigned number in base 8, 10 or 16,
  with or without the prefix, is read back by \<^verbatim>\<open>simple_strtoul\<close> and by \<^verbatim>\<open>simple_strtoull\<close> as the same number, and
  reading stops at the first character after it. With the prefix the base is found by the parser, which knows only
  the lower-case \<^verbatim>\<open>0x\<close>.
\<close>

theorem number_strtoul_round_trip:
  assumes "base \<in> {8, 10, 16}" "\<not> flag flags SIGN" "\<not> (flag flags SPECIAL \<and> flag flags LARGE)" "stops rest"
    and special: "flag flags SPECIAL \<longrightarrow> peek rest \<noteq> CHR ''x''"
  shows "\<exists>t. number fin num base (- 1) (- 1) flags out = Some (puts fin t out) \<and>
    simple_strtoul (t @ rest) (if flag flags SPECIAL then 0 else of_int base) = (num, rest) \<and>
    simple_strtoull (t @ rest) (if flag flags SPECIAL then 0 else of_int base) = (num, rest)"
proof -
  let ?t = "number_text num base (- 1) (- 1) flags" and ?b = "if flag flags SPECIAL then 0 else of_int base :: u32"
  have b: "2 \<le> unat (of_int base :: u32)" "unat (of_int base :: u32) \<le> 16" "unat (of_int base :: u32) = nat base" "2 \<le> base" "base \<le> 36"
    using assms(1) by auto
  have n: "number fin num base (- 1) (- 1) flags out = Some (puts fin ?t out)"
    using b assms(2) by (intro number_puts) auto
  moreover have "simple_strtoul (?t @ rest) ?b = (num, rest) \<and> simple_strtoull (?t @ rest) ?b = (num, rest)"
    using strtoul_of_text [OF assms(1-4) special, of num]
  proof (elim exE disjE conjE)
    fix ds assume "parse_base (?t @ rest) ?b = (of_int base, map ((!) (table flags)) (radix (nat base) ds) @ rest)" "of_nat ds = num"
    then show ?thesis using strtoul_digits [OF b(1,2) assms(4), of flags ds] b(3) by (simp add: simple_strtoul_def simple_strtoull_def)
  next
    assume "num = 0" "parse_base (?t @ rest) ?b = (8, rest)"
    then show ?thesis using strtoul_loop_stops [OF assms(4)] by (simp add: simple_strtoul_def simple_strtoull_def)
  qed
  ultimately show ?thesis by blast
qed

theorem number_strtoul_round_trip_witness:
  "\<exists>t. number 0x2000 0xdeadbeef 16 (- 1) (- 1) SPECIAL (\<lambda>_. 0, 0x1000) = Some (puts 0x2000 t (\<lambda>_. 0, 0x1000)) \<and>
     simple_strtoul (t @ '' end'') 0 = (0xdeadbeef, '' end'')"
  using number_strtoul_round_trip [of 16 SPECIAL "'' end''" "0x2000" "0xdeadbeef" "(\<lambda>_. 0, 0x1000)"]
  by (auto simp: flag_defs stops_def isxdigit_def isdigit_def)

end
