(* ===== verification/Printk.thy ===== *)
theory Printk
  imports Timer Vsprintf_Props
begin

text \<open>
  The console: \<^verbatim>\<open>uart_putc\<close> and \<^verbatim>\<open>uart_puts\<close> of \<^verbatim>\<open>kernel/uart.c\<close> over the device model of the
  interrupt controller, and \<^verbatim>\<open>printk\<close> of \<^verbatim>\<open>lib/printk.c\<close>, which formats a time stamp and the message into one buffer
  of 256 bytes on the stack.
\<close>

unbundle bit_operations_syntax

section \<open>The serial port\<close>

definition UART :: u64 where "UART = IO_ADDRESS 0x09000000"

definition uart_putc :: "device \<Rightarrow> u8 \<Rightarrow> access list \<Rightarrow> access list option" where
  "uart_putc dev character h = do {
     h \<leftarrow> poll_clear dev (UART + 0x18) 5 h;
     Some (write32 UART (ucast character) h)
   }"

partial_function (option) uart_puts :: "device \<Rightarrow> byte_mem \<Rightarrow> u64 \<Rightarrow> access list \<Rightarrow> access list option" where
  "uart_puts dev m text h =
     (if m text \<noteq> 0 then do {
        h \<leftarrow> uart_putc dev (m text) h;
        uart_puts dev m (text + 1) h
      }
      else Some h)"

section \<open>Messages\<close>

definition printk ::
  "device \<Rightarrow> u64 \<Rightarrow> u64 \<Rightarrow> u64 \<Rightarrow> string \<Rightarrow> va list \<Rightarrow> byte_mem \<Rightarrow> access list \<Rightarrow> (byte_mem \<times> access list \<times> int) option" where
  "printk dev ticks frequency buffer fmt args m h = (
     if frequency = 0 then None
     else do {
       let seconds = ticks div frequency;
       let micros = ticks mod frequency * 1000000 div frequency;
       (m, length) \<leftarrow> snprintf m buffer 256 ''[%5lu.%06lu] '' [Val seconds, Val micros];
       (m, more) \<leftarrow> vsnprintf m (buffer + of_int length) (256 - of_int length) fmt args;
       length \<leftarrow> cint (length + more);
       h \<leftarrow> uart_puts dev m buffer h;
       Some (m, h, length)
     })"

section \<open>What is sent\<close>

fun sent :: "access list \<Rightarrow> u32 list" where
  "sent [] = []"
| "sent (Write32 a v # h) = (if a = UART then v # sent h else sent h)"
| "sent (_ # h) = sent h"

lemma sent_append [simp]: "sent (h @ h') = sent h @ sent h'"
  by (induction h rule: sent.induct) auto

lemma sent_reads [simp]: "sent (map (Read32 reg) vs) = []"
  by (induction vs) auto

lemma uart_putc_sends:
  assumes "\<And>h. answers dev (UART + 0x18) 5 n h"
  shows "\<exists>h'. uart_putc dev c h = Some h' \<and> sent h' = sent h @ [ucast c]"
proof -
  obtain vs v where "poll_clear dev (UART + 0x18) 5 h = Some (h @ map (Read32 (UART + 0x18)) vs @ [Read32 (UART + 0x18) v])"
    using poll_clear_returns [OF assms, of h] by blast
  then show ?thesis by (simp add: uart_putc_def write32_def)
qed

lemma uart_puts_sends:
  assumes dev: "\<And>h. answers dev (UART + 0x18) 5 n h"
  shows "(\<And>i. i < length bs \<Longrightarrow> m (str + of_nat i) = bs ! i \<and> bs ! i \<noteq> 0) \<Longrightarrow> m (str + of_nat (length bs)) = 0 \<Longrightarrow>
    \<exists>h'. uart_puts dev m str h = Some h' \<and> sent h' = sent h @ map ucast bs"
proof (induction bs arbitrary: str h)
  case Nil
  then show ?case by (simp add: uart_puts.simps [of dev m str])
next
  case (Cons b bs)
  have b: "m str = b" "b \<noteq> 0" using Cons.prems(1) [of 0] by simp_all
  obtain h1 where h1: "uart_putc dev b h = Some h1" "sent h1 = sent h @ [ucast b]" using uart_putc_sends [OF dev, of b h] by blast
  have "m (str + 1 + of_nat i) = bs ! i \<and> bs ! i \<noteq> 0" if "i < length bs" for i
    using Cons.prems(1) [of "Suc i"] that by (simp add: add.assoc)
  then obtain h' where "uart_puts dev m (str + 1) h1 = Some h'" "sent h' = sent h1 @ map ucast bs"
    using Cons.IH [of "str + 1" h1] Cons.prems(2) by (auto simp: add.assoc)
  then show ?case using b h1 by (simp add: uart_puts.simps [of dev m str])
qed

section \<open>The time stamp\<close>

definition stamp :: "u64 \<Rightarrow> u64 \<Rightarrow> string" where
  "stamp seconds micros = ''['' @ number_text seconds 10 5 (- 1) 0 @ ''.'' @ number_text micros 10 6 (- 1) ZEROPAD @ ''] ''"

lemma render_stamp: "render ''[%5lu.%06lu] '' [Val seconds, Val micros] = Some (stamp seconds micros)"
proof -
  have "directive_text ''5lu.%06lu] '' [Val seconds, Val micros] = Some (''.%06lu] '', [Val micros], number_text seconds 10 5 (- 1) 0)"
    "directive_text ''06lu] '' [Val micros] = Some (''] '', [], number_text micros 10 6 (- 1) ZEROPAD)"
    by (simp_all add: directive_text_def parse_width_def parse_precision_def parse_qualifier_def conv_text_def num_text_def va_val_def
        int_arg_def skip_atoi_def cint_def isdigit_def flag_defs Let_def)
  then show ?thesis by (simp add: render_eval stamp_def)
qed

lemma plain_number_text:
  assumes "\<not> flag flags SIGN" "\<not> flag flags SPECIAL" "2 \<le> base" "base \<le> 36" "width \<le> 64"
  shows "length (number_text num base width (- 1) flags) \<le> 64" "NUL \<notin> set (number_text num base width (- 1) flags)"
proof -
  have r: "length (radix (nat base) (unat num)) \<le> 64" "\<forall>d\<in>set (radix (nat base) (unat num)). d < nat base"
    using radix_length [of "nat base" "unat num" 64] radix_digits [of "nat base" "unat num"] assms(3) u64_bound [of num] by simp_all
  have "list_all (\<lambda>d. small_digits ! d \<noteq> NUL \<and> large_digits ! d \<noteq> NUL) [0..<36]" by code_simp
  then have tn: "table flags ! d \<noteq> NUL" if "d < 36" for d using that by (auto simp: table_def list_all_iff)
  have "NUL \<notin> (!) (table flags) ` set (radix (nat base) (unat num))"
  proof
    assume "NUL \<in> (!) (table flags) ` set (radix (nat base) (unat num))"
    then obtain d where "d \<in> set (radix (nat base) (unat num))" "table flags ! d = NUL" by auto
    then show False using r(2) assms(4) tn [of d] by fastforce
  qed
  then show "NUL \<notin> set (number_text num base width (- 1) flags)"
    using assms(1,2) by (simp add: number_text_def Let_def sign_text_def prefix_text_def digits_text_def negative_def)
  have "length (radix (nat base) (unat num)) + nat (width - int (length (radix (nat base) (unat num)))) \<le> 64"
    using assms(5) r(1) by linarith
  then show "length (number_text num base width (- 1) flags) \<le> 64"
    using assms(1,2) by (simp add: number_text_def Let_def sign_text_def prefix_text_def digits_text_def negative_def add.commute)
qed

lemma stamp_length: "length (stamp seconds micros) < 140" "NUL \<notin> set (stamp seconds micros)"
  using plain_number_text [of 0 10 5 seconds] plain_number_text [of ZEROPAD 10 6 micros]
  by (auto simp: stamp_def flag_defs)

section \<open>Characters as bytes\<close>

lemma of_char_word: "(of_char c :: 'a::len word) = of_nat (of_char c)"
  by (simp add: of_nat_of_char)

lemma of_char_less: "(of_char c :: nat) < 256"
  using mod_less_divisor [of 256 "of_char c :: nat"] by simp

lemma of_char_u8_zero: "(of_char c :: u8) = 0 \<longleftrightarrow> c = NUL"
proof -
  have "(of_char c :: nat) < 2 ^ 8" using of_char_less [of c] by simp
  then have "(of_char c :: u8) = 0 \<longleftrightarrow> (of_char c :: nat) = 0"
    unfolding of_char_word by (simp add: word_unat_eq_iff unat_of_nat)
  also have "\<dots> \<longleftrightarrow> (of_char c :: nat) = of_char NUL" by simp
  also have "\<dots> \<longleftrightarrow> c = NUL" by (rule of_char_eq_iff)
  finally show ?thesis .
qed

lemma ucast_of_char: "ucast (of_char c :: u8) = (of_char c :: u32)"
  unfolding of_char_word using of_char_less [of c] by (simp add: unsigned_of_nat take_bit_nat_eq_self)

section \<open>Properties\<close>

text \<open>The buffer after the time stamp and the message.\<close>

lemma filled_twice:
  fixes buffer :: u64 and m :: byte_mem and t :: string
  assumes s: "length s < 140" and buf: "unat buffer + 256 < 2 ^ 64"
  defines "m1 \<equiv> filled m buffer 256 s"
  defines "m2 \<equiv> filled m1 (buffer + of_nat (length s)) (256 - length s) t" and "n \<equiv> length (take 255 (s @ t))"
  shows "i \<le> n \<Longrightarrow> m2 (buffer + of_nat i) = (if i < n then of_char ((s @ t) ! i) else 0)"
    "unat x < unat buffer \<or> unat buffer + 256 \<le> unat x \<Longrightarrow> m2 x = m x"
proof -
  let ?buf = "buffer + of_nat (length s)"
  have u: "unat ?buf = unat buffer + length s" using s buf by (simp add: unat_word_ariths unat_of_nat)
  show "m2 (buffer + of_nat i) = (if i < n then of_char ((s @ t) ! i) else 0)" if "i \<le> n"
  proof -
    have i: "i < 256" using that by (simp add: n_def)
    have x: "unat (buffer + of_nat i) = unat buffer + i" using i buf by (simp add: unat_word_ariths unat_of_nat)
    have m1: "m1 (buffer + of_nat i) = (if i < length s then of_char (s ! i) else if i = length s then 0 else m (buffer + of_nat i))"
      unfolding m1_def using filled_inside [OF x i, of m s] s by simp
    show ?thesis
    proof (cases "i < length s")
      case True
      have "m2 (buffer + of_nat i) = m1 (buffer + of_nat i)"
        unfolding m2_def by (rule filled_outside) (use True x u in simp)
      then show ?thesis using True m1 s by (simp add: n_def nth_append)
    next
      case False
      then have j: "unat (buffer + of_nat i) = unat ?buf + (i - length s)" "i - length s < 256 - length s"
        using x u i by simp_all
      have "m2 (buffer + of_nat i) = (if i - length s < min (length t) (256 - length s - 1) then of_char (t ! (i - length s))
          else if i - length s = min (length t) (256 - length s - 1) then 0 else m1 (buffer + of_nat i))"
        unfolding m2_def by (rule filled_inside [OF j])
      then show ?thesis using False that s by (auto simp: n_def nth_append min_def split: if_splits)
    qed
  qed
  show "m2 x = m x" if "unat x < unat buffer \<or> unat buffer + 256 \<le> unat x"
  proof -
    have "m2 x = m1 x" unfolding m2_def by (rule filled_outside) (use that u s in auto)
    also have "\<dots> = m x" unfolding m1_def by (rule filled_outside) (use that in auto)
    finally show ?thesis .
  qed
qed

text \<open>
  C33: One message on the console: \<^verbatim>\<open>printk\<close> sends the time stamp and the text of the format, cut off
  after 255 characters, changes no memory outside its buffer of 256 bytes, and returns the length of the whole
  message. It ends when the serial port accepts every character after finitely many polls.
\<close>

theorem printk_sends:
  assumes "render fmt args = Some t" "NUL \<notin> set t" "frequency \<noteq> 0" and dev: "\<And>h. answers dev (UART + 0x18) 5 n h"
    and buf: "0 < unat buffer" "unat buffer + length t + 256 < 2 ^ 64" "length t < 0x7fffff00"
  shows "\<exists>m' h' line. printk dev ticks frequency buffer fmt args m h = Some (m', h', int (length line)) \<and>
    line = stamp (ticks div frequency) (ticks mod frequency * 1000000 div frequency) @ t \<and>
    sent h' = sent h @ map of_char (take 255 line) \<and>
    (\<forall>x. unat x < unat buffer \<or> unat buffer + 256 \<le> unat x \<longrightarrow> m' x = m x)"
proof -
  define s where "s = stamp (ticks div frequency) (ticks mod frequency * 1000000 div frequency)"
  have s: "length s < 140" "NUL \<notin> set s" by (simp_all add: s_def stamp_length)
  define m1 where "m1 = filled m buffer 256 s"
  have 1: "snprintf m buffer 256 ''[%5lu.%06lu] '' [Val (ticks div frequency), Val (ticks mod frequency * 1000000 div frequency)] =
      Some (m1, int (length s))"
    unfolding snprintf_def m1_def s_def
    using vsnprintf_text [OF render_stamp, of buffer 256 "ticks div frequency" "ticks mod frequency * 1000000 div frequency" m] s buf
    by (simp add: s_def)
  let ?buf = "buffer + of_nat (length s)" and ?sz = "256 - of_nat (length s) :: u64"
  have u: "unat ?buf = unat buffer + length s" "unat ?sz = 256 - length s"
    using s(1) buf by (simp_all add: unat_word_ariths unat_of_nat unat_sub word_le_nat_alt)
  define m2 where "m2 = filled m1 ?buf (256 - length s) t"
  have 2: "vsnprintf m1 ?buf ?sz fmt args = Some (m2, int (length t))"
    unfolding m2_def u(2) [symmetric]
    by (rule vsnprintf_text [OF assms(1)]) (use u s(1) buf in simp_all)
  define line where "line = s @ t"
  have "unat buffer + 256 < 2 ^ 64" using buf(2) by simp
  note m2 = filled_twice [OF s(1) this, where m = m and t = t, folded m1_def, folded m2_def line_def]
  have "line ! i \<noteq> NUL" if "i < length (take 255 line)" for i
  proof -
    have "line ! i \<in> set line" using that by (intro nth_mem) simp
    then show ?thesis using assms(2) s(2) by (auto simp: line_def)
  qed
  then obtain h' where h': "uart_puts dev m2 buffer h = Some h'" "sent h' = sent h @ map ucast (map of_char (take 255 line) :: u8 list)"
    using uart_puts_sends [OF dev, of "map of_char (take 255 line)" m2 buffer h] m2(1) by (auto simp: of_char_u8_zero)
  have "printk dev ticks frequency buffer fmt args m h = Some (m2, h', int (length line))"
    using 1 2 h'(1) assms(3) s(1) buf by (simp add: printk_def cint_def line_def)
  then show ?thesis using h'(2) m2(2)
    by (intro exI [of _ m2] exI [of _ h'] exI [of _ line]) (simp add: s_def [symmetric] line_def [symmetric] ucast_of_char comp_def)
qed

theorem printk_sends_witness:
  "\<exists>m' h' line. printk (\<lambda>_ _. 0) 62500001 62500000 0x1000 ''%5d|%-4x|%s'' [Val (- 3), Val 0xab, Str (Some ''hey'')] (\<lambda>_. 0) [] =
       Some (m', h', int (length line)) \<and> line = stamp 1 0 @ ''   -3|ab  |hey'' \<and> sent h' = map of_char (take 255 line)"
proof -
  have "answers (\<lambda>_ _. 0) (UART + 0x18) 5 1 h" for h by simp
  then show ?thesis
    using printk_sends [OF sample_render, of 62500000 "\<lambda>_ _. 0" 1 "0x1000" 62500001 "\<lambda>_. 0" "[]"] by auto
qed

text \<open>
  C32: Printing a signed number with \<^verbatim>\<open>%ld\<close> is defined for every number but the smallest one, whose
  negation overflows. An application can reach this case with the exit status \<open>2 ^ 63\<close>, which \<^verbatim>\<open>trap\<close> prints.
\<close>

theorem signed_print_undefined: "vsnprintf m buf sz ''%ld'' [Val w] = None \<longleftrightarrow> w = push_bit 63 1"
proof (cases "w = push_bit 63 1")
  case True
  then show ?thesis
    by (simp add: vsnprintf_def vsnprintf_end_def Let_def vsnprintf_loop.simps [of _ _ "CHR ''%'' # _"] directive_def parse_width_def parse_precision_def
        parse_qualifier_def isdigit_def convert_def conv_int_def va_val_def int_arg_def number_def number_sign_def flag_defs)
next
  case False
  then obtain t where "directive_text ''ld'' [Val w] = Some ([], [], t)"
    by (simp add: directive_text_def parse_width_def parse_precision_def parse_qualifier_def conv_text_def num_text_def va_val_def
        int_arg_def isdigit_def)
  then have "render ''%ld'' [Val w] = Some t" by (simp add: render_eval)
  then show ?thesis using False by (auto simp: vsnprintf_def vsnprintf_end_def Let_def vsnprintf_loop_puts split: prod.split)
qed

end
