(* ===== verification/Slab.thy ===== *)
theory Slab
  imports Page_Alloc Kernel_State String_Lib
begin

text \<open>
  The object allocator of \<^verbatim>\<open>mm/slab.c\<close> on top of the page allocator. A cache is its index in
  \<^verbatim>\<open>kmalloc_caches\<close>, and its partial list is the node \<open>Partial\<close> of that index. Objects are kernel
  addresses; a free object holds the address of the next one in its first eight bytes, in the byte memory
  that the clients of the allocator share.
\<close>

unbundle bit_operations_syntax

section \<open>State\<close>

definition KMALLOC_SHIFT_LOW :: nat where "KMALLOC_SHIFT_LOW = 4"
definition KMALLOC_SHIFT_HIGH :: nat where "KMALLOC_SHIFT_HIGH = 11"
definition KMALLOC_MIN_SIZE :: u64 where "KMALLOC_MIN_SIZE = push_bit KMALLOC_SHIFT_LOW 1"
definition KMALLOC_MAX_SIZE :: u64 where "KMALLOC_MAX_SIZE = push_bit KMALLOC_SHIFT_HIGH 1"
definition KMALLOC_CACHES :: nat where "KMALLOC_CACHES = KMALLOC_SHIFT_HIGH - KMALLOC_SHIFT_LOW + 1"

record kmem_cache =
  c_size :: u64
  c_objects :: u32

record heap =
  pa :: page_alloc
  kmalloc_caches :: "kmem_cache list"
  mem :: byte_mem

definition page_address :: "page_alloc \<Rightarrow> nat \<Rightarrow> u64" where
  "page_address s page = kva (page_to_phys s page)"

definition virt_to_page :: "page_alloc \<Rightarrow> u64 \<Rightarrow> nat" where
  "virt_to_page s address = phys_to_page s (kpa address)"

definition get_cache :: "heap \<Rightarrow> nat \<Rightarrow> kmem_cache option" where
  "get_cache s c = (if c < length (kmalloc_caches s) then Some (kmalloc_caches s ! c) else None)"

definition upd_slab :: "(page \<Rightarrow> page) \<Rightarrow> nat \<Rightarrow> heap \<Rightarrow> heap option" where
  "upd_slab f page s = map_option (\<lambda>p. s\<lparr>pa := p\<rparr>) (upd_page f page (pa s))"

section \<open>Initialisation\<close>

fun kmem_cache_init_loop :: "nat list \<Rightarrow> heap \<Rightarrow> heap option" where
  "kmem_cache_init_loop [] s = Some s"
| "kmem_cache_init_loop (index # rest) s =
     (if index < length (kmalloc_caches s) then
        let sz = push_bit index KMALLOC_MIN_SIZE in
        kmem_cache_init_loop rest
          (s\<lparr>kmalloc_caches := (kmalloc_caches s)[index := \<lparr>c_size = sz, c_objects = ucast (PAGE_SIZE div sz)\<rparr>],
             pa := (pa s)\<lparr>nodes := INIT_LIST_HEAD (nodes (pa s)) (Partial index)\<rparr>\<rparr>)
      else None)"

definition kmem_cache_init :: "heap \<Rightarrow> heap option" where
  "kmem_cache_init s = kmem_cache_init_loop [0..<KMALLOC_CACHES] s"

section \<open>Slabs\<close>

definition get_freepointer :: "byte_mem \<Rightarrow> u64 \<Rightarrow> u64 option" where
  "get_freepointer m object = (if object = 0 then None else Some (load64 m object))"

definition set_freepointer :: "byte_mem \<Rightarrow> u64 \<Rightarrow> u64 \<Rightarrow> byte_mem option" where
  "set_freepointer m object fp = (if object = 0 then None else Some (store64 m object fp))"

text \<open>The loop of \<^verbatim>\<open>new_slab\<close>, with the last object it linked.\<close>

partial_function (option) carve :: "u64 \<Rightarrow> u64 \<Rightarrow> byte_mem \<Rightarrow> u64 \<Rightarrow> u64 \<Rightarrow> (byte_mem \<times> u64) option" where
  "carve sz limit m prev obj =
     (if obj < limit then do {
        m \<leftarrow> set_freepointer m prev obj;
        carve sz limit m obj (obj + sz)
      }
      else Some (m, prev))"

definition new_slab :: "nat \<Rightarrow> heap \<Rightarrow> (heap \<times> nat option) option" where
  "new_slab c s = do {
     cache \<leftarrow> get_cache s c;
     (p, r) \<leftarrow> alloc_pages (pa s) 0;
     let s = s\<lparr>pa := p\<rparr>;
     case r of
       None \<Rightarrow> Some (s, None)
     | Some page \<Rightarrow> do {
         s \<leftarrow> upd_slab (\<lambda>b. b\<lparr>pg_slab := Some c, pg_inuse := 0, pg_flags := pg_flags b OR PAGE_SLAB\<rparr>) page s;
         let start = page_address (pa s) page;
         (m, last) \<leftarrow> carve (c_size cache) (start + ucast (c_objects cache) * c_size cache) (mem s) start (start + c_size cache);
         m \<leftarrow> set_freepointer m last 0;
         s \<leftarrow> upd_slab (\<lambda>b. b\<lparr>pg_freelist := start\<rparr>) page (s\<lparr>mem := m\<rparr>);
         h \<leftarrow> list_add (nodes (pa s)) (Lru page) (Partial c);
         Some (s\<lparr>pa := (pa s)\<lparr>nodes := h\<rparr>\<rparr>, Some page)
       }
   }"

text \<open>The part of \<^verbatim>\<open>slab_alloc\<close> after the slab is chosen.\<close>

definition take_object :: "nat \<Rightarrow> heap \<Rightarrow> (heap \<times> u64) option" where
  "take_object page s = do {
     b \<leftarrow> get_page (pa s) page;
     let object = pg_freelist b;
     fp \<leftarrow> get_freepointer (mem s) object;
     s \<leftarrow> upd_slab (\<lambda>b. b\<lparr>pg_freelist := fp, pg_inuse := pg_inuse b + 1\<rparr>) page s;
     if fp = 0 then do {
       h \<leftarrow> list_del (nodes (pa s)) (Lru page);
       Some (s\<lparr>pa := (pa s)\<lparr>nodes := h\<rparr>\<rparr>, object)
     }
     else Some (s, object)
   }"

definition slab_alloc :: "nat \<Rightarrow> heap \<Rightarrow> (heap \<times> u64) option" where
  "slab_alloc c s =
     (if list_empty (nodes (pa s)) (Partial c) then do {
        (s, r) \<leftarrow> new_slab c s;
        case r of None \<Rightarrow> Some (s, 0) | Some page \<Rightarrow> take_object page s
      }
      else do {
        n \<leftarrow> list_first_entry (nodes (pa s)) (Partial c);
        page \<leftarrow> lru_page n;
        take_object page s
      })"

definition slab_free :: "nat \<Rightarrow> u64 \<Rightarrow> heap \<Rightarrow> heap option" where
  "slab_free page object s = do {
     b \<leftarrow> get_page (pa s) page;
     let prior = pg_freelist b;
     m \<leftarrow> set_freepointer (mem s) object prior;
     s \<leftarrow> upd_slab (\<lambda>b. b\<lparr>pg_freelist := object, pg_inuse := pg_inuse b - 1\<rparr>) page (s\<lparr>mem := m\<rparr>);
     if pg_inuse b - 1 = 0 then do {
       s \<leftarrow> (if prior \<noteq> 0 then map_option (\<lambda>h. s\<lparr>pa := (pa s)\<lparr>nodes := h\<rparr>\<rparr>) (list_del (nodes (pa s)) (Lru page)) else Some s);
       s \<leftarrow> upd_slab (\<lambda>b. b\<lparr>pg_flags := pg_flags b AND NOT PAGE_SLAB\<rparr>) page s;
       map_option (\<lambda>p. s\<lparr>pa := p\<rparr>) (free_pages (pa s) page 0)
     }
     else if prior = 0 then do {
       c \<leftarrow> pg_slab b;
       h \<leftarrow> list_add (nodes (pa s)) (Lru page) (Partial c);
       Some (s\<lparr>pa := (pa s)\<lparr>nodes := h\<rparr>\<rparr>)
     }
     else Some s
   }"

section \<open>Allocation by size\<close>

text \<open>A shift by 64 or more is undefined.\<close>

function kmalloc_index_loop :: "u64 \<Rightarrow> nat \<Rightarrow> nat option" where
  "kmalloc_index_loop sz index =
     (if index < 64 then if push_bit index KMALLOC_MIN_SIZE < sz then kmalloc_index_loop sz (Suc index) else Some index
      else None)"
  by pat_completeness auto
termination
  by (relation "measure (\<lambda>(sz, index). 64 - index)") auto

definition kmalloc_index :: "u64 \<Rightarrow> nat option" where
  "kmalloc_index sz = kmalloc_index_loop sz 0"

text \<open>The order of a large request, unless it is too large.\<close>

function kmalloc_order :: "u64 \<Rightarrow> nat \<Rightarrow> nat option" where
  "kmalloc_order sz order =
     (if push_bit order PAGE_SIZE < sz then if Suc order \<ge> MAX_ORDER then None else kmalloc_order sz (Suc order)
      else Some order)"
  by pat_completeness auto
termination
  by (relation "measure (\<lambda>(sz, order). MAX_ORDER - order)") auto

declare kmalloc_index_loop.simps [simp del] kmalloc_order.simps [simp del]

definition kmalloc :: "u64 \<Rightarrow> heap \<Rightarrow> (heap \<times> u64) option" where
  "kmalloc sz s =
     (if sz = 0 then Some (s, 0)
      else if sz > KMALLOC_MAX_SIZE then
        (case kmalloc_order sz 0 of
           None \<Rightarrow> Some (s, 0)
         | Some order \<Rightarrow> do {
             (p, r) \<leftarrow> alloc_pages (pa s) order;
             let s = s\<lparr>pa := p\<rparr>;
             case r of
               None \<Rightarrow> Some (s, 0)
             | Some page \<Rightarrow> do {
                 s \<leftarrow> upd_slab (\<lambda>b. b\<lparr>pg_order := order\<rparr>) page s;
                 Some (s, page_address (pa s) page)
               }
           })
      else do {
        c \<leftarrow> kmalloc_index sz;
        slab_alloc c s
      })"

definition kzalloc :: "u64 \<Rightarrow> heap \<Rightarrow> (heap \<times> u64) option" where
  "kzalloc sz s = do {
     (s, object) \<leftarrow> kmalloc sz s;
     if object \<noteq> 0 then Some (s\<lparr>mem := memset (mem s) object 0 sz\<rparr>, object) else Some (s, object)
   }"

definition kfree :: "u64 \<Rightarrow> heap \<Rightarrow> heap option" where
  "kfree object s =
     (if object = 0 then Some s
      else do {
        let page = virt_to_page (pa s) object;
        b \<leftarrow> get_page (pa s) page;
        if pg_flags b AND PAGE_SLAB \<noteq> 0 then slab_free page object s
        else map_option (\<lambda>p. s\<lparr>pa := p\<rparr>) (free_pages (pa s) page (pg_order b))
      })"

end
