(* ===== verification/Slab_Inv.thy ===== *)
theory Slab_Inv
  imports Slab Page_Alloc_Spec
begin

text \<open>
  The invariant of the object allocator: which pages are slabs, which of their objects are free,
  and how the free objects are chained in memory.
\<close>

unbundle bit_operations_syntax

section \<open>The page allocator leaves the slab fields alone\<close>

definition is_slab :: "page_alloc \<Rightarrow> nat \<Rightarrow> bool" where
  "is_slab s p \<longleftrightarrow> p < n_pages s \<and> pg_flags (mem_map s ! p) AND PAGE_SLAB \<noteq> 0"

definition slab_fields :: "page \<Rightarrow> u64 \<times> nat option \<times> u32 \<times> u32" where
  "slab_fields b = (pg_freelist b, pg_slab b, pg_inuse b, pg_flags b AND PAGE_SLAB)"

definition keeps :: "page_alloc \<Rightarrow> page_alloc \<Rightarrow> bool" where
  "keeps s s' \<longleftrightarrow> map slab_fields (mem_map s') = map slab_fields (mem_map s)"

lemma keeps_refl [simp]: "keeps s s"
  by (simp add: keeps_def)

lemma keeps_trans: "keeps s s' \<Longrightarrow> keeps s' s'' \<Longrightarrow> keeps s s''"
  by (simp add: keeps_def)

lemma keeps_sel [simp]:
  "keeps s (s'\<lparr>nodes := h\<rparr>) = keeps s s'" "keeps s (s'\<lparr>free_count := n\<rparr>) = keeps s s'" "keeps s (s'\<lparr>nr_free := x\<rparr>) = keeps s s'"
  "keeps (s\<lparr>nodes := h\<rparr>) s' = keeps s s'" "keeps (s\<lparr>free_count := n\<rparr>) s' = keeps s s'" "keeps (s\<lparr>nr_free := x\<rparr>) s' = keeps s s'"
  by (simp_all add: keeps_def)

lemma slab_fields_flags [simp]:
  "slab_fields (b\<lparr>pg_flags := pg_flags b AND NOT PAGE_BUDDY\<rparr>) = slab_fields b"
  "slab_fields (b\<lparr>pg_order := k, pg_flags := pg_flags b OR PAGE_BUDDY\<rparr>) = slab_fields b"
  "slab_fields (b\<lparr>pg_order := k\<rparr>) = slab_fields b"
  by (simp_all add: slab_fields_def PAGE_BUDDY_def PAGE_SLAB_def bit.conj_disj_distrib2 and.assoc)

lemma keeps_upd_page: "upd_page f i s = Some s' \<Longrightarrow> (\<And>b. slab_fields (f b) = slab_fields b) \<Longrightarrow> keeps s s'"
  by (auto simp: upd_page_def keeps_def map_update list_update_same_conv split: if_splits)

lemma keeps_upd_nr_free: "upd_nr_free f k s = Some s' \<Longrightarrow> keeps s s'"
  by (auto simp: upd_nr_free_def split: if_splits)

lemma free_one_page_loop_keeps: "free_one_page_loop s pfn page order = Some (s', page', order') \<Longrightarrow> keeps s s'"
proof (induction "MAX_ORDER - order" arbitrary: s pfn page order rule: less_induct)
  case less
  let ?buddy = "pfn_to_page s (pfn XOR push_bit order 1)"
  consider "s' = s" | h s1 s2 pfn2 page2 where "order < MAX_ORDER - 1"
      "upd_page (\<lambda>b. b\<lparr>pg_flags := pg_flags b AND NOT PAGE_BUDDY\<rparr>) ?buddy (s\<lparr>nodes := h\<rparr>) = Some s1"
      "upd_nr_free (\<lambda>n. n - 1) order s1 = Some s2" "free_one_page_loop s2 pfn2 page2 (Suc order) = Some (s', page', order')"
    using less(2) by (subst (asm) free_one_page_loop.simps) (auto simp: Let_def split: if_splits Option.bind_splits)
  then show ?case
  proof cases
    case 1
    then show ?thesis by simp
  next
    case 2
    have "keeps s s1" using keeps_upd_page [OF 2(2)] by simp
    moreover have "keeps s1 s2" by (rule keeps_upd_nr_free [OF 2(3)])
    moreover have "keeps s2 s'" using less(1) [OF _ 2(4)] 2(1) by simp
    ultimately show ?thesis using keeps_trans by blast
  qed
qed

lemma free_pages_keeps: "free_pages s page order = Some s' \<Longrightarrow> keeps s s'"
proof -
  assume "free_pages s page order = Some s'"
  then obtain s1 page1 order1 s2 h s3 where f:
    "free_one_page_loop s (page_to_pfn s page) page order = Some (s1, page1, order1)"
    "upd_page (\<lambda>b. b\<lparr>pg_order := order1, pg_flags := pg_flags b OR PAGE_BUDDY\<rparr>) page1 s1 = Some s2"
    "upd_nr_free (\<lambda>n. n + 1) order1 (s2\<lparr>nodes := h\<rparr>) = Some s3" "s' = s3\<lparr>free_count := free_count s3 + push_bit order 1\<rparr>"
    by (auto simp: free_pages_def free_one_page_def Let_def split: Option.bind_splits)
  have "keeps s s1" by (rule free_one_page_loop_keeps [OF f(1)])
  moreover have "keeps s1 s2" using keeps_upd_page [OF f(2)] by simp
  moreover have "keeps s2 s'" using keeps_upd_nr_free [OF f(3)] f(4) by simp
  ultimately show ?thesis using keeps_trans by blast
qed

lemma expand_loop_keeps: "expand_loop s page low high sz = Some s' \<Longrightarrow> keeps s s'"
proof (induction high arbitrary: s sz)
  case 0
  then show ?case by (simp add: expand_loop.simps)
next
  case (Suc high)
  consider "s' = s" | h s1 s2 where "upd_page (\<lambda>b. b\<lparr>pg_order := high, pg_flags := pg_flags b OR PAGE_BUDDY\<rparr>) (page + unat (drop_bit 1 sz)) s = Some s1"
      "upd_nr_free (\<lambda>n. n + 1) high (s1\<lparr>nodes := h\<rparr>) = Some s2" "expand_loop s2 page low high (drop_bit 1 sz) = Some s'"
    using Suc(2) by (subst (asm) expand_loop.simps) (auto simp: Let_def split: if_splits Option.bind_splits)
  then show ?case
  proof cases
    case 2
    have "keeps s s1" using keeps_upd_page [OF 2(1)] by simp
    moreover have "keeps s1 s2" using keeps_upd_nr_free [OF 2(2)] by simp
    moreover have "keeps s2 s'" by (rule Suc(1) [OF 2(3)])
    ultimately show ?thesis using keeps_trans by blast
  qed simp
qed

lemma alloc_pages_loop_keeps: "alloc_pages_loop s order cur = Some (s', r) \<Longrightarrow> keeps s s'"
proof (induction "MAX_ORDER - cur" arbitrary: cur rule: less_induct)
  case less
  consider "s' = s" | "cur < MAX_ORDER" "alloc_pages_loop s order (Suc cur) = Some (s', r)"
    | page h s1 s2 where "upd_page (\<lambda>b. b\<lparr>pg_flags := pg_flags b AND NOT PAGE_BUDDY\<rparr>) page (s\<lparr>nodes := h\<rparr>) = Some s1"
      "upd_nr_free (\<lambda>n. n - 1) cur s1 = Some s2"
      "expand_loop (s2\<lparr>free_count := free_count s2 - push_bit order 1\<rparr>) page order cur (push_bit cur 1) = Some s'"
    using less(2) by (subst (asm) alloc_pages_loop.simps) (auto simp: expand_def Let_def split: if_splits Option.bind_splits)
  then show ?case
  proof cases
    case 2
    show ?thesis by (rule less(1) [OF _ 2(2)]) (use 2(1) in simp)
  next
    case 3
    have "keeps s s1" using keeps_upd_page [OF 3(1)] by simp
    moreover have "keeps s1 s2" by (rule keeps_upd_nr_free [OF 3(2)])
    moreover have "keeps s2 s'" using expand_loop_keeps [OF 3(3)] by simp
    ultimately show ?thesis using keeps_trans by blast
  qed simp
qed

lemma alloc_pages_keeps: "alloc_pages s order = Some (s', r) \<Longrightarrow> keeps s s'"
  by (auto simp: alloc_pages_def alloc_pages_loop_keeps split: if_splits)

lemma keepsD:
  assumes "keeps s s'"
  shows "n_pages s' = n_pages s" "is_slab s' p = is_slab s p"
    "p < n_pages s \<Longrightarrow> pg_freelist (mem_map s' ! p) = pg_freelist (mem_map s ! p)"
    "p < n_pages s \<Longrightarrow> pg_slab (mem_map s' ! p) = pg_slab (mem_map s ! p)"
    "p < n_pages s \<Longrightarrow> pg_inuse (mem_map s' ! p) = pg_inuse (mem_map s ! p)"
proof -
  show n: "n_pages s' = n_pages s" using arg_cong [OF assms [unfolded keeps_def], of length] by simp
  have f: "slab_fields (mem_map s' ! p) = slab_fields (mem_map s ! p)" if "p < n_pages s" for p
    using arg_cong [OF assms [unfolded keeps_def], of "\<lambda>l. l ! p"] that n by simp
  show "is_slab s' p = is_slab s p" using f n by (auto simp: is_slab_def slab_fields_def)
  show "p < n_pages s \<Longrightarrow> pg_freelist (mem_map s' ! p) = pg_freelist (mem_map s ! p)"
    "p < n_pages s \<Longrightarrow> pg_slab (mem_map s' ! p) = pg_slab (mem_map s ! p)"
    "p < n_pages s \<Longrightarrow> pg_inuse (mem_map s' ! p) = pg_inuse (mem_map s ! p)"
    using f by (simp_all add: slab_fields_def)
qed

section \<open>Addresses\<close>

text \<open>The zone lies in the linear map and ends before the last page of the address space.\<close>

definition linear :: "page_alloc \<Rightarrow> bool" where
  "linear s \<longleftrightarrow> 0x40000 \<le> base s \<and> base s + n_pages s < 0x4040000"

definition addr :: "page_alloc \<Rightarrow> nat \<Rightarrow> nat" where
  "addr s p = 0xffffffc000000000 + (base s + p - 0x40000) * 4096"

lemma linearD: "linear s \<Longrightarrow> 0x40000 \<le> base s" "linear s \<Longrightarrow> base s + n_pages s < 0x4040000"
  by (simp_all add: linear_def)

lemma addr_eq: "linear s \<Longrightarrow> addr s p + 0x40000000 = 0xffffffc000000000 + (base s + p) * 4096"
  using linearD(1) [of s] by (simp add: addr_def diff_mult_distrib)

lemma addr_bound: "linear s \<Longrightarrow> p < n_pages s \<Longrightarrow> addr s p + 4096 < 2 ^ 64 \<and> 0xffffffc000000000 \<le> addr s p"
  using linearD [of s] by (simp add: addr_def)

lemma addr_mono: "linear s \<Longrightarrow> p < q \<Longrightarrow> addr s p + 4096 \<le> addr s q"
  using addr_eq [of s p] addr_eq [of s q] by simp

lemma unat_page_to_phys: "linear s \<Longrightarrow> p < n_pages s \<Longrightarrow> unat (page_to_phys s p) = (base s + p) * 4096"
proof -
  assume l: "linear s" and p: "p < n_pages s"
  have pfn: "unat (page_to_pfn s p) = base s + p"
    using l p by (simp add: page_to_pfn_def linear_def unat_word_ariths unat_of_nat)
  have "page_to_phys s p = page_to_pfn s p * 4096"
    by (simp add: page_to_phys_def PAGE_SHIFT_def push_bit_eq_mult)
  then show ?thesis using pfn l p by (simp add: unat_word_ariths linear_def)
qed

lemma unat_page_address: "linear s \<Longrightarrow> p < n_pages s \<Longrightarrow> unat (page_address s p) = addr s p"
proof -
  assume l: "linear s" and p: "p < n_pages s"
  note u = unat_page_to_phys [OF l p]
  have "unat (page_to_phys s p - PHYS_OFFSET) = (base s + p) * 4096 - 0x40000000"
    using l p u by (subst unat_sub_le) (simp_all add: word_le_nat_alt PHYS_OFFSET_def linear_def)
  moreover have "0x40000000 \<le> (base s + p) * 4096" using linearD [OF l] by simp
  ultimately show ?thesis using addr_eq [OF l, of p] addr_bound [OF l p]
    unfolding page_address_def kva_def by (subst unat_add_nowrap) (simp_all add: PAGE_OFFSET_def)
qed

lemma virt_to_page_eq:
  assumes l: "linear s" "p < n_pages s" and x: "addr s p \<le> unat x" "unat x < addr s p + 4096"
  shows "virt_to_page s x = p"
proof -
  have "unat (x - PAGE_OFFSET) = unat x - 0xffffffc000000000"
    using x(1) addr_bound [OF l] by (subst unat_sub_le) (simp_all add: word_le_nat_alt PAGE_OFFSET_def)
  then have "unat (kpa x) = unat x - 0xffffffc000000000 + 0x40000000"
    using u64_bound [of x] unfolding kpa_def by (subst unat_add_nowrap) (simp_all add: PHYS_OFFSET_def)
  moreover have "(unat x - 0xffffffc000000000 + 0x40000000) div 4096 = base s + p"
    using x addr_eq [OF l(1), of p] addr_bound [OF l] by (intro div_nat_eqI) simp_all
  ultimately have "unat (drop_bit PAGE_SHIFT (kpa x)) = base s + p" by (simp add: unat_drop_page)
  then show ?thesis by (simp add: virt_to_page_def phys_to_page_def pfn_to_page_eq)
qed

text \<open>The objects of a slab of class \<open>c\<close>.\<close>

abbreviation obj_size :: "nat \<Rightarrow> nat" where "obj_size c \<equiv> 2 ^ (c + 4)"

abbreviation obj_count :: "nat \<Rightarrow> nat" where "obj_count c \<equiv> 2 ^ (8 - c)"

definition obj :: "page_alloc \<Rightarrow> nat \<Rightarrow> nat \<Rightarrow> nat \<Rightarrow> u64" where
  "obj s p c j = page_address s p + of_nat (j * obj_size c)"

definition objs :: "page_alloc \<Rightarrow> nat \<Rightarrow> nat \<Rightarrow> u64 list" where
  "objs s p c = map (obj s p c) [0..<obj_count c]"

lemma obj_total: "c < 8 \<Longrightarrow> obj_count c * obj_size c = 4096"
  by (simp flip: power_add)

lemma unat_obj:
  assumes "linear s" "p < n_pages s" "c < 8" "j \<le> obj_count c"
  shows "unat (obj s p c j) = addr s p + j * obj_size c"
proof -
  have "j * obj_size c \<le> 4096" using mult_le_mono1 [OF assms(4), of "obj_size c"] obj_total [OF assms(3)] by simp
  then show ?thesis using unat_page_address [OF assms(1,2)] addr_bound [OF assms(1,2)]
    unfolding obj_def by (subst unat_add_nowrap) (simp_all add: unat_of_nat del: of_nat_mult)
qed

lemma obj_in_page:
  assumes "linear s" "p < n_pages s" "c < 8" "x \<in> set (objs s p c)"
  shows "addr s p \<le> unat x" "unat x + obj_size c \<le> addr s p + 4096" "x \<noteq> 0" "virt_to_page s x = p"
proof -
  obtain j where j: "j < obj_count c" "x = obj s p c j" using assms(4) by (auto simp: objs_def)
  have "Suc j * obj_size c \<le> obj_count c * obj_size c" using j(1) by (intro mult_le_mono1) simp
  then have l: "j * obj_size c + obj_size c \<le> 4096" unfolding obj_total [OF assms(3)] by simp
  have u: "unat x = addr s p + j * obj_size c" using unat_obj [OF assms(1-3), of j] j by simp
  show b: "addr s p \<le> unat x" "unat x + obj_size c \<le> addr s p + 4096" using u l by simp_all
  show "x \<noteq> 0" using b(1) addr_bound [OF assms(1,2)] by auto
  have "0 < obj_size c" by simp
  then have "unat x < addr s p + 4096" using b(2) by linarith
  then show "virt_to_page s x = p" by (intro virt_to_page_eq [OF assms(1,2) b(1)])
qed

lemma objs_apart:
  assumes "linear s" "p < n_pages s" "c < 8" "x \<in> set (objs s p c)" "q \<in> set (objs s p c)" "x \<noteq> q"
  shows "unat x + obj_size c \<le> unat q \<or> unat q + obj_size c \<le> unat x"
proof -
  obtain i j where ij: "i < obj_count c" "x = obj s p c i" "j < obj_count c" "q = obj s p c j"
    using assms(4,5) by (auto simp: objs_def)
  then have u: "unat x = addr s p + i * obj_size c" "unat q = addr s p + j * obj_size c"
    using unat_obj [OF assms(1-3)] by simp_all
  have ne: "i \<noteq> j" using ij assms(6) by auto
  have mono: "i * obj_size c + obj_size c \<le> j * obj_size c" if "i < j" for i j
    using that mult_le_mono1 [of "Suc i" j "obj_size c"] by simp
  show ?thesis
  proof (cases "i < j")
    case True
    then show ?thesis using mono [of i j] u by linarith
  next
    case False
    then show ?thesis using ne mono [of j i] u by linarith
  qed
qed

lemma distinct_objs: "linear s \<Longrightarrow> p < n_pages s \<Longrightarrow> c < 8 \<Longrightarrow> distinct (objs s p c)"
proof -
  assume a: "linear s" "p < n_pages s" "c < 8"
  have "inj_on (obj s p c) {0..<obj_count c}"
  proof (rule inj_onI)
    fix i j assume "i \<in> {0..<obj_count c}" "j \<in> {0..<obj_count c}" "obj s p c i = obj s p c j"
    then have "addr s p + i * obj_size c = addr s p + j * obj_size c" using unat_obj [OF a] by (metis atLeastLessThan_iff less_imp_le)
    then show "i = j" by simp
  qed
  then show ?thesis by (simp add: objs_def distinct_map)
qed

section \<open>Chains of free objects\<close>

fun fchain :: "byte_mem \<Rightarrow> u64 \<Rightarrow> u64 list \<Rightarrow> bool" where
  "fchain m w [] \<longleftrightarrow> w = 0"
| "fchain m w (a # as) \<longleftrightarrow> w = a \<and> a \<noteq> 0 \<and> fchain m (load64 m a) as"

lemma fchain_cong:
  "fchain m w as \<Longrightarrow> (\<And>a x. a \<in> set as \<Longrightarrow> in_span a 8 x \<Longrightarrow> m' x = m x) \<Longrightarrow> fchain m' w as"
proof (induction as arbitrary: w)
  case (Cons a as)
  have "load64 m' a = load64 m a" by (rule load64_cong) (use Cons.prems(2) in auto)
  then show ?case using Cons by auto
qed simp

lemma in_span_iff: "unat a + n \<le> 2 ^ 64 \<Longrightarrow> in_span a n x \<longleftrightarrow> unat a \<le> unat x \<and> unat x < unat a + n"
proof -
  assume b: "unat a + n \<le> 2 ^ 64"
  show ?thesis
  proof (cases "unat a \<le> unat x")
    case True
    then have "unat (x - a) = unat x - unat a" by (intro unat_sub_le) (simp add: word_le_nat_alt)
    then show ?thesis using True by (auto simp: in_span_def)
  next
    case False
    then have "unat (x - a) = 2 ^ 64 + unat x - unat a" by (intro unat_sub_wrap) simp
    then show ?thesis using False b by (auto simp: in_span_def)
  qed
qed

lemma fchain_store:
  assumes "fchain m w as" and "unat o' + 8 \<le> 2 ^ 64"
    and "\<And>a. a \<in> set as \<Longrightarrow> unat a + 8 \<le> 2 ^ 64 \<and> (unat a + 8 \<le> unat o' \<or> unat o' + 8 \<le> unat a)"
  shows "fchain (store64 m o' v) w as"
proof (rule fchain_cong [OF assms(1)])
  fix a x assume "a \<in> set as" "in_span a 8 x"
  then have "\<not> in_span o' 8 x" using assms(3) [of a] in_span_iff [OF assms(2)] in_span_iff [of a 8 x] by auto
  then show "store64 m o' v x = m x" by (simp add: store64_apply)
qed

lemma carve_links:
  fixes a :: "nat \<Rightarrow> u64"
  assumes a: "\<And>i. i \<le> n \<Longrightarrow> unat (a i) = A + i * sz" "\<And>i. a (Suc i) = a i + of_nat sz"
    and A: "0 < A" "8 \<le> sz" "A + n * sz < 2 ^ 64"
  shows "j < n \<Longrightarrow> \<exists>m'. carve (of_nat sz) (a n) m (a j) (a (Suc j)) = Some (m', a (n - 1)) \<and>
    (\<forall>i. j \<le> i \<and> i < n - 1 \<longrightarrow> load64 m' (a i) = a (Suc i)) \<and>
    (\<forall>x. (\<forall>i. j \<le> i \<and> i < n - 1 \<longrightarrow> \<not> in_span (a i) 8 x) \<longrightarrow> m' x = m x)"
proof (induction "n - 1 - j" arbitrary: j m)
  case 0
  then have "j = n - 1" "Suc j = n" by simp_all
  then show ?case by (subst carve.simps) auto
next
  case (Suc d)
  then have j: "Suc j < n" by simp
  have less: "a (Suc j) < a n" using a(1) [of "Suc j"] a(1) [of n] j A(2) mult_less_mono1 [of "Suc j" n sz]
    by (simp add: word_less_nat_alt)
  have nz: "a j \<noteq> 0" using a(1) [of j] j A(1) by auto
  let ?m = "store64 m (a j) (a (Suc j))"
  have "d = n - 1 - Suc j" using Suc(2) by simp
  from Suc(1) [OF this j, of ?m] obtain m' where m': "carve (of_nat sz) (a n) ?m (a (Suc j)) (a (Suc (Suc j))) = Some (m', a (n - 1))"
    "\<forall>i. Suc j \<le> i \<and> i < n - 1 \<longrightarrow> load64 m' (a i) = a (Suc i)"
    "\<forall>x. (\<forall>i. Suc j \<le> i \<and> i < n - 1 \<longrightarrow> \<not> in_span (a i) 8 x) \<longrightarrow> m' x = ?m x"
    by blast
  have eq: "carve (of_nat sz) (a n) m (a j) (a (Suc j)) = Some (m', a (n - 1))"
    using m'(1) less nz a(2) [of "Suc j"] by (subst carve.simps) (simp add: set_freepointer_def)
  have far: "\<not> in_span (a i) 8 x" if "in_span (a j) 8 x" "Suc j \<le> i" "i < n" for i x
  proof -
    have "Suc j * sz \<le> i * sz" "i * sz + sz \<le> n * sz" "j * sz + sz \<le> n * sz"
      using that(2,3) j mult_le_mono1 [of "Suc i" n sz] mult_le_mono1 [of "Suc j" n sz] mult_le_mono1 [of "Suc j" i sz] by simp_all
    then show ?thesis
      using that A a(1) [of i] a(1) [of j] in_span_iff [of "a i" 8 x] in_span_iff [of "a j" 8 x] by auto
  qed
  have "load64 m' (a j) = load64 ?m (a j)"
  proof (rule load64_cong)
    fix x assume x: "in_span (a j) 8 x"
    have "\<not> in_span (a i) 8 x" if "Suc j \<le> i" "i < n - 1" for i using far [OF x that(1)] that(2) by simp
    then show "m' x = ?m x" using m'(3) by blast
  qed
  then have link: "load64 m' (a j) = a (Suc j)" by (simp add: load64_store64_same)
  have "m' x = m x" if "\<forall>i. j \<le> i \<and> i < n - 1 \<longrightarrow> \<not> in_span (a i) 8 x" for x
  proof -
    have "m' x = ?m x" using that m'(3) by auto
    then show ?thesis using that j by (auto simp: store64_apply)
  qed
  moreover have "load64 m' (a i) = a (Suc i)" if "j \<le> i" "i < n - 1" for i
    using that link m'(2) by (cases "i = j") auto
  ultimately show ?case using eq by blast
qed

lemma fchain_links:
  assumes "\<And>i. i < n \<Longrightarrow> a i \<noteq> 0 \<and> load64 m (a i) = (if Suc i < n then a (Suc i) else 0)"
  shows "j < n \<Longrightarrow> fchain m (a j) (map a [j..<n])"
proof (induction "n - 1 - j" arbitrary: j)
  case 0
  then have "Suc j = n" by simp
  then show ?case using assms [of j] 0(2) by (simp add: upt_rec)
next
  case (Suc d)
  then have "Suc j < n" "d = n - 1 - Suc j" by simp_all
  then show ?case using Suc(1) [of "Suc j"] assms [of j] Suc(3) by (simp add: upt_rec [of j])
qed

section \<open>The partial lists\<close>

lemma node_list_upd_partial: "(node_list fl pl)(Partial c := map Lru ys) = node_list fl (pl(c := ys))"
  by (rule ext) (case_tac x, auto)

lemma free_list_nodes [simp]: "free_list (s\<lparr>mem_map := mm\<rparr>) = free_list s" "partial_list (s\<lparr>mem_map := mm\<rparr>) = partial_list s"
  by (simp_all add: free_list_def [abs_def] partial_list_def [abs_def])

lemma zone_inv_nodes:
  assumes "zone_inv K pl s fl" "family dlist h (heads K) (node_list fl pl')"
    and "\<forall>c<K. \<forall>i\<in>set (pl' c). base s + i \<notin> frames (blocks_of (base s) fl)"
  shows "zone_inv K pl' (s\<lparr>nodes := h\<rparr>) fl"
  using assms by (simp add: zone_inv_def zone_wf_def map_wf_def tags_ok_def)

lemma partial_add:
  assumes inv: "page_inv K s" and page: "in_use K s page 0" and c: "c < K"
  shows "\<exists>h. list_add (nodes s) (Lru page) (Partial c) = Some h \<and> page_inv K (s\<lparr>nodes := h\<rparr>) \<and>
    (\<forall>d<K. partial_list (s\<lparr>nodes := h\<rparr>) d = (if d = c then page # partial_list s c else partial_list s d)) \<and>
    free_blocks (s\<lparr>nodes := h\<rparr>) = free_blocks s"
proof -
  let ?fl = "free_list s" and ?pl = "partial_list s"
  have z: "zone_inv K ?pl s ?fl" using inv by (simp add: page_inv_def)
  have fr: "base s + page \<notin> frames (blocks_of (base s) ?fl)" "\<forall>c<K. page \<notin> set (?pl c)"
    using page by (auto simp: in_use_def freeable_def blk_def)
  have "Lru page \<notin> set (node_list ?fl ?pl b)" if "b \<in> heads K" for b
    using that
  proof (cases rule: heads_cases)
    case (1 k)
    have "page \<notin> set (?fl k)"
    proof
      assume "page \<in> set (?fl k)"
      then have "(k, base s + page) \<in> blocks_of (base s) ?fl" using 1(2) by (simp add: blocks_of_mem)
      then show False using fr(1) blk_frames by (fastforce simp: blk_def)
    qed
    then show ?thesis using 1(1) by auto
  next
    case (2 d)
    then show ?thesis using fr(2) by auto
  qed
  then obtain h where h: "list_add (nodes s) (Lru page) (Partial c) = Some h"
      "family dlist h (heads K) ((node_list ?fl ?pl)(Partial c := Lru page # node_list ?fl ?pl (Partial c)))"
    using lh.family_add [of "nodes s" "heads K" "node_list ?fl ?pl" "Partial c" "Lru page"] z c
    by (auto simp: zone_inv_def zone_wf_def)
  have "family dlist h (heads K) (node_list ?fl (?pl(c := page # ?pl c)))"
    using h(2) node_list_upd_partial [of ?fl ?pl c "page # ?pl c"] by simp
  then have z': "zone_inv K (?pl(c := page # ?pl c)) (s\<lparr>nodes := h\<rparr>) ?fl"
    by (rule zone_inv_nodes [OF z]) (use z fr(1) in \<open>auto simp: zone_inv_def zone_wf_def\<close>)
  show ?thesis
    by (intro exI [of _ h]) (use h(1) zone_inv_page_inv [OF z'] in \<open>auto simp: free_blocks_def\<close>)
qed

lemma partial_del:
  assumes inv: "page_inv K s" and page: "page \<in> set (partial_list s c)" and c: "c < K"
  shows "\<exists>h. list_del (nodes s) (Lru page) = Some h \<and> page_inv K (s\<lparr>nodes := h\<rparr>) \<and>
    (\<forall>d<K. partial_list (s\<lparr>nodes := h\<rparr>) d = (if d = c then remove1 page (partial_list s c) else partial_list s d)) \<and>
    free_blocks (s\<lparr>nodes := h\<rparr>) = free_blocks s"
proof -
  let ?fl = "free_list s" and ?pl = "partial_list s"
  have z: "zone_inv K ?pl s ?fl" using inv by (simp add: page_inv_def)
  obtain h where h: "list_del (nodes s) (Lru page) = Some h"
      "family dlist h (heads K) ((node_list ?fl ?pl)(Partial c := remove1 (Lru page) (node_list ?fl ?pl (Partial c))))"
    using lh.family_del [of "nodes s" "heads K" "node_list ?fl ?pl" "Partial c" "Lru page"] z c page
    by (auto simp: zone_inv_def zone_wf_def)
  have "family dlist h (heads K) (node_list ?fl (?pl(c := remove1 page (?pl c))))"
    using h(2) node_list_upd_partial [of ?fl ?pl c "remove1 page (?pl c)"] by (simp add: map_remove1_Lru)
  then have z': "zone_inv K (?pl(c := remove1 page (?pl c))) (s\<lparr>nodes := h\<rparr>) ?fl"
    by (rule zone_inv_nodes [OF z]) (use z in \<open>auto simp: zone_inv_def zone_wf_def dest: notin_set_remove1 [THEN contrapos_pp]\<close>)
  show ?thesis
    by (intro exI [of _ h]) (use h(1) zone_inv_page_inv [OF z'] in \<open>auto simp: free_blocks_def\<close>)
qed

text \<open>An update of a page descriptor that the page allocator does not notice.\<close>

lemma page_inv_upd:
  assumes inv: "page_inv K s" and "i < n_pages s" "is_buddy (f (mem_map s ! i)) = is_buddy (mem_map s ! i)"
    and "pg_order (f (mem_map s ! i)) = pg_order (mem_map s ! i) \<or> base s + i \<notin> free_frames s"
  shows "page_inv K (s\<lparr>mem_map := (mem_map s)[i := f (mem_map s ! i)]\<rparr>)"
    "free_blocks (s\<lparr>mem_map := (mem_map s)[i := f (mem_map s ! i)]\<rparr>) = free_blocks s"
proof -
  let ?s = "s\<lparr>mem_map := (mem_map s)[i := f (mem_map s ! i)]\<rparr>"
  have z: "zone_inv K (partial_list s) s (free_list s)" using inv by (simp add: page_inv_def)
  have notin: "i \<notin> set (free_list s k)" if "k < MAX_ORDER" "base s + i \<notin> free_frames s" for k
  proof
    assume "i \<in> set (free_list s k)"
    then have "(k, base s + i) \<in> free_blocks s" using that(1) by (simp add: free_blocks_def blocks_of_mem)
    then show False using that(2) blk_frames by (fastforce simp: blk_def free_frames_def)
  qed
  have "tags_ok ?s (free_list s)"
    using z assms(2-4) notin by (auto simp: zone_inv_def zone_wf_def tags_ok_def nth_list_update)
  then have "zone_inv K (partial_list s) ?s (free_list s)"
    using z by (simp add: zone_inv_def zone_wf_def map_wf_def)
  then show "page_inv K ?s" "free_blocks ?s = free_blocks s" by (simp_all add: page_inv_def free_blocks_def)
qed

end
