(* ===== verification/Slab_Ops.thy ===== *)
theory Slab_Ops
  imports Slab_Inv
begin

text \<open>
  The invariant of the object allocator and its preservation by the operations of \<^verbatim>\<open>mm/slab.c\<close>. The
  ghost \<open>fo\<close> gives the free objects of every slab in the order of their chain, and \<open>B\<close> the
  blocks \<open>(order, page)\<close> that serve large requests.
\<close>

unbundle bit_operations_syntax

section \<open>The invariant\<close>

abbreviation descr :: "heap \<Rightarrow> nat \<Rightarrow> page" where
  "descr s p \<equiv> mem_map (pa s) ! p"

definition slab_at :: "heap \<Rightarrow> (nat \<Rightarrow> u64 list) \<Rightarrow> nat \<Rightarrow> nat \<Rightarrow> bool" where
  "slab_at s fo p c \<longleftrightarrow>
     c < 8 \<and> pg_slab (descr s p) = Some c \<and> fchain (mem s) (pg_freelist (descr s p)) (fo p) \<and> distinct (fo p) \<and>
     set (fo p) \<subseteq> set (objs (pa s) p c) \<and> unat (pg_inuse (descr s p)) + length (fo p) = obj_count c \<and>
     (p \<in> set (partial_list (pa s) c) \<longleftrightarrow> fo p \<noteq> [])"

definition slab_frames :: "page_alloc \<Rightarrow> nat set" where
  "slab_frames s = {base s + p | p. is_slab s p}"

definition caches_ok :: "heap \<Rightarrow> bool" where
  "caches_ok s \<longleftrightarrow> kmalloc_caches s = map (\<lambda>c. \<lparr>c_size = push_bit c 16, c_objects = ucast (0x1000 div push_bit c 16 :: u64)\<rparr>) [0..<8]"

definition heap_inv :: "nat set \<Rightarrow> nat set \<Rightarrow> heap \<Rightarrow> (nat \<Rightarrow> u64 list) \<Rightarrow> (nat \<times> nat) set \<Rightarrow> bool" where
  "heap_inv E F s fo B \<longleftrightarrow>
     page_inv 8 (pa s) \<and> linear (pa s) \<and> caches_ok s \<and>
     (\<forall>p. is_slab (pa s) p \<longrightarrow> base (pa s) + p \<notin> free_frames (pa s) \<and> (\<exists>c. slab_at s fo p c) \<and>
        (p \<notin> E \<longrightarrow> 0 < unat (pg_inuse (descr s p)))) \<and>
     (\<forall>c<8. \<forall>p\<in>set (partial_list (pa s) c). is_slab (pa s) p \<and> pg_slab (descr s p) = Some c) \<and>
     blocks_wf (MAX_ORDER - 1) (base (pa s)) (base (pa s) + n_pages (pa s)) (held_blocks (pa s) B) \<and>
     (\<forall>(k, p)\<in>B. pg_order (descr s p) = k) \<and>
     frames (held_blocks (pa s) B) \<inter> free_frames (pa s) = {} \<and> frames (held_blocks (pa s) B) \<inter> slab_frames (pa s) = {} \<and>
     free_frames (pa s) \<union> slab_frames (pa s) \<union> frames (held_blocks (pa s) B) = F"

lemma heap_invD:
  assumes "heap_inv E F s fo B"
  shows "page_inv 8 (pa s)" "linear (pa s)" "caches_ok s"
    "is_slab (pa s) p \<Longrightarrow> base (pa s) + p \<notin> free_frames (pa s)" "is_slab (pa s) p \<Longrightarrow> \<exists>c. slab_at s fo p c"
    "is_slab (pa s) p \<Longrightarrow> p \<notin> E \<Longrightarrow> 0 < unat (pg_inuse (descr s p))"
    "c < 8 \<Longrightarrow> p \<in> set (partial_list (pa s) c) \<Longrightarrow> is_slab (pa s) p \<and> pg_slab (descr s p) = Some c"
    "blocks_wf (MAX_ORDER - 1) (base (pa s)) (base (pa s) + n_pages (pa s)) (held_blocks (pa s) B)"
    "(k, p) \<in> B \<Longrightarrow> pg_order (descr s p) = k"
    "frames (held_blocks (pa s) B) \<inter> free_frames (pa s) = {}" "frames (held_blocks (pa s) B) \<inter> slab_frames (pa s) = {}"
    "free_frames (pa s) \<union> slab_frames (pa s) \<union> frames (held_blocks (pa s) B) = F"
  using assms unfolding heap_inv_def by blast+

text \<open>What an operation on one page leaves of the invariant.\<close>

definition others :: "nat \<Rightarrow> heap \<Rightarrow> heap \<Rightarrow> bool" where
  "others page s s' \<longleftrightarrow>
     mem_map_base_pfn (pa s') = mem_map_base_pfn (pa s) \<and> n_pages (pa s') = n_pages (pa s) \<and> kmalloc_caches s' = kmalloc_caches s \<and>
     (\<forall>q<n_pages (pa s). q \<noteq> page \<longrightarrow> slab_fields (descr s' q) = slab_fields (descr s q)) \<and>
     (\<forall>c<8. \<forall>q. q \<noteq> page \<longrightarrow> (q \<in> set (partial_list (pa s') c) \<longleftrightarrow> q \<in> set (partial_list (pa s) c)))"

lemma othersD:
  assumes "others page s s'"
  shows "base (pa s') = base (pa s)" "n_pages (pa s') = n_pages (pa s)" "kmalloc_caches s' = kmalloc_caches s"
    "q \<noteq> page \<Longrightarrow> is_slab (pa s') q = is_slab (pa s) q"
    "is_slab (pa s) q \<Longrightarrow> q \<noteq> page \<Longrightarrow> pg_slab (descr s' q) = pg_slab (descr s q) \<and> pg_freelist (descr s' q) = pg_freelist (descr s q) \<and>
       pg_inuse (descr s' q) = pg_inuse (descr s q)"
    "c < 8 \<Longrightarrow> q \<noteq> page \<Longrightarrow> q \<in> set (partial_list (pa s') c) \<longleftrightarrow> q \<in> set (partial_list (pa s) c)"
    "objs (pa s') p c = objs (pa s) p c" "linear (pa s') = linear (pa s)"
  using assms
  by (auto simp: others_def is_slab_def slab_fields_def objs_def obj_def [abs_def] page_address_def page_to_phys_def page_to_pfn_def
      linear_def)

lemma heap_inv_frame:
  assumes inv: "heap_inv E F s fo B" and E: "E \<subseteq> {page}" and pi: "page_inv 8 (pa s')" and o: "others page s s'"
    and chains: "\<And>q a x. q \<noteq> page \<Longrightarrow> is_slab (pa s) q \<Longrightarrow> a \<in> set (fo q) \<Longrightarrow> in_span a 8 x \<Longrightarrow> mem s' x = mem s x"
    and free: "\<And>q. q \<noteq> page \<Longrightarrow> is_slab (pa s) q \<Longrightarrow> base (pa s) + q \<notin> free_frames (pa s')"
    and pg: "is_slab (pa s') page \<Longrightarrow> base (pa s) + page \<notin> free_frames (pa s') \<and> (\<exists>c. slab_at s' fo' page c) \<and>
        (page \<notin> E' \<longrightarrow> 0 < unat (pg_inuse (descr s' page)))"
    and pp: "\<And>c. c < 8 \<Longrightarrow> page \<in> set (partial_list (pa s') c) \<Longrightarrow> is_slab (pa s') page \<and> pg_slab (descr s' page) = Some c"
    and fo: "\<And>q. q \<noteq> page \<Longrightarrow> fo' q = fo q"
    and B': "blocks_wf (MAX_ORDER - 1) (base (pa s)) (base (pa s) + n_pages (pa s)) (held_blocks (pa s) B')"
      "\<And>k p. (k, p) \<in> B' \<Longrightarrow> pg_order (descr s' p) = k" "frames (held_blocks (pa s) B') \<inter> free_frames (pa s') = {}"
      "frames (held_blocks (pa s) B') \<inter> slab_frames (pa s') = {}"
      "free_frames (pa s') \<union> slab_frames (pa s') \<union> frames (held_blocks (pa s) B') = F"
  shows "heap_inv E' F s' fo' B'"
proof -
  note d = heap_invD [OF inv]
  note od = othersD [OF o]
  have held: "held_blocks (pa s') B' = held_blocks (pa s) B'" by (simp add: held_blocks_def od)
  have slab: "base (pa s') + p \<notin> free_frames (pa s') \<and> (\<exists>c. slab_at s' fo' p c) \<and> (p \<notin> E' \<longrightarrow> 0 < unat (pg_inuse (descr s' p)))"
    if p: "is_slab (pa s') p" for p
  proof (cases "p = page")
    case True
    then show ?thesis using pg p od(1) by simp
  next
    case False
    then have sl: "is_slab (pa s) p" using p od(4) by simp
    obtain c where c: "slab_at s fo p c" using d(5) [OF sl] by blast
    then have "fchain (mem s') (pg_freelist (descr s p)) (fo p)"
      using fchain_cong [of "mem s" _ "fo p" "mem s'"] chains [OF False sl] by (auto simp: slab_at_def)
    then have "slab_at s' fo' p c"
      using c od(5) [OF sl False] od(6) [OF _ False] od(7) fo [OF False] by (auto simp: slab_at_def)
    moreover have "0 < unat (pg_inuse (descr s' p))" using d(6) [OF sl] E False od(5) [OF sl False] by auto
    ultimately show ?thesis using free [OF False sl] od(1) by auto
  qed
  have part: "is_slab (pa s') p \<and> pg_slab (descr s' p) = Some c" if "c < 8" "p \<in> set (partial_list (pa s') c)" for c p
  proof (cases "p = page")
    case True
    then show ?thesis using pp that by simp
  next
    case False
    then have "is_slab (pa s) p \<and> pg_slab (descr s p) = Some c" using d(7) od(6) that by auto
    then show ?thesis using od(4,5) False by auto
  qed
  have "caches_ok s'" using d(3) od(3) by (simp add: caches_ok_def)
  then show ?thesis unfolding heap_inv_def held od(1,2,8)
    using pi d(2) slab part B' od(1) by auto
qed

section \<open>Live allocations\<close>

definition page_live :: "heap \<Rightarrow> (nat \<Rightarrow> u64 list) \<Rightarrow> nat \<Rightarrow> (u64 \<times> nat) set" where
  "page_live s fo p = (
     let c = the (pg_slab (descr s p)) in
     if is_slab (pa s) p then (\<lambda>a. (a, obj_size c)) ` (set (objs (pa s) p c) - set (fo p)) else {})"

definition big_live :: "page_alloc \<Rightarrow> (nat \<times> nat) set \<Rightarrow> (u64 \<times> nat) set" where
  "big_live s B = (\<lambda>(k, p). (page_address s p, 4096 * 2 ^ k)) ` B"

definition live :: "heap \<Rightarrow> (nat \<Rightarrow> u64 list) \<Rightarrow> (nat \<times> nat) set \<Rightarrow> (u64 \<times> nat) set" where
  "live s fo B = (\<Union>p. page_live s fo p) \<union> big_live (pa s) B"

lemma page_live_others:
  assumes o: "others page s s'" and fo: "\<And>q. q \<noteq> page \<Longrightarrow> fo' q = fo q"
  shows "q \<noteq> page \<Longrightarrow> page_live s' fo' q = page_live s fo q" "big_live (pa s') B = big_live (pa s) B"
  using othersD(1-5,7) [OF o] fo o
  by (auto simp: page_live_def Let_def big_live_def page_address_def page_to_phys_def page_to_pfn_def others_def)

lemma live_update:
  assumes o: "others page s s'" and fo: "\<And>q. q \<noteq> page \<Longrightarrow> fo' q = fo q"
  shows "live s' fo' B' = (\<Union>q\<in>- {page}. page_live s fo q) \<union> page_live s' fo' page \<union> big_live (pa s) B'"
proof -
  have "(\<Union>p. page_live s' fo' p) = (\<Union>q\<in>- {page}. page_live s' fo' q) \<union> page_live s' fo' page" by blast
  then show ?thesis using page_live_others [OF assms] by (simp add: live_def)
qed

lemma live_split: "live s fo B = (\<Union>q\<in>- {page}. page_live s fo q) \<union> page_live s fo page \<union> big_live (pa s) B"
  unfolding live_def by blast

lemma page_live_page:
  assumes inv: "heap_inv E F s fo B" and x: "(a, n) \<in> page_live s fo q"
  shows "is_slab (pa s) q" "virt_to_page (pa s) a = q" "\<exists>c. slab_at s fo q c \<and> n = obj_size c \<and> a \<in> set (objs (pa s) q c) - set (fo q)"
proof -
  show sl: "is_slab (pa s) q" using x by (auto simp: page_live_def Let_def split: if_splits)
  then obtain c where c: "slab_at s fo q c" using heap_invD(5) [OF inv] by blast
  then have o: "a \<in> set (objs (pa s) q c) - set (fo q)" "n = obj_size c"
    using x by (auto simp: page_live_def Let_def slab_at_def split: if_splits)
  then show "\<exists>c. slab_at s fo q c \<and> n = obj_size c \<and> a \<in> set (objs (pa s) q c) - set (fo q)" using c by blast
  show "virt_to_page (pa s) a = q"
    using obj_in_page(4) [OF heap_invD(2) [OF inv], of q c a] sl o(1) c by (simp add: is_slab_def slab_at_def)
qed

lemma big_page:
  assumes inv: "heap_inv E F s fo B" and x: "(k, p) \<in> B"
  shows "p + 2 ^ k \<le> n_pages (pa s)" "k < MAX_ORDER" "2 ^ k dvd base (pa s) + p" "\<not> is_slab (pa s) p" "virt_to_page (pa s) (page_address (pa s) p) = p"
    "blk k (base (pa s) + p) \<inter> free_frames (pa s) = {}" "blk k (base (pa s) + p) \<inter> slab_frames (pa s) = {}" "page_address (pa s) p \<noteq> 0"
proof -
  have h: "(k, base (pa s) + p) \<in> held_blocks (pa s) B" using x by (force simp: held_blocks_def)
  note w = blocks_wfD [OF heap_invD(8) [OF inv] h]
  show b: "p + 2 ^ k \<le> n_pages (pa s)" "k < MAX_ORDER" "2 ^ k dvd base (pa s) + p" using w by (auto simp: MAX_ORDER_def)
  show f: "blk k (base (pa s) + p) \<inter> free_frames (pa s) = {}" "blk k (base (pa s) + p) \<inter> slab_frames (pa s) = {}"
    using blk_frames [OF h] heap_invD(10,11) [OF inv] by blast+
  have "base (pa s) + p \<in> blk k (base (pa s) + p)" by (simp add: blk_def)
  then show "\<not> is_slab (pa s) p" using f(2) by (auto simp: slab_frames_def)
  have p: "p < n_pages (pa s)" using b(1) by (meson add_leD1 le_neq_implies_less less_add_same_cancel1 not_less zero_less_numeral zero_less_power order_less_le_trans)
  show "virt_to_page (pa s) (page_address (pa s) p) = p"
    using virt_to_page_eq [OF heap_invD(2) [OF inv] p] unat_page_address [OF heap_invD(2) [OF inv] p] by simp
  show "page_address (pa s) p \<noteq> 0"
    using unat_page_address [OF heap_invD(2) [OF inv] p] addr_bound [OF heap_invD(2) [OF inv] p] by auto
qed

text \<open>A free object of a slab is not live.\<close>

lemma free_not_live:
  assumes inv: "heap_inv E F s fo B" and sl: "is_slab (pa s) page" and c: "slab_at s fo page c" and a: "a \<in> set (fo page)"
  shows "(a, n) \<notin> live s fo B"
proof
  assume "(a, n) \<in> live s fo B"
  have v: "virt_to_page (pa s) a = page"
    using obj_in_page(4) [OF heap_invD(2) [OF inv], of page c a] sl a c by (auto simp: is_slab_def slab_at_def)
  from \<open>(a, n) \<in> live s fo B\<close> consider q where "(a, n) \<in> page_live s fo q" | "(a, n) \<in> big_live (pa s) B" by (auto simp: live_def)
  then show False
  proof cases
    case 1
    then have "q = page" using page_live_page(2) [OF inv 1] v by simp
    then show False using page_live_page(3) [OF inv 1] a by auto
  next
    case 2
    then obtain k p where "(k, p) \<in> B" "a = page_address (pa s) p" by (auto simp: big_live_def)
    then show False using big_page(4,5) [OF inv] v sl by metis
  qed
qed

section \<open>Taking an object\<close>

lemma slab_atD:
  assumes "slab_at s fo p c"
  shows "c < 8" "pg_slab (descr s p) = Some c" "fchain (mem s) (pg_freelist (descr s p)) (fo p)" "distinct (fo p)"
    "set (fo p) \<subseteq> set (objs (pa s) p c)" "unat (pg_inuse (descr s p)) + length (fo p) = obj_count c"
    "p \<in> set (partial_list (pa s) c) \<longleftrightarrow> fo p \<noteq> []"
  using assms by (simp_all add: slab_at_def)

lemma obj_count_bound: "obj_count c \<le> 256"
  using power_increasing [of "8 - c" 8 "2 :: nat"] by simp

lemma upd_slab_ok:
  "page < n_pages (pa s) \<Longrightarrow> upd_slab f page s = Some (s\<lparr>pa := (pa s)\<lparr>mem_map := (mem_map (pa s))[page := f (descr s page)]\<rparr>\<rparr>)"
  by (simp add: upd_slab_def upd_page_def)

lemma is_buddy_fields [simp]:
  "is_buddy (b\<lparr>pg_freelist := x\<rparr>) = is_buddy b" "is_buddy (b\<lparr>pg_inuse := n\<rparr>) = is_buddy b" "is_buddy (b\<lparr>pg_slab := c\<rparr>) = is_buddy b"
  "is_buddy (b\<lparr>pg_order := k\<rparr>) = is_buddy b"
  by (simp_all add: is_buddy_def)

lemma free_frames_eq: "free_blocks s' = free_blocks s \<Longrightarrow> free_frames s' = free_frames s"
  by (simp add: free_frames_def)

lemma partial_distinct: "page_inv K s \<Longrightarrow> c < K \<Longrightarrow> distinct (partial_list s c)"
  using lh.family_distinct [of "nodes s" "heads K" "node_list (free_list s) (partial_list s)" "Partial c"]
  by (auto simp: page_inv_def zone_inv_def zone_wf_def distinct_map)

lemma page_of_unique:
  "linear s \<Longrightarrow> addr s p \<le> x \<Longrightarrow> x < addr s p + 4096 \<Longrightarrow> addr s q \<le> x \<Longrightarrow> x < addr s q + 4096 \<Longrightarrow> p = q"
  using addr_mono [of s p q] addr_mono [of s q p] by (cases p q rule: linorder_cases) auto

lemma free_object_page:
  assumes inv: "heap_inv E F s fo B" and q: "is_slab (pa s) q" and a: "a \<in> set (fo q)" "in_span a 8 x"
  shows "addr (pa s) q \<le> unat x" "unat x < addr (pa s) q + 4096"
proof -
  obtain c where c: "slab_at s fo q c" using heap_invD(5) [OF inv q] by blast
  have qn: "q < n_pages (pa s)" using q by (simp add: is_slab_def)
  have o: "a \<in> set (objs (pa s) q c)" using c a(1) by (auto simp: slab_at_def)
  note io = obj_in_page [OF heap_invD(2) [OF inv] qn slab_atD(1) [OF c] o]
  have "(8 :: nat) \<le> obj_size c" by (simp add: power_add)
  then show "addr (pa s) q \<le> unat x" "unat x < addr (pa s) q + 4096"
    using io(1,2) a(2) in_span_iff [of a 8 x] addr_bound [OF heap_invD(2) [OF inv] qn] by auto
qed

text \<open>An update of one slab that leaves it a slab of its cache: the descriptor changes by \<open>f\<close>, the page may enter or leave the list of the cache.\<close>

definition slab_update :: "nat \<Rightarrow> nat \<Rightarrow> (page \<Rightarrow> page) \<Rightarrow> heap \<Rightarrow> heap \<Rightarrow> bool" where
  "slab_update page c f s s' \<longleftrightarrow>
     page_inv 8 (pa s') \<and> free_blocks (pa s') = free_blocks (pa s) \<and> mem_map (pa s') = (mem_map (pa s))[page := f (descr s page)] \<and>
     mem_map_base_pfn (pa s') = mem_map_base_pfn (pa s) \<and> kmalloc_caches s' = kmalloc_caches s \<and>
     (\<forall>e<8. \<forall>q. q \<noteq> page \<or> e \<noteq> c \<longrightarrow> (q \<in> set (partial_list (pa s') e) \<longleftrightarrow> q \<in> set (partial_list (pa s) e)))"

lemma slab_update_others:
  assumes u: "slab_update page c f s s'" and sl: "is_slab (pa s) page" and f: "\<And>b. pg_flags (f b) = pg_flags b"
  shows "others page s s'" "descr s' page = f (descr s page)" "q \<noteq> page \<Longrightarrow> descr s' q = descr s q"
    "is_slab (pa s') r = is_slab (pa s) r" "free_frames (pa s') = free_frames (pa s)" "slab_frames (pa s') = slab_frames (pa s)"
proof -
  note u = u [unfolded slab_update_def]
  show desc: "descr s' page = f (descr s page)" and rest: "q \<noteq> page \<Longrightarrow> descr s' q = descr s q" for q
    using u sl by (simp_all add: is_slab_def)
  show "others page s s'" using u by (simp add: others_def)
  show same: "is_slab (pa s') r = is_slab (pa s) r" for r
    using desc rest f u by (cases "r = page") (simp_all add: is_slab_def)
  show "free_frames (pa s') = free_frames (pa s)" using u by (intro free_frames_eq) simp
  show "slab_frames (pa s') = slab_frames (pa s)" using u same by (simp add: slab_frames_def)
qed

lemma slab_update_inv:
  assumes inv: "heap_inv E F s fo B" and E: "E \<subseteq> {page}" and sl: "is_slab (pa s) page" and c: "slab_at s fo page c"
    and u: "slab_update page c f s s'" and f: "\<And>b. pg_flags (f b) = pg_flags b \<and> pg_order (f b) = pg_order b"
    and at: "slab_at s' fo' page c" "0 < unat (pg_inuse (descr s' page))" and fo: "\<And>q. q \<noteq> page \<Longrightarrow> fo' q = fo q"
    and m: "\<And>x. mem s' x \<noteq> mem s x \<Longrightarrow> addr (pa s) page \<le> unat x \<and> unat x < addr (pa s) page + 4096"
  shows "heap_inv {} F s' fo' B"
proof -
  note d = heap_invD [OF inv]
  note o = slab_update_others [OF u sl f [THEN conjunct1]]
  show ?thesis
  proof (rule heap_inv_frame [OF inv E _ o(1)])
    show "mem s' x = mem s x" if "q \<noteq> page" "is_slab (pa s) q" "b \<in> set (fo q)" "in_span b 8 x" for q b x
      using free_object_page [OF inv that(2-4)] m [of x] page_of_unique [OF d(2), of q "unat x" page] that(1) by auto
    show "is_slab (pa s') page \<and> pg_slab (descr s' page) = Some e" if "e < 8" "page \<in> set (partial_list (pa s') e)" for e
      using that u d(7) [of e page] o(4) sl slab_atD(2) [OF at(1)] slab_atD(2) [OF c] unfolding slab_update_def by (cases "e = c") auto
    show "pg_order (descr s' p) = k" if "(k, p) \<in> B" for k p
      using d(9) [OF that] o(2,3) f by (cases "p = page") simp_all
  qed (use u d o(4-6) at sl fo in \<open>auto simp: slab_update_def\<close>)
qed

lemma take_object_update:
  assumes inv: "heap_inv E F s fo B" and sl: "is_slab (pa s) page" and c: "slab_at s fo page c" and fo: "fo page = a # as"
  shows "\<exists>s'. take_object page s = Some (s', a) \<and> mem s' = mem s \<and>
    slab_update page c (\<lambda>b. b\<lparr>pg_freelist := load64 (mem s) a, pg_inuse := pg_inuse b + 1\<rparr>) s s' \<and>
    (page \<in> set (partial_list (pa s') c) \<longleftrightarrow> as \<noteq> [])"
proof -
  note d = heap_invD [OF inv]
  note sd = slab_atD [OF c]
  let ?fp = "load64 (mem s) a"
  have page: "page < n_pages (pa s)" using sl by (simp add: is_slab_def)
  have chain: "pg_freelist (descr s page) = a" "a \<noteq> 0" "fchain (mem s) ?fp as" using sd(3) fo by auto
  have fp0: "?fp = 0 \<longleftrightarrow> as = []" using chain(3) by (cases as) auto
  let ?f = "\<lambda>b. b\<lparr>pg_freelist := ?fp, pg_inuse := pg_inuse b + 1\<rparr>"
  let ?p1 = "(pa s)\<lparr>mem_map := (mem_map (pa s))[page := ?f (descr s page)]\<rparr>"
  have p1: "page_inv 8 ?p1" "free_blocks ?p1 = free_blocks (pa s)"
    using page_inv_upd [OF d(1) page, of ?f] by simp_all
  have dist: "distinct (partial_list (pa s) c)" by (rule partial_distinct [OF d(1) sd(1)])
  show ?thesis
  proof (cases "as = []")
    case True
    have "page \<in> set (partial_list ?p1 c)" using sd(7) fo by simp
    from partial_del [OF p1(1) this sd(1)] obtain h where "list_del (nodes ?p1) (Lru page) = Some h" "page_inv 8 (?p1\<lparr>nodes := h\<rparr>)"
        "\<forall>e<8. partial_list (?p1\<lparr>nodes := h\<rparr>) e = (if e = c then remove1 page (partial_list ?p1 c) else partial_list ?p1 e)"
        "free_blocks (?p1\<lparr>nodes := h\<rparr>) = free_blocks ?p1"
      by blast
    then show ?thesis using True page chain fp0 p1 dist sd(1)
      by (intro exI [of _ "s\<lparr>pa := ?p1\<lparr>nodes := h\<rparr>\<rparr>"])
        (auto simp: take_object_def get_page_def get_freepointer_def upd_slab_ok slab_update_def)
  next
    case False
    then show ?thesis using page chain fp0 p1 sd(7) fo
      by (intro exI [of _ "s\<lparr>pa := ?p1\<rparr>"]) (simp add: take_object_def get_page_def get_freepointer_def upd_slab_ok slab_update_def)
  qed
qed

lemma take_object_spec:
  assumes inv: "heap_inv E F s fo B" and E: "E \<subseteq> {page}" and sl: "is_slab (pa s) page" and c: "slab_at s fo page c"
    and fo: "fo page = a # as"
  shows "\<exists>s'. take_object page s = Some (s', a) \<and> heap_inv {} F s' (fo(page := as)) B \<and>
    live s' (fo(page := as)) B = insert (a, obj_size c) (live s fo B) \<and> (a, obj_size c) \<notin> live s fo B \<and> mem s' = mem s"
proof -
  note sd = slab_atD [OF c]
  let ?fo = "fo(page := as)"
  from take_object_update [OF inv sl c fo] obtain s' where take: "take_object page s = Some (s', a)" "mem s' = mem s"
    and u: "slab_update page c (\<lambda>b. b\<lparr>pg_freelist := load64 (mem s) a, pg_inuse := pg_inuse b + 1\<rparr>) s s'"
    and part: "page \<in> set (partial_list (pa s') c) \<longleftrightarrow> as \<noteq> []" by blast
  note o = slab_update_others [OF u sl, simplified]
  note od = othersD [OF o(1)]
  have inuse: "unat (pg_inuse (descr s page) + 1) = unat (pg_inuse (descr s page)) + 1"
    using sd(6) fo obj_count_bound [of c] by (subst unat_add_nowrap) simp_all
  have at: "slab_at s' ?fo page c"
    using sd fo inuse od(7) part take(2) unfolding slab_at_def o(2) by auto
  have "heap_inv {} F s' ?fo B"
    by (rule slab_update_inv [OF inv E sl c u _ at]) (use inuse o(2) take(2) in simp_all)
  moreover have "live s' ?fo B = insert (a, obj_size c) (live s fo B)"
  proof -
    have "a \<in> set (objs (pa s) page c)" "a \<notin> set as" using sd(4,5) fo by auto
    then have "page_live s' ?fo page = insert (a, obj_size c) (page_live s fo page)"
      using sl o(2,4) od(7) sd(2) fo unfolding page_live_def Let_def by auto
    then show ?thesis unfolding live_update [OF o(1), of ?fo fo, simplified] live_split [of s fo B page] by auto
  qed
  moreover have "(a, obj_size c) \<notin> live s fo B" using free_not_live [OF inv sl c] fo by simp
  ultimately show ?thesis using take by blast
qed

section \<open>A new slab\<close>

lemma cache_fields:
  assumes "c < 8"
  shows "unat (push_bit c 16 :: u64) = obj_size c" "(push_bit c 16 :: u64) = of_nat (obj_size c)"
    "ucast (ucast (0x1000 div push_bit c 16 :: u64) :: u32) * push_bit c 16 = (of_nat (obj_count c * obj_size c) :: u64)"
proof -
  have "c = 0 \<or> c = 1 \<or> c = 2 \<or> c = 3 \<or> c = 4 \<or> c = 5 \<or> c = 6 \<or> c = 7" using assms by linarith
  then show "unat (push_bit c 16 :: u64) = obj_size c" "(push_bit c 16 :: u64) = of_nat (obj_size c)"
    "ucast (ucast (0x1000 div push_bit c 16 :: u64) :: u32) * push_bit c 16 = (of_nat (obj_count c * obj_size c) :: u64)"
    by (elim disjE; simp)+
qed

lemma carve_page:
  assumes l: "linear p" "page < n_pages p" "c < 8"
  shows "\<exists>m1 m2 prev. carve (of_nat (obj_size c)) (page_address p page + of_nat (obj_count c * obj_size c)) m (page_address p page)
      (page_address p page + of_nat (obj_size c)) = Some (m1, prev) \<and> set_freepointer m1 prev 0 = Some m2 \<and>
    fchain m2 (page_address p page) (objs p page c) \<and>
    (\<forall>x. unat x < addr p page \<or> addr p page + 4096 \<le> unat x \<longrightarrow> m2 x = m x)"
proof -
  let ?a = "obj p page c" and ?n = "obj_count c"
  have u: "unat (?a i) = addr p page + i * obj_size c" if "i \<le> ?n" for i using unat_obj [OF l that] .
  have suc: "?a (Suc i) = ?a i + of_nat (obj_size c)" for i by (simp add: obj_def distrib_right add_ac)
  have b: "addr p page + ?n * obj_size c < 2 ^ 64" "0 < addr p page" unfolding obj_total [OF l(3)] using addr_bound [OF l(1,2)] by simp_all
  have sz: "8 \<le> obj_size c" by (simp add: power_add)
  have n: "0 < ?n" by simp
  from carve_links [OF u suc b(2) sz b(1) n, of m] obtain m1 where
    c: "carve (of_nat (obj_size c)) (?a ?n) m (?a 0) (?a (Suc 0)) = Some (m1, ?a (?n - 1))"
    and links: "\<forall>i. 0 \<le> i \<and> i < ?n - 1 \<longrightarrow> load64 m1 (?a i) = ?a (Suc i)"
    and out: "\<forall>x. (\<forall>i. 0 \<le> i \<and> i < ?n - 1 \<longrightarrow> \<not> in_span (?a i) 8 x) \<longrightarrow> m1 x = m x"
    by blast
  let ?m2 = "store64 m1 (?a (?n - 1)) 0"
  have mem: "?a i \<in> set (objs p page c)" if "i < ?n" for i using that by (simp add: objs_def)
  have nz: "?a i \<noteq> 0" if "i < ?n" for i using obj_in_page(3) [OF l mem [OF that]] .
  have sp: "in_span (?a i) 8 x \<longleftrightarrow> unat (?a i) \<le> unat x \<and> unat x < unat (?a i) + 8" if "i < ?n" for i x
    using obj_in_page(2) [OF l mem [OF that]] sz addr_bound [OF l(1,2)] by (intro in_span_iff) simp
  have link: "load64 ?m2 (?a i) = (if Suc i < ?n then ?a (Suc i) else 0)" if "i < ?n" for i
  proof (cases "Suc i < ?n")
    case True
    have "load64 ?m2 (?a i) = load64 m1 (?a i)"
    proof (rule load64_cong)
      fix x assume x: "in_span (?a i) 8 x"
      have "?a i \<noteq> ?a (?n - 1)" using u [of i] u [of "?n - 1"] True by (auto simp del: mult_cancel2)
      then have "\<not> in_span (?a (?n - 1)) 8 x"
        using objs_apart [OF l mem [OF that] mem [of "?n - 1"]] x sp [OF that, of x] sp [of "?n - 1" x] sz n by auto
      then show "?m2 x = m1 x" by (simp add: store64_apply)
    qed
    then show ?thesis using links True by auto
  next
    case False
    then have "i = ?n - 1" using that by simp
    then show ?thesis using False by (simp add: load64_store64_same)
  qed
  have "fchain ?m2 (?a 0) (map ?a [0..<?n])" using fchain_links [of ?n ?a ?m2 0] link nz n by blast
  moreover have "?m2 x = m x" if "unat x < addr p page \<or> addr p page + 4096 \<le> unat x" for x
  proof -
    have "\<not> in_span (?a i) 8 x" if "i < ?n" for i
      using \<open>unat x < _ \<or> _\<close> sp [OF that, of x] obj_in_page(1,2) [OF l mem [OF that]] sz by auto
    then show ?thesis using out n by (simp add: store64_apply)
  qed
  moreover have "?a 0 = page_address p page" "?a ?n = page_address p page + of_nat (obj_count c * obj_size c)"
    "?a (Suc 0) = page_address p page + of_nat (obj_size c)"
    by (simp_all add: obj_def)
  ultimately show ?thesis using c nz [of "?n - 1"] n by (auto simp: objs_def set_freepointer_def)
qed

lemma slab_flags [simp]:
  "(w OR PAGE_SLAB) AND PAGE_BUDDY = w AND PAGE_BUDDY" "(w AND NOT PAGE_SLAB) AND PAGE_BUDDY = w AND PAGE_BUDDY"
  "(w OR PAGE_SLAB) AND PAGE_SLAB = PAGE_SLAB" "(w AND NOT PAGE_SLAB) AND PAGE_SLAB = 0"
  by (simp_all add: PAGE_SLAB_def PAGE_BUDDY_def bit.conj_disj_distrib2 and.assoc)

lemma PAGE_SLAB_nonzero [simp]: "PAGE_SLAB \<noteq> 0"
  by (simp add: PAGE_SLAB_def)

lemma in_use_cong:
  assumes "in_use K s page k" "base s' = base s" "n_pages s' = n_pages s" "free_blocks s' = free_blocks s"
    "\<And>c. c < K \<Longrightarrow> partial_list s' c = partial_list s c"
  shows "in_use K s' page k"
  using assms in_useD [OF assms(1)] free_frames_eq [OF assms(4)] by (intro in_use_mono [OF assms(1)]) (simp_all add: same_slabs_def)

lemma others_slab_frames:
  assumes "others page s s'"
  shows "is_slab (pa s') page \<Longrightarrow> slab_frames (pa s') = insert (base (pa s) + page) (slab_frames (pa s))"
    "\<not> is_slab (pa s') page \<Longrightarrow> slab_frames (pa s') = slab_frames (pa s) - {base (pa s) + page}"
proof -
  have b: "base (pa s') = base (pa s)" by (rule othersD(1) [OF assms])
  show "slab_frames (pa s') = insert (base (pa s) + page) (slab_frames (pa s))" if "is_slab (pa s') page"
  proof -
    have "is_slab (pa s') q \<longleftrightarrow> q = page \<or> is_slab (pa s) q" for q using othersD(4) [OF assms, of q] that by blast
    then have "slab_frames (pa s') = {base (pa s) + q |q. q = page \<or> is_slab (pa s) q}" by (simp add: slab_frames_def b)
    then show ?thesis by (auto simp: slab_frames_def)
  qed
  show "slab_frames (pa s') = slab_frames (pa s) - {base (pa s) + page}" if "\<not> is_slab (pa s') page"
  proof -
    have "is_slab (pa s') q \<longleftrightarrow> q \<noteq> page \<and> is_slab (pa s) q" for q using othersD(4) [OF assms, of q] that by blast
    then have "slab_frames (pa s') = {base (pa s) + q |q. q \<noteq> page \<and> is_slab (pa s) q}" by (simp add: slab_frames_def b)
    then show ?thesis by (auto simp: slab_frames_def)
  qed
qed

lemma held_frame: "(k, p) \<in> B \<Longrightarrow> base s + p \<in> frames (held_blocks s B)"
  using blk_frames [of k "base s + p" "held_blocks s B"] by (force simp: held_blocks_def blk_def)

text \<open>The steps of \<^verbatim>\<open>new_slab\<close>: the page leaves the free frames, its descriptor and its objects are set up, and it enters the list of the cache.\<close>

lemma new_slab_effect:
  assumes inv: "heap_inv {} F s fo B" and c: "c < 8"
  obtains (none) "new_slab c s = Some (s, None)" "free_blocks (pa s) = {}"
  | (slab) s' page where "new_slab c s = Some (s', Some page)" "page_inv 8 (pa s')" "others page s s'" "is_slab (pa s') page"
      "base (pa s) + page \<in> free_frames (pa s)" "free_frames (pa s') = free_frames (pa s) - {base (pa s) + page}"
      "pg_slab (descr s' page) = Some c" "pg_inuse (descr s' page) = 0"
      "fchain (mem s') (pg_freelist (descr s' page)) (objs (pa s) page c)"
      "\<And>e. e < 8 \<Longrightarrow> page \<in> set (partial_list (pa s') e) \<longleftrightarrow> e = c"
      "\<And>q. base (pa s) + q \<notin> free_frames (pa s) \<Longrightarrow> pg_order (descr s' q) = pg_order (descr s q)"
      "\<And>x. mem s' x \<noteq> mem s x \<Longrightarrow> addr (pa s) page \<le> unat x \<and> unat x < addr (pa s) page + 4096"
proof -
  note d = heap_invD [OF inv]
  have cache: "get_cache s c = Some \<lparr>c_size = push_bit c 16, c_objects = ucast (0x1000 div push_bit c 16 :: u64)\<rparr>"
    using d(3) c by (simp add: get_cache_def caches_ok_def)
  show thesis
  proof (rule alloc_pages_page_inv [OF d(1), of 0], goal_cases order none block)
    case order
    show ?case by (simp add: MAX_ORDER_def)
  next
    case none
    then show ?case using cache by (intro that(1)) (auto simp: new_slab_def)
  next
    case (block o1 page p)
    have bs: "mem_map_base_pfn p = mem_map_base_pfn (pa s)" "n_pages p = n_pages (pa s)" using block(11) by (simp_all add: same_outside_def)
    have fr: "base (pa s) + page \<in> free_frames (pa s)" using block(8) by (auto simp: blk_def)
    have page: "page < n_pages (pa s)" using in_useD [OF block(3)] bs(2) by simp
    let ?f = "\<lambda>b. b\<lparr>pg_slab := Some c, pg_inuse := 0, pg_flags := pg_flags b OR PAGE_SLAB\<rparr>"
    let ?p1 = "p\<lparr>mem_map := (mem_map p)[page := ?f (mem_map p ! page)]\<rparr>"
    have p1: "page_inv 8 ?p1" "free_blocks ?p1 = free_blocks p" "linear ?p1" "page < n_pages ?p1"
      using page_inv_upd [OF block(2), of page ?f] page bs d(2) by (simp_all add: linear_def is_buddy_def)
    let ?start = "page_address ?p1 page"
    obtain m1 m2 prev where m: "carve (of_nat (obj_size c)) (?start + of_nat (obj_count c * obj_size c)) (mem s) ?start
        (?start + of_nat (obj_size c)) = Some (m1, prev)" "set_freepointer m1 prev 0 = Some m2"
        "fchain m2 ?start (objs ?p1 page c)" "\<forall>x. unat x < addr ?p1 page \<or> addr ?p1 page + 4096 \<le> unat x \<longrightarrow> m2 x = mem s x"
      using carve_page [OF p1(3,4) c, of "mem s"] by blast
    let ?p2 = "?p1\<lparr>mem_map := (mem_map ?p1)[page := (mem_map ?p1 ! page)\<lparr>pg_freelist := ?start\<rparr>]\<rparr>"
    have p2: "page_inv 8 ?p2" "free_blocks ?p2 = free_blocks p"
      using page_inv_upd [OF p1(1,4), of "\<lambda>b. b\<lparr>pg_freelist := ?start\<rparr>"] p1(2) by simp_all
    have "in_use 8 ?p2 page 0" by (rule in_use_cong [OF block(3)]) (use p2 in simp_all)
    from partial_add [OF p2(1) this c] obtain h where h: "list_add (nodes ?p2) (Lru page) (Partial c) = Some h"
        "page_inv 8 (?p2\<lparr>nodes := h\<rparr>)"
        "\<forall>e<8. partial_list (?p2\<lparr>nodes := h\<rparr>) e = (if e = c then page # partial_list ?p2 c else partial_list ?p2 e)"
        "free_blocks (?p2\<lparr>nodes := h\<rparr>) = free_blocks ?p2"
      by blast
    let ?s = "s\<lparr>pa := ?p2\<lparr>nodes := h\<rparr>, mem := m2\<rparr>"
    have desc: "descr ?s page = (?f (mem_map p ! page))\<lparr>pg_freelist := ?start\<rparr>" "\<And>q. q \<noteq> page \<Longrightarrow> descr ?s q = mem_map p ! q"
      using page bs(2) by simp_all
    have part: "partial_list (pa ?s) e = (if e = c then page # partial_list (pa s) c else partial_list (pa s) e)" if "e < 8" for e
      using h(3) that block(10) c by (simp add: same_slabs_def)
    have sf: "slab_fields (mem_map p ! q) = slab_fields (descr s q)" if "q < n_pages (pa s)" for q
      using alloc_pages_keeps [OF block(1)] that bs(2) unfolding keeps_def by (metis nth_map)
    show ?case
    proof (rule that(2))
      show "new_slab c s = Some (?s, Some page)"
        using cache block(1) m(1,2) h(1) page bs(2) cache_fields [OF c] by (simp add: new_slab_def upd_slab_ok)
      show "others page s ?s" using bs desc(2) part sf by (auto simp: others_def)
      show "is_slab (pa ?s) page" using page bs(2) desc(1) by (simp add: is_slab_def)
      show "free_frames (pa ?s) = free_frames (pa s) - {base (pa s) + page}"
        using free_frames_eq [OF h(4)] free_frames_eq [OF p2(2)] block(9) by (simp add: blk_def)
      show "fchain (mem ?s) (pg_freelist (descr ?s page)) (objs (pa s) page c)"
        using m(3) desc(1) bs by (simp add: objs_def obj_def [abs_def] page_address_def page_to_phys_def page_to_pfn_def)
      show "page \<in> set (partial_list (pa ?s) e) \<longleftrightarrow> e = c" if "e < 8" for e
        using part [OF that] d(7) [OF that, of page] d(4) [of page] fr by auto
      show "pg_order (descr ?s q) = pg_order (descr s q)" if "base (pa s) + q \<notin> free_frames (pa s)" for q
        using that fr desc(2) [of q] block(11) by (cases "q = page") (simp_all add: same_outside_def)
      show "addr (pa s) page \<le> unat x \<and> unat x < addr (pa s) page + 4096" if "mem ?s x \<noteq> mem s x" for x
        using m(4) that bs by (force simp: addr_def)
    qed (use desc h(2) fr in simp_all)
  qed
qed

lemma new_slab_spec:
  assumes inv: "heap_inv {} F s fo B" and c: "c < 8"
  obtains (none) "new_slab c s = Some (s, None)" "free_blocks (pa s) = {}"
  | (slab) s' page fo' where "new_slab c s = Some (s', Some page)" "heap_inv {page} F s' fo' B" "is_slab (pa s') page"
      "slab_at s' fo' page c" "fo' page \<noteq> []" "live s' fo' B = live s fo B"
      "\<And>x. mem s' x \<noteq> mem s x \<Longrightarrow> base (pa s) + page \<in> free_frames (pa s) \<and> addr (pa s) page \<le> unat x \<and> unat x < addr (pa s) page + 4096"
proof -
  show thesis
  proof (rule new_slab_effect [OF inv c], goal_cases none slab)
    case none
    then show ?case by (rule that(1))
  next
    case (slab s' page)
    note d = heap_invD [OF inv]
    note od = othersD [OF slab(3)]
    let ?fo = "fo(page := objs (pa s) page c)"
    have page: "page < n_pages (pa s)" using slab(4) od(2) by (simp add: is_slab_def)
    have notslab: "\<not> is_slab (pa s) page" using d(4) slab(5) by blast
    have held: "base (pa s) + page \<notin> frames (held_blocks (pa s) B)" using d(10) slab(5) by blast
    have at: "slab_at s' ?fo page c"
      using c slab(7-10) distinct_objs [OF d(2) page c] od(7) by (simp add: slab_at_def objs_def)
    have inv': "heap_inv {page} F s' ?fo B"
    proof (rule heap_inv_frame [OF inv _ _ slab(3)])
      show "mem s' x = mem s x" if "q \<noteq> page" "is_slab (pa s) q" "a \<in> set (fo q)" "in_span a 8 x" for q a x
        using free_object_page [OF inv that(2-4)] slab(12) [of x] page_of_unique [OF d(2), of q "unat x" page] that(1) by auto
      show "pg_order (descr s' q) = k" if "(k, q) \<in> B" for k q
        using slab(11) [of q] held_frame [OF that, of "pa s"] d(9) [OF that] d(10) by auto
    qed (use slab d others_slab_frames(1) [OF slab(3,4)] at held in auto)
    have "page_live s' ?fo page = {}" "page_live s fo page = {}"
      using notslab slab(7) od(7) by (simp_all add: page_live_def)
    then have "live s' ?fo B = live s fo B"
      using live_update [OF slab(3), of ?fo fo B] by (simp only: live_split [of s fo B page]) simp
    then show ?case using slab(5,12) by (intro that(2) [OF slab(1) inv' slab(4) at]) (simp_all add: objs_def)
  qed
qed

end
