(* ===== verification/Slab_Spec.thy ===== *)
theory Slab_Spec
  imports Slab_Ops
begin

text \<open>
  What \<^verbatim>\<open>kmalloc\<close>, \<^verbatim>\<open>kzalloc\<close> and \<^verbatim>\<open>kfree\<close> promise: the live allocations are disjoint pieces of memory, an
  allocation adds one and a release removes one, and the bytes of the others never change.
\<close>

unbundle bit_operations_syntax

section \<open>Extents\<close>

definition extent :: "u64 \<Rightarrow> nat \<Rightarrow> u64 set" where
  "extent a n = {x. unat a \<le> unat x \<and> unat x < unat a + n}"

lemma addr_add: "linear s \<Longrightarrow> addr s (p + i) = addr s p + i * 4096"
  using addr_eq [of s p] addr_eq [of s "p + i"] by simp

lemma big_extent:
  assumes inv: "heap_inv E F s fo B" and k: "(k, p) \<in> B" and x: "x \<in> extent (page_address (pa s) p) (4096 * 2 ^ k)"
  obtains i where "i < 2 ^ k" "addr (pa s) (p + i) \<le> unat x" "unat x < addr (pa s) (p + i) + 4096" "base (pa s) + (p + i) \<in> blk k (base (pa s) + p)"
proof -
  note l = heap_invD(2) [OF inv]
  have "p < n_pages (pa s)" using big_page(1) [OF inv k] less_le_trans [of p "p + 2 ^ k"] by simp
  then have u: "unat (page_address (pa s) p) = addr (pa s) p" by (rule unat_page_address [OF l])
  let ?i = "(unat x - addr (pa s) p) div 4096"
  have "unat x - addr (pa s) p < 2 ^ k * 4096" using x u by (auto simp: extent_def)
  then have i: "?i < 2 ^ k" by (rule less_mult_imp_div_less)
  have "?i * 4096 \<le> unat x - addr (pa s) p" "unat x - addr (pa s) p < ?i * 4096 + 4096"
    using div_mult_mod_eq [of "unat x - addr (pa s) p" 4096] mod_less_divisor [of 4096 "unat x - addr (pa s) p"] by linarith+
  then have "addr (pa s) (p + ?i) \<le> unat x" "unat x < addr (pa s) (p + ?i) + 4096"
    using x u unfolding addr_add [OF l] by (auto simp: extent_def)
  then show thesis using that i by (simp add: blk_def)
qed

text \<open>Every live byte is in a page of the heap that is not free: a slab or part of a large block.\<close>

lemma live_page:
  assumes inv: "heap_inv E F s fo B" and a: "(a, n) \<in> live s fo B" and x: "x \<in> extent a n"
  obtains q where "q < n_pages (pa s)" "addr (pa s) q \<le> unat x" "unat x < addr (pa s) q + 4096" "base (pa s) + q \<notin> free_frames (pa s)"
    "base (pa s) + q \<in> F"
proof -
  from a consider q where "(a, n) \<in> page_live s fo q" | k p where "(k, p) \<in> B" "a = page_address (pa s) p" "n = 4096 * 2 ^ k"
    by (auto simp: live_def big_live_def)
  then show thesis
  proof cases
    case 1
    obtain c where c: "slab_at s fo q c" "n = obj_size c" "a \<in> set (objs (pa s) q c)" using page_live_page(3) [OF inv 1] by blast
    have q: "q < n_pages (pa s)" using page_live_page(1) [OF inv 1] by (simp add: is_slab_def)
    have "base (pa s) + q \<in> F" using heap_invD(12) [OF inv] page_live_page(1) [OF inv 1] by (auto simp: slab_frames_def)
    then show thesis using that [OF q] obj_in_page(1,2) [OF heap_invD(2) [OF inv] q slab_atD(1) [OF c(1)] c(3)] x c(2)
        heap_invD(4) [OF inv page_live_page(1) [OF inv 1]] by (auto simp: extent_def)
  next
    case 2
    obtain i where i: "i < 2 ^ k" "addr (pa s) (p + i) \<le> unat x" "unat x < addr (pa s) (p + i) + 4096" "base (pa s) + (p + i) \<in> blk k (base (pa s) + p)"
      using big_extent [OF inv 2(1), of x] x 2 by blast
    have "base (pa s) + (p + i) \<in> frames (held_blocks (pa s) B)" using 2(1) i(4) by (force simp: frames_def held_blocks_def)
    then have "base (pa s) + (p + i) \<in> F" using heap_invD(12) [OF inv] by blast
    then show thesis using that [OF _ i(2,3)] big_page(1,6) [OF inv 2(1)] i(1,4) by auto
  qed
qed

text \<open>Live allocations do not overlap.\<close>

lemma page_live_apart:
  assumes inv: "heap_inv E F s fo B" and "(a, n) \<in> page_live s fo q" "(b, m) \<in> page_live s fo q" "(a, n) \<noteq> (b, m)"
  shows "extent a n \<inter> extent b m = {}"
proof -
  obtain c where c: "slab_at s fo q c" "n = obj_size c" "a \<in> set (objs (pa s) q c)" using page_live_page(3) [OF inv assms(2)] by blast
  obtain e where e: "slab_at s fo q e" "m = obj_size e" "b \<in> set (objs (pa s) q e)" using page_live_page(3) [OF inv assms(3)] by blast
  have "c = e" using c(1) e(1) by (simp add: slab_at_def)
  moreover have "q < n_pages (pa s)" using page_live_page(1) [OF inv assms(2)] by (simp add: is_slab_def)
  ultimately show ?thesis
    using objs_apart [OF heap_invD(2) [OF inv], of q c a b] slab_atD(1) [OF c(1)] c(2,3) e(2,3) assms(4)
    by (fastforce simp: extent_def)
qed

lemma live_where:
  assumes inv: "heap_inv E F s fo B" and "(a, n) \<in> live s fo B" "x \<in> extent a n"
  shows "\<exists>q. addr (pa s) q \<le> unat x \<and> unat x < addr (pa s) q + 4096 \<and>
      ((a, n) \<in> page_live s fo q \<and> is_slab (pa s) q \<or>
       (\<exists>k p. (k, p) \<in> B \<and> a = page_address (pa s) p \<and> n = 4096 * 2 ^ k \<and> base (pa s) + q \<in> blk k (base (pa s) + p)))"
proof -
  from assms(2) consider q where "(a, n) \<in> page_live s fo q" | k p where "(k, p) \<in> B" "a = page_address (pa s) p" "n = 4096 * 2 ^ k"
    by (auto simp: live_def big_live_def)
  then show ?thesis
  proof cases
    case 1
    obtain c where c: "slab_at s fo q c" "n = obj_size c" "a \<in> set (objs (pa s) q c)" using page_live_page(3) [OF inv 1] by blast
    have q: "is_slab (pa s) q" "q < n_pages (pa s)" using page_live_page(1) [OF inv 1] by (simp_all add: is_slab_def)
    show ?thesis using obj_in_page(1,2) [OF heap_invD(2) [OF inv] q(2) slab_atD(1) [OF c(1)] c(3)] assms(3) c(2) 1 q(1)
      by (intro exI [of _ q]) (auto simp: extent_def)
  next
    case 2
    then show ?thesis using big_extent [OF inv 2(1), of x] assms(3) by metis
  qed
qed

lemma live_disjoint:
  assumes inv: "heap_inv E F s fo B" and a: "(a, n) \<in> live s fo B" and b: "(b, m) \<in> live s fo B" and ne: "(a, n) \<noteq> (b, m)"
  shows "extent a n \<inter> extent b m = {}"
proof (rule ccontr)
  assume "extent a n \<inter> extent b m \<noteq> {}"
  then obtain x where x: "x \<in> extent a n" "x \<in> extent b m" by blast
  obtain q where q: "addr (pa s) q \<le> unat x" "unat x < addr (pa s) q + 4096"
    "(a, n) \<in> page_live s fo q \<and> is_slab (pa s) q \<or>
       (\<exists>k p. (k, p) \<in> B \<and> a = page_address (pa s) p \<and> n = 4096 * 2 ^ k \<and> base (pa s) + q \<in> blk k (base (pa s) + p))"
    using live_where [OF inv a x(1)] by blast
  obtain r where r: "addr (pa s) r \<le> unat x" "unat x < addr (pa s) r + 4096"
    "(b, m) \<in> page_live s fo r \<and> is_slab (pa s) r \<or>
       (\<exists>k p. (k, p) \<in> B \<and> b = page_address (pa s) p \<and> m = 4096 * 2 ^ k \<and> base (pa s) + r \<in> blk k (base (pa s) + p))"
    using live_where [OF inv b x(2)] by blast
  have qr: "q = r" using page_of_unique [OF heap_invD(2) [OF inv] q(1,2) r(1,2)] .
  have notslab: "\<not> is_slab (pa s) q" if "(k, p) \<in> B" "base (pa s) + q \<in> blk k (base (pa s) + p)" for k p
    using big_page(7) [OF inv that(1)] that(2) by (auto simp: slab_frames_def)
  from q(3) r(3) qr consider "(a, n) \<in> page_live s fo q" "(b, m) \<in> page_live s fo q"
    | k p k' p' where "(k, p) \<in> B" "a = page_address (pa s) p" "n = 4096 * 2 ^ k" "base (pa s) + q \<in> blk k (base (pa s) + p)"
      "(k', p') \<in> B" "b = page_address (pa s) p'" "m = 4096 * 2 ^ k'" "base (pa s) + q \<in> blk k' (base (pa s) + p')"
    using notslab by metis
  then show False
  proof cases
    case 1
    then show False using page_live_apart [OF inv 1 ne] x by blast
  next
    case 2
    have h: "(k, base (pa s) + p) \<in> held_blocks (pa s) B" "(k', base (pa s) + p') \<in> held_blocks (pa s) B"
      using 2(1,5) by (force simp: held_blocks_def)+
    from blocks_wf_apart [OF heap_invD(8) [OF inv] h] 2(4,8) have "k = k'" "p = p'" by auto
    then show False using ne 2 by simp
  qed
qed

section \<open>Allocation\<close>

text \<open>No byte of a live allocation changes.\<close>

definition keeps_bytes :: "(u64 \<times> nat) set \<Rightarrow> heap \<Rightarrow> heap \<Rightarrow> bool" where
  "keeps_bytes L s s' \<longleftrightarrow> (\<forall>(a, n)\<in>L. \<forall>x\<in>extent a n. mem s' x = mem s x)"

lemma keeps_bytes_same: "mem s' = mem s \<Longrightarrow> keeps_bytes L s s'"
  by (simp add: keeps_bytes_def)

lemma partial_head:
  assumes "page_inv 8 s" "c < 8"
  shows "list_empty (nodes s) (Partial c) \<longleftrightarrow> partial_list s c = []"
    "partial_list s c = page # ps \<Longrightarrow> list_first_entry (nodes s) (Partial c) = Some (Lru page)"
proof -
  have "family dlist (nodes s) (heads 8) (node_list (free_list s) (partial_list s))"
    using assms by (simp add: page_inv_def zone_inv_def zone_wf_def)
  moreover have "Partial c \<in> heads 8" using assms(2) by simp
  ultimately have "dlist (nodes s) (Partial c) (node_list (free_list s) (partial_list s) (Partial c))" unfolding family_def by blast
  then have "dlist (nodes s) (Partial c) (map Lru (partial_list s c))" by simp
  then show "list_empty (nodes s) (Partial c) \<longleftrightarrow> partial_list s c = []"
    "partial_list s c = page # ps \<Longrightarrow> list_first_entry (nodes s) (Partial c) = Some (Lru page)"
    by (auto simp: dlist_empty_iff dlist_first)
qed

lemma slab_alloc_spec:
  assumes inv: "heap_inv {} F s fo B" and c: "c < 8"
  obtains (none) "slab_alloc c s = Some (s, 0)" "free_blocks (pa s) = {}"
  | (object) s' a fo' where "slab_alloc c s = Some (s', a)" "a \<noteq> 0" "heap_inv {} F s' fo' B"
      "live s' fo' B = insert (a, obj_size c) (live s fo B)" "(a, obj_size c) \<notin> live s fo B" "keeps_bytes (live s fo B) s s'"
proof (cases "partial_list (pa s) c")
  case Nil
  then have empty: "list_empty (nodes (pa s)) (Partial c)" using partial_head(1) [OF heap_invD(1) [OF inv] c] by simp
  show thesis
  proof (rule new_slab_spec [OF inv c], goal_cases none slab)
    case none
    then show ?case using empty by (intro that(1)) (simp_all add: slab_alloc_def)
  next
    case (slab s1 page fo1)
    obtain a as where a: "fo1 page = a # as" using slab(5) by (cases "fo1 page") auto
    from take_object_spec [OF slab(2) subset_refl slab(3,4) a] obtain s' where t:
      "take_object page s1 = Some (s', a)" "heap_inv {} F s' (fo1(page := as)) B"
      "live s' (fo1(page := as)) B = insert (a, obj_size c) (live s1 fo1 B)" "(a, obj_size c) \<notin> live s1 fo1 B" "mem s' = mem s1"
      by blast
    have "keeps_bytes (live s fo B) s s'" unfolding keeps_bytes_def
    proof (clarify, rule ccontr)
      fix b n x assume b: "(b, n) \<in> live s fo B" "x \<in> extent b n" and ne: "mem s' x \<noteq> mem s x"
      obtain q where q: "addr (pa s) q \<le> unat x" "unat x < addr (pa s) q + 4096" "base (pa s) + q \<notin> free_frames (pa s)"
        using live_page [OF inv b] by blast
      then show False using slab(7) [of x] ne t(5) page_of_unique [OF heap_invD(2) [OF inv] q(1,2), of page] by auto
    qed
    moreover have "a \<noteq> 0" using slab_atD(3) [OF slab(4)] a by simp
    ultimately show ?case using empty slab(1,6) t by (intro that(2) [of s' a]) (simp_all add: slab_alloc_def)
  qed
next
  case (Cons page ps)
  have pl: "page \<in> set (partial_list (pa s) c)" using Cons by simp
  note sl = heap_invD(7) [OF inv c pl]
  then obtain e where "slab_at s fo page e" using heap_invD(5) [OF inv] by blast
  moreover from this sl have "e = c" by (simp add: slab_at_def)
  ultimately have at: "slab_at s fo page c" by simp
  then obtain a as where a: "fo page = a # as" using pl slab_atD(7) by (cases "fo page") auto
  from take_object_spec [OF inv _ _ at a] sl obtain s' where t:
    "take_object page s = Some (s', a)" "heap_inv {} F s' (fo(page := as)) B"
    "live s' (fo(page := as)) B = insert (a, obj_size c) (live s fo B)" "(a, obj_size c) \<notin> live s fo B" "mem s' = mem s"
    by blast
  have "a \<noteq> 0" using slab_atD(3) [OF at] a by simp
  then show thesis using t partial_head [OF heap_invD(1) [OF inv] c] Cons
    by (intro that(2) [of s' a]) (simp_all add: slab_alloc_def keeps_bytes_same)
qed

end
