(* ===== verification/Slab_Free.thy ===== *)
theory Slab_Free
  imports Slab_Spec
begin

text \<open>
  Releasing an object: \<^verbatim>\<open>slab_free\<close> puts it at the head of the chain of its slab, lists a slab that was
  full again, and gives a slab without live objects back to the page allocator.
\<close>

unbundle bit_operations_syntax

lemma in_use_slab:
  assumes "page < n_pages s" "base s + page \<notin> free_frames s" "\<And>c. c < K \<Longrightarrow> page \<notin> set (partial_list s c)"
  shows "in_use K s page 0"
  using assms by (auto simp: in_use_def freeable_def blk_def free_frames_def free_blocks_def MAX_ORDER_def)

text \<open>The object being released, and what writing its free pointer changes.\<close>

lemma object_chain:
  assumes inv: "heap_inv E F s fo B" and sl: "is_slab (pa s) page" and c: "slab_at s fo page c"
    and a: "a \<in> set (objs (pa s) page c) - set (fo page)"
  defines "m \<equiv> store64 (mem s) a (pg_freelist (descr s page))"
  shows "a \<noteq> 0" "set_freepointer (mem s) a (pg_freelist (descr s page)) = Some m" "fchain m a (a # fo page)"
    "\<And>x. m x \<noteq> mem s x \<Longrightarrow> x \<in> extent a (obj_size c) \<and> addr (pa s) page \<le> unat x \<and> unat x < addr (pa s) page + 4096"
    "(a, obj_size c) \<in> live s fo B"
proof -
  note l = heap_invD(2) [OF inv]
  have pn: "page < n_pages (pa s)" using sl by (simp add: is_slab_def)
  note sd = slab_atD [OF c]
  have o: "a \<in> set (objs (pa s) page c)" using a by simp
  note io = obj_in_page [OF l pn sd(1)]
  have sz: "(8 :: nat) \<le> obj_size c" by (simp add: power_add)
  have top: "unat b + 8 \<le> 2 ^ 64" if "b \<in> set (objs (pa s) page c)" for b
    using io(2) [OF that] sz addr_bound [OF l pn] by simp
  show nz: "a \<noteq> 0" by (rule io(3) [OF o])
  then show "set_freepointer (mem s) a (pg_freelist (descr s page)) = Some m" by (simp add: set_freepointer_def m_def)
  have "fchain m (pg_freelist (descr s page)) (fo page)" unfolding m_def
  proof (rule fchain_store [OF sd(3) top [OF o]])
    fix b assume b: "b \<in> set (fo page)"
    then have bo: "b \<in> set (objs (pa s) page c)" "b \<noteq> a" using sd(5) a by auto
    then show "unat b + 8 \<le> 2 ^ 64 \<and> (unat b + 8 \<le> unat a \<or> unat a + 8 \<le> unat b)"
      using objs_apart [OF l pn sd(1) bo(1) o] top sz by fastforce
  qed
  then show "fchain m a (a # fo page)" using nz by (simp add: m_def load64_store64_same)
  show "x \<in> extent a (obj_size c) \<and> addr (pa s) page \<le> unat x \<and> unat x < addr (pa s) page + 4096" if "m x \<noteq> mem s x" for x
  proof -
    have "in_span a 8 x" using that by (auto simp: m_def store64_apply split: if_splits)
    then show ?thesis using in_span_iff [OF top [OF o], of x] io(1,2) [OF o] sz by (auto simp: extent_def)
  qed
  have "(a, obj_size c) \<in> page_live s fo page" using a sl sd(2) by (simp add: page_live_def)
  then show "(a, obj_size c) \<in> live s fo B" by (auto simp: live_def)
qed

lemma keeps_bytes_object:
  assumes inv: "heap_inv E F s fo B" and a: "(a, n) \<in> live s fo B" and m: "\<And>x. m x \<noteq> mem s x \<Longrightarrow> x \<in> extent a n"
    and s': "mem s' = m"
  shows "keeps_bytes (live s fo B - {(a, n)}) s s'"
  unfolding keeps_bytes_def
proof (clarify, rule ccontr)
  fix b k x assume b: "(b, k) \<in> live s fo B" "x \<in> extent b k" and ne: "mem s' x \<noteq> mem s x" "\<not> (b = a \<and> k = n)"
  then have "x \<in> extent a n" using m s' by simp
  then show False using live_disjoint [OF inv b(1) a] b(2) ne(2) by auto
qed

lemma inuse_pred:
  assumes "0 < unat (n :: u32)"
  shows "unat (n - 1) = unat n - 1" "n - 1 = 0 \<longleftrightarrow> unat n = 1"
proof -
  show u: "unat (n - 1) = unat n - 1" using assms by (subst unat_sub_le) (simp_all add: word_le_nat_alt)
  have "n - 1 = 0 \<longleftrightarrow> unat (n - 1) = 0" by (simp add: unat_eq_0)
  then show "n - 1 = 0 \<longleftrightarrow> unat n = 1" using u assms by auto
qed

lemma live_remove:
  assumes inv: "heap_inv E F s fo B" and sl: "is_slab (pa s) page" and c: "slab_at s fo page c"
    and a: "a \<in> set (objs (pa s) page c)" and o: "others page s s'" and fo: "\<And>q. q \<noteq> page \<Longrightarrow> fo' q = fo q"
    and pl: "page_live s' fo' page = page_live s fo page - {(a, obj_size c)}"
  shows "live s' fo' B = live s fo B - {(a, obj_size c)}"
proof -
  have v: "virt_to_page (pa s) a = page"
    using obj_in_page(4) [OF heap_invD(2) [OF inv] _ slab_atD(1) [OF c] a] sl by (simp add: is_slab_def)
  have "(a, obj_size c) \<notin> page_live s fo q" if "q \<noteq> page" for q
    using page_live_page(2) [OF inv, of a _ q] v that by auto
  moreover have "(a, obj_size c) \<notin> big_live (pa s) B"
    using big_page(4,5) [OF inv] v sl by (auto simp: big_live_def)
  moreover have "live s' fo' B = (\<Union>q\<in>- {page}. page_live s fo q) \<union> page_live s' fo' page \<union> big_live (pa s) B"
    by (rule live_update [OF o fo])
  ultimately show ?thesis unfolding live_split [of s fo B page] pl by auto
qed

text \<open>The slab keeps other live objects.\<close>

lemma slab_free_update:
  assumes inv: "heap_inv {} F s fo B" and sl: "is_slab (pa s) page" and c: "slab_at s fo page c"
    and a: "a \<in> set (objs (pa s) page c) - set (fo page)" and use: "unat (pg_inuse (descr s page)) \<noteq> 1"
  shows "\<exists>s'. slab_free page a s = Some s' \<and> mem s' = store64 (mem s) a (pg_freelist (descr s page)) \<and>
    slab_update page c (\<lambda>b. b\<lparr>pg_freelist := a, pg_inuse := pg_inuse b - 1\<rparr>) s s' \<and> page \<in> set (partial_list (pa s') c)"
proof -
  note d = heap_invD [OF inv]
  note sd = slab_atD [OF c]
  note oc = object_chain [OF inv sl c a]
  let ?b = "descr s page" and ?m = "store64 (mem s) a (pg_freelist (descr s page))"
  have page: "page < n_pages (pa s)" using sl by (simp add: is_slab_def)
  have prior: "pg_freelist ?b = 0 \<longleftrightarrow> fo page = []" using sd(3) by (cases "fo page") auto
  note pred = inuse_pred [OF d(6) [OF sl, simplified]]
  have pred0: "pg_inuse ?b \<noteq> 1" "Suc 0 < unat (pg_inuse ?b)" using use d(6) [OF sl] by auto
  let ?f = "\<lambda>b. b\<lparr>pg_freelist := a, pg_inuse := pg_inuse b - 1\<rparr>"
  let ?p1 = "(pa s)\<lparr>mem_map := (mem_map (pa s))[page := ?f ?b]\<rparr>"
  have p1: "page_inv 8 ?p1" "free_blocks ?p1 = free_blocks (pa s)"
    using page_inv_upd [OF d(1) page, of ?f] by simp_all
  show ?thesis
  proof (cases "fo page = []")
    case True
    have "page \<notin> set (partial_list (pa s) e)" if "e < 8" for e using d(7) [OF that, of page] sd(2,7) True by auto
    then have "in_use 8 ?p1 page 0"
      by (intro in_use_slab) (use page d(4) [OF sl] free_frames_eq [OF p1(2)] in simp_all)
    from partial_add [OF p1(1) this sd(1)] obtain h where "list_add (nodes ?p1) (Lru page) (Partial c) = Some h"
        "page_inv 8 (?p1\<lparr>nodes := h\<rparr>)"
        "\<forall>e<8. partial_list (?p1\<lparr>nodes := h\<rparr>) e = (if e = c then page # partial_list ?p1 c else partial_list ?p1 e)"
        "free_blocks (?p1\<lparr>nodes := h\<rparr>) = free_blocks ?p1"
      by blast
    then show ?thesis using True page oc(2) pred pred0 use prior p1 sd(1,2)
      by (intro exI [of _ "s\<lparr>pa := ?p1\<lparr>nodes := h\<rparr>, mem := ?m\<rparr>"]) (auto simp: slab_free_def get_page_def upd_slab_ok slab_update_def)
  next
    case False
    then show ?thesis using page oc(2) pred pred0 use prior p1 sd(7)
      by (intro exI [of _ "s\<lparr>pa := ?p1, mem := ?m\<rparr>"]) (simp add: slab_free_def get_page_def upd_slab_ok slab_update_def)
  qed
qed

lemma slab_free_kept:
  assumes inv: "heap_inv {} F s fo B" and sl: "is_slab (pa s) page" and c: "slab_at s fo page c"
    and a: "a \<in> set (objs (pa s) page c) - set (fo page)" and use: "unat (pg_inuse (descr s page)) \<noteq> 1"
  shows "\<exists>s'. slab_free page a s = Some s' \<and> heap_inv {} F s' (fo(page := a # fo page)) B \<and>
    live s' (fo(page := a # fo page)) B = live s fo B - {(a, obj_size c)} \<and> keeps_bytes (live s fo B - {(a, obj_size c)}) s s'"
proof -
  note sd = slab_atD [OF c]
  note oc = object_chain [OF inv sl c a]
  let ?fo = "fo(page := a # fo page)"
  from slab_free_update [OF assms] obtain s' where free: "slab_free page a s = Some s'" "mem s' = store64 (mem s) a (pg_freelist (descr s page))"
    and u: "slab_update page c (\<lambda>b. b\<lparr>pg_freelist := a, pg_inuse := pg_inuse b - 1\<rparr>) s s'"
    and part: "page \<in> set (partial_list (pa s') c)" by blast
  note o = slab_update_others [OF u sl, simplified]
  note pred = inuse_pred [OF heap_invD(6) [OF inv sl, simplified]]
  have pos: "Suc 0 < unat (pg_inuse (descr s page))" using use heap_invD(6) [OF inv sl] by auto
  have at: "slab_at s' ?fo page c"
    using sd oc(3) a pred pos othersD(7) [OF o(1)] part free(2) unfolding slab_at_def o(2) by auto
  have "heap_inv {} F s' ?fo B"
    by (rule slab_update_inv [OF inv _ sl c u _ at]) (use pred pos o(2) oc(4) free(2) in auto)
  moreover have "live s' ?fo B = live s fo B - {(a, obj_size c)}"
  proof (rule live_remove [OF inv sl c _ o(1)])
    show "page_live s' ?fo page = page_live s fo page - {(a, obj_size c)}"
      using sl o(2,4) othersD(7) [OF o(1)] sd(2) a unfolding page_live_def Let_def by auto
  qed (use a in simp_all)
  moreover have "keeps_bytes (live s fo B - {(a, obj_size c)}) s s'"
    by (rule keeps_bytes_object [OF inv oc(5) _ free(2)]) (use oc(4) in auto)
  ultimately show ?thesis using free by blast
qed

text \<open>The object was the last live one: the page goes back to the page allocator.\<close>

lemma last_object:
  assumes c: "slab_at s fo page c" and l: "linear (pa s)" "page < n_pages (pa s)"
    and a: "a \<in> set (objs (pa s) page c) - set (fo page)" and use: "unat (pg_inuse (descr s page)) = 1"
  shows "set (objs (pa s) page c) - set (fo page) = {a}"
proof -
  note sd = slab_atD [OF c]
  have "card (set (objs (pa s) page c) - set (fo page)) = length (objs (pa s) page c) - length (fo page)"
    using sd(4,5) distinct_objs [OF l sd(1)] by (simp add: card_Diff_subset distinct_card)
  also have "\<dots> = 1" using sd(6) use by (simp add: objs_def)
  finally obtain b where "set (objs (pa s) page c) - set (fo page) = {b}" by (auto simp: card_1_singleton_iff)
  then show ?thesis using a by auto
qed

lemma unlink_slab:
  assumes inv: "heap_inv {} F s fo B" and c: "slab_at s fo page c" and page: "page < n_pages (pa s)"
    and f: "\<And>b. pg_flags (f b) = pg_flags b \<and> pg_order (f b) = pg_order b"
  defines "p1 \<equiv> (pa s)\<lparr>mem_map := (mem_map (pa s))[page := f (descr s page)]\<rparr>"
  shows "\<exists>h. (if fo page = [] then h = nodes p1 else list_del (nodes p1) (Lru page) = Some h) \<and>
      page_inv 8 (p1\<lparr>nodes := h\<rparr>) \<and> free_blocks (p1\<lparr>nodes := h\<rparr>) = free_blocks (pa s) \<and>
      (\<forall>e<8. set (partial_list (p1\<lparr>nodes := h\<rparr>) e) = set (partial_list (pa s) e) - {page})"
proof -
  note d = heap_invD [OF inv]
  note sd = slab_atD [OF c]
  have p1: "page_inv 8 p1" "free_blocks p1 = free_blocks (pa s)"
    using page_inv_upd [OF d(1) page, of f] f by (simp_all add: p1_def is_buddy_def)
  have pl: "partial_list p1 e = partial_list (pa s) e" for e by (simp add: p1_def)
  have only: "page \<notin> set (partial_list (pa s) e)" if "e < 8" "e \<noteq> c \<or> fo page = []" for e
    using d(7) [OF that(1), of page] sd(2,7) that(2) by auto
  show ?thesis
  proof (cases "fo page = []")
    case True
    then show ?thesis using p1 only by (intro exI [of _ "nodes p1"]) (auto simp: pl)
  next
    case False
    have "page \<in> set (partial_list p1 c)" using sd(7) False pl by simp
    from partial_del [OF p1(1) this sd(1)] obtain h where "list_del (nodes p1) (Lru page) = Some h" "page_inv 8 (p1\<lparr>nodes := h\<rparr>)"
        "\<forall>e<8. partial_list (p1\<lparr>nodes := h\<rparr>) e = (if e = c then remove1 page (partial_list p1 c) else partial_list p1 e)"
        "free_blocks (p1\<lparr>nodes := h\<rparr>) = free_blocks p1"
      by blast
    then show ?thesis using False p1 partial_distinct [OF d(1)] only sd(1) by (intro exI [of _ h]) (auto simp: pl)
  qed
qed

lemma slab_free_release:
  assumes inv: "heap_inv {} F s fo B" and sl: "is_slab (pa s) page" and c: "slab_at s fo page c"
    and a: "a \<in> set (objs (pa s) page c) - set (fo page)" and use: "unat (pg_inuse (descr s page)) = 1"
  shows "\<exists>s'. slab_free page a s = Some s' \<and> mem s' = store64 (mem s) a (pg_freelist (descr s page)) \<and> page_inv 8 (pa s') \<and>
    others page s s' \<and> \<not> is_slab (pa s') page \<and> free_frames (pa s') = insert (base (pa s) + page) (free_frames (pa s)) \<and>
    (\<forall>e<8. page \<notin> set (partial_list (pa s') e)) \<and>
    (\<forall>q. q \<noteq> page \<and> base (pa s) + q \<notin> free_frames (pa s) \<longrightarrow> pg_order (descr s' q) = pg_order (descr s q))"
proof -
  note d = heap_invD [OF inv]
  note oc = object_chain [OF inv sl c a]
  let ?b = "descr s page" and ?m = "store64 (mem s) a (pg_freelist (descr s page))"
  have page: "page < n_pages (pa s)" using sl by (simp add: is_slab_def)
  have prior: "pg_freelist ?b = 0 \<longleftrightarrow> fo page = []" using slab_atD(3) [OF c] by (cases "fo page") auto
  have one: "pg_inuse ?b = 1" using use by (metis unat_1 word_unat_eq_iff)
  let ?f = "\<lambda>b. b\<lparr>pg_freelist := a, pg_inuse := pg_inuse b - 1\<rparr>" and ?g = "\<lambda>b. b\<lparr>pg_flags := pg_flags b AND NOT PAGE_SLAB\<rparr>"
  let ?p1 = "(pa s)\<lparr>mem_map := (mem_map (pa s))[page := ?f ?b]\<rparr>"
  have "pg_flags (?f b) = pg_flags b \<and> pg_order (?f b) = pg_order b" for b by simp
  from unlink_slab [of F s fo B page c ?f, OF inv c page this] obtain h
    where unlink: "if fo page = [] then h = nodes ?p1 else list_del (nodes ?p1) (Lru page) = Some h"
      and p2: "page_inv 8 (?p1\<lparr>nodes := h\<rparr>)" "free_blocks (?p1\<lparr>nodes := h\<rparr>) = free_blocks (pa s)"
      "\<And>e. e < 8 \<Longrightarrow> set (partial_list (?p1\<lparr>nodes := h\<rparr>) e) = set (partial_list (pa s) e) - {page}"
    by blast
  define p2 where "p2 = ?p1\<lparr>nodes := h\<rparr>"
  note p2 = p2 [folded p2_def]
  have eq2: "mem_map p2 = mem_map ?p1" "mem_map_base_pfn p2 = mem_map_base_pfn (pa s)" by (simp_all add: p2_def)
  let ?p3 = "p2\<lparr>mem_map := (mem_map p2)[page := ?g (mem_map p2 ! page)]\<rparr>"
  have n2: "page < n_pages p2" using page eq2(1) by simp
  have p3: "page_inv 8 ?p3" "free_blocks ?p3 = free_blocks (pa s)"
    using page_inv_upd [OF p2(1) n2, of ?g] p2(2) by (simp_all add: is_buddy_def)
  have ff: "free_frames ?p3 = free_frames (pa s)" by (rule free_frames_eq [OF p3(2)])
  have "in_use 8 ?p3 page 0" by (rule in_use_slab) (use page p2(3) eq2 d(4) [OF sl] ff in simp_all)
  then obtain p4 where p4: "free_pages ?p3 page 0 = Some p4" "page_inv 8 p4"
    "free_frames p4 = free_frames ?p3 \<union> blk 0 (base ?p3 + page)" "same_slabs 8 ?p3 p4" "same_outside (free_frames p4) ?p3 p4"
    by (rule free_pages_page_inv [OF p3(1)])
  let ?s = "s\<lparr>pa := p4, mem := ?m\<rparr>"
  have bs: "mem_map_base_pfn p4 = mem_map_base_pfn (pa s)" "n_pages p4 = n_pages (pa s)" using p4(5) eq2 by (simp_all add: same_outside_def)
  have sf: "slab_fields (mem_map p4 ! q) = slab_fields (descr s q)" if "q < n_pages (pa s)" "q \<noteq> page" for q
    using arg_cong [OF free_pages_keeps [OF p4(1), unfolded keeps_def], of "\<lambda>l. l ! q"] that bs(2) eq2(1) by simp
  have ff': "free_frames p4 = insert (base (pa s) + page) (free_frames (pa s))" using p4(3) ff eq2(2) by (auto simp: blk_def)
  have "slab_free page a s = Some ?s"
    using page n2 oc(2) one prior unlink p4(1)
    by (cases "fo page = []") (auto simp: slab_free_def get_page_def upd_slab_ok p2_def)
  moreover have "others page s ?s" using bs sf p2(3) p4(4) by (auto simp: others_def same_slabs_def)
  moreover have "\<not> is_slab p4 page" using keepsD [OF free_pages_keeps [OF p4(1)]] by (simp add: is_slab_def eq2(1))
  moreover have "page \<notin> set (partial_list p4 e)" if "e < 8" for e using that p2(3) p4(4) by (simp add: same_slabs_def)
  moreover have "pg_order (mem_map p4 ! q) = pg_order (descr s q)" if "q \<noteq> page" "base (pa s) + q \<notin> free_frames (pa s)" for q
    using that p4(5) ff' eq2 by (simp add: same_outside_def)
  ultimately show ?thesis using p4(2) ff' by (intro exI [of _ ?s]) simp
qed

lemma slab_free_last:
  assumes inv: "heap_inv {} F s fo B" and sl: "is_slab (pa s) page" and c: "slab_at s fo page c"
    and a: "a \<in> set (objs (pa s) page c) - set (fo page)" and use: "unat (pg_inuse (descr s page)) = 1"
  shows "\<exists>s'. slab_free page a s = Some s' \<and> heap_inv {} F s' fo B \<and>
    live s' fo B = live s fo B - {(a, obj_size c)} \<and> keeps_bytes (live s fo B - {(a, obj_size c)}) s s'"
proof -
  note d = heap_invD [OF inv]
  note oc = object_chain [OF inv sl c a]
  have page: "page < n_pages (pa s)" using sl by (simp add: is_slab_def)
  from slab_free_release [OF assms] obtain s' where free: "slab_free page a s = Some s'"
      and m: "mem s' = store64 (mem s) a (pg_freelist (descr s page))" and pi: "page_inv 8 (pa s')" and o: "others page s s'"
      and gone: "\<not> is_slab (pa s') page" "\<forall>e<8. page \<notin> set (partial_list (pa s') e)"
      and ff: "free_frames (pa s') = insert (base (pa s) + page) (free_frames (pa s))"
      and ord: "\<forall>q. q \<noteq> page \<and> base (pa s) + q \<notin> free_frames (pa s) \<longrightarrow> pg_order (descr s' q) = pg_order (descr s q)"
    by (elim exE conjE)
  have own: "base (pa s) + page \<in> slab_frames (pa s)" using sl by (auto simp: slab_frames_def)
  have "heap_inv {} F s' fo B"
  proof (rule heap_inv_frame [OF inv _ pi o])
    show "mem s' x = mem s x" if "q \<noteq> page" "is_slab (pa s) q" "b \<in> set (fo q)" "in_span b 8 x" for q b x
      using free_object_page [OF inv that(2-4)] oc(4) [of x] page_of_unique [OF d(2), of q "unat x" page] that(1) m by auto
    show "pg_order (descr s' p) = k" if "(k, p) \<in> B" for k p
    proof -
      have "p \<noteq> page" "base (pa s) + p \<notin> free_frames (pa s)" using big_page(4) [OF inv that] sl held_frame [OF that, of "pa s"] d(10) by auto
      then show ?thesis using ord d(9) [OF that] by simp
    qed
    show "base (pa s) + q \<notin> free_frames (pa s')" if "q \<noteq> page" "is_slab (pa s) q" for q using ff d(4) [OF that(2)] that(1) by simp
  qed (use d(8,10-12) ff gone own others_slab_frames(2) [OF o gone(1)] in auto)
  moreover have "page_live s' fo page = page_live s fo page - {(a, obj_size c)}"
    using gone(1) sl slab_atD(2) [OF c] last_object [OF c d(2) page a use] by (simp add: page_live_def)
  then have "live s' fo B = live s fo B - {(a, obj_size c)}" using a by (intro live_remove [OF inv sl c _ o]) simp_all
  moreover have "keeps_bytes (live s fo B - {(a, obj_size c)}) s s'"
    by (rule keeps_bytes_object [OF inv oc(5) _ m]) (use oc(4) in auto)
  ultimately show ?thesis using free by blast
qed

end
