(* ===== verification/Slab_Heap.thy ===== *)
theory Slab_Heap
  imports Slab_Free
begin

text \<open>
  \<^verbatim>\<open>kmalloc\<close> and \<^verbatim>\<open>kfree\<close> as operations on the set of live allocations: how a request is mapped to a size
  class or to an order, large blocks, and the two operations as a whole.
\<close>

unbundle bit_operations_syntax

section \<open>Size classes and orders\<close>

lemma unat_size_class: "index < 8 \<Longrightarrow> unat (push_bit index KMALLOC_MIN_SIZE) = obj_size index"
  using cache_fields(1) [of index] by (simp add: KMALLOC_MIN_SIZE_def KMALLOC_SHIFT_LOW_def)

lemma kmalloc_index_loop_spec:
  assumes "unat sz \<le> 2048" "index < 8" "\<And>j. j < index \<Longrightarrow> obj_size j < unat sz"
  shows "\<exists>c<8. kmalloc_index_loop sz index = Some c \<and> unat sz \<le> obj_size c \<and> (\<forall>j<c. obj_size j < unat sz)"
  using assms
proof (induction "8 - index" arbitrary: index rule: less_induct)
  case less
  note u = unat_size_class [OF less.prems(2)]
  show ?case
  proof (cases "obj_size index < unat sz")
    case True
    have "index \<noteq> 7" using True less.prems(1) by auto
    then have i: "Suc index < 8" using less.prems(2) by simp
    have "kmalloc_index_loop sz index = kmalloc_index_loop sz (Suc index)"
      using True u less.prems(2) by (subst kmalloc_index_loop.simps) (simp add: word_less_nat_alt)
    moreover have "obj_size j < unat sz" if "j < Suc index" for j using that True less.prems(3) by (cases "j = index") auto
    ultimately show ?thesis using less.hyps [of "Suc index"] i less.prems(1,2) by simp
  next
    case False
    then have "kmalloc_index_loop sz index = Some index"
      using u less.prems(2) by (subst kmalloc_index_loop.simps) (simp add: word_less_nat_alt)
    then show ?thesis using False less.prems by auto
  qed
qed

lemma kmalloc_index_spec:
  assumes "unat sz \<le> 2048"
  obtains c where "kmalloc_index sz = Some c" "c < 8" "unat sz \<le> obj_size c" "obj_size c = 16 \<or> obj_size c < 2 * unat sz"
proof -
  obtain c where c: "c < 8" "kmalloc_index sz = Some c" "unat sz \<le> obj_size c" "\<forall>j<c. obj_size j < unat sz"
    using kmalloc_index_loop_spec [of sz 0] assms by (auto simp: kmalloc_index_def)
  have "obj_size c = 16 \<or> obj_size c < 2 * unat sz"
  proof (cases c)
    case (Suc j)
    then have "obj_size j < unat sz" using c(4) by simp
    moreover have "obj_size c = 2 * obj_size j" using Suc by (simp add: power_add)
    ultimately show ?thesis by simp
  qed simp
  then show thesis using that c by blast
qed

lemma unat_order_size: "order < MAX_ORDER \<Longrightarrow> unat (push_bit order PAGE_SIZE) = 4096 * 2 ^ order"
proof -
  assume "order < MAX_ORDER"
  then have "(2 :: nat) ^ order \<le> 2 ^ 10" by (intro power_increasing) (simp_all add: MAX_ORDER_def)
  then have "(4096 :: nat) * 2 ^ order < 2 ^ 64" by simp
  moreover have "push_bit order PAGE_SIZE = (of_nat (4096 * 2 ^ order) :: u64)"
    by (simp add: PAGE_SIZE_def PAGE_SHIFT_def push_bit_eq_mult)
  ultimately show ?thesis by (simp add: unat_of_nat del: of_nat_mult of_nat_power)
qed

lemma kmalloc_order_spec:
  assumes "order < MAX_ORDER" "\<And>j. j < order \<Longrightarrow> 4096 * 2 ^ j < unat sz"
  shows "(kmalloc_order sz order = None \<and> 4096 * 2 ^ (MAX_ORDER - 1) < unat sz) \<or>
    (\<exists>k<MAX_ORDER. kmalloc_order sz order = Some k \<and> unat sz \<le> 4096 * 2 ^ k \<and> (\<forall>j<k. 4096 * 2 ^ j < unat sz))"
  using assms
proof (induction "MAX_ORDER - order" arbitrary: order rule: less_induct)
  case less
  note u = unat_order_size [OF less.prems(1)]
  show ?case
  proof (cases "4096 * 2 ^ order < unat sz")
    case big: True
    show ?thesis
    proof (cases "Suc order < MAX_ORDER")
      case True
      have "kmalloc_order sz order = kmalloc_order sz (Suc order)"
        using True big u by (subst kmalloc_order.simps) (simp add: word_less_nat_alt)
      moreover have "4096 * 2 ^ j < unat sz" if "j < Suc order" for j using that big less.prems(2) by (cases "j = order") auto
      ultimately show ?thesis using less.hyps [of "Suc order"] True by simp
    next
      case False
      then have "order = MAX_ORDER - 1" using less.prems(1) by simp
      moreover have "kmalloc_order sz order = None"
        using False big u by (subst kmalloc_order.simps) (simp add: word_less_nat_alt)
      ultimately show ?thesis using big by auto
    qed
  next
    case False
    then have "kmalloc_order sz order = Some order"
      using u by (subst kmalloc_order.simps) (simp add: word_less_nat_alt)
    then show ?thesis using False less.prems by auto
  qed
qed

section \<open>Large blocks\<close>

lemma held_blocks_same: "base s' = base s \<Longrightarrow> held_blocks s' B = held_blocks s B"
  by (simp add: held_blocks_def)

definition big_alloc :: "nat \<Rightarrow> heap \<Rightarrow> (heap \<times> u64) option" where
  "big_alloc order s = do {
     (p, r) \<leftarrow> alloc_pages (pa s) order;
     let s = s\<lparr>pa := p\<rparr>;
     case r of
       None \<Rightarrow> Some (s, 0)
     | Some page \<Rightarrow> do {
         s \<leftarrow> upd_slab (\<lambda>b. b\<lparr>pg_order := order\<rparr>) page s;
         Some (s, page_address (pa s) page)
       }
   }"

text \<open>An operation of the page allocator alone leaves every slab as it is.\<close>

lemma keeps_others:
  assumes k: "keeps (pa s) (pa s')" and p: "same_slabs 8 (pa s) (pa s')"
    and b: "mem_map_base_pfn (pa s') = mem_map_base_pfn (pa s)" "kmalloc_caches s' = kmalloc_caches s"
  shows "others page s s'" "is_slab (pa s') q = is_slab (pa s) q" "slab_frames (pa s') = slab_frames (pa s)"
proof -
  have n: "n_pages (pa s') = n_pages (pa s)" using k unfolding keeps_def by (metis length_map)
  have sf: "slab_fields (descr s' q) = slab_fields (descr s q)" if "q < n_pages (pa s)" for q
    using k that n unfolding keeps_def by (metis nth_map)
  show "others page s s'" using sf n p b by (simp add: others_def same_slabs_def)
  show same: "is_slab (pa s') q = is_slab (pa s) q" for q using sf [of q] n by (auto simp: is_slab_def slab_fields_def)
  show "slab_frames (pa s') = slab_frames (pa s)" using same b(1) by (simp add: slab_frames_def)
qed

lemma free_page_not_live:
  assumes inv: "heap_inv E F s fo B" and page: "page < n_pages (pa s)" and fr: "base (pa s) + page \<in> free_frames (pa s)" and n: "0 < n"
  shows "(page_address (pa s) page, n) \<notin> live s fo B"
proof
  assume "(page_address (pa s) page, n) \<in> live s fo B"
  then obtain q where "addr (pa s) q \<le> addr (pa s) page" "addr (pa s) page < addr (pa s) q + 4096" "base (pa s) + q \<notin> free_frames (pa s)"
    using live_page [OF inv, of "page_address (pa s) page" n "page_address (pa s) page"] n unat_page_address [OF heap_invD(2) [OF inv] page]
    by (auto simp: extent_def)
  then show False using page_of_unique [OF heap_invD(2) [OF inv], of q "addr (pa s) page" page] fr by simp
qed

lemma big_alloc_effect:
  assumes inv: "heap_inv {} F s fo B" and k: "k < MAX_ORDER"
  obtains (none) "big_alloc k s = Some (s, 0)" "\<And>j p. (j, p) \<in> free_blocks (pa s) \<Longrightarrow> j < k"
  | (block) s' page where "big_alloc k s = Some (s', page_address (pa s) page)" "page_inv 8 (pa s')" "keeps (pa s) (pa s')"
      "same_slabs 8 (pa s) (pa s')" "mem_map_base_pfn (pa s') = mem_map_base_pfn (pa s)" "kmalloc_caches s' = kmalloc_caches s"
      "mem s' = mem s" "page + 2 ^ k \<le> n_pages (pa s)" "2 ^ k dvd base (pa s) + page" "blk k (base (pa s) + page) \<subseteq> free_frames (pa s)"
      "free_frames (pa s') = free_frames (pa s) - blk k (base (pa s) + page)" "pg_order (descr s' page) = k"
      "\<And>q. q \<noteq> page \<Longrightarrow> base (pa s) + q \<notin> free_frames (pa s) \<Longrightarrow> pg_order (descr s' q) = pg_order (descr s q)"
proof -
  show thesis
  proof (rule alloc_pages_page_inv [OF heap_invD(1) [OF inv] k], goal_cases none block)
    case none
    then show ?case by (intro that(1)) (auto simp: big_alloc_def)
  next
    case (block c page p)
    let ?f = "\<lambda>b. b\<lparr>pg_order := k\<rparr>"
    let ?p1 = "p\<lparr>mem_map := (mem_map p)[page := ?f (mem_map p ! page)]\<rparr>"
    have bs: "mem_map_base_pfn p = mem_map_base_pfn (pa s)" "n_pages p = n_pages (pa s)" using block(11) by (simp_all add: same_outside_def)
    note use = in_useD [OF block(3)]
    have page: "page < n_pages p" using use less_le_trans [of page "page + 2 ^ k"] by simp
    have here: "base (pa s) + page \<in> blk k (base (pa s) + page)" by (simp add: blk_def)
    have p1: "page_inv 8 ?p1" "free_blocks ?p1 = free_blocks p"
      using page_inv_upd [OF block(2) page, of ?f] bs use here by auto
    have "upd_page ?f page p = Some ?p1" using page by (simp add: upd_page_def)
    then have "keeps p ?p1" by (rule keeps_upd_page) simp
    with alloc_pages_keeps [OF block(1)] have "keeps (pa s) ?p1" by (rule keeps_trans)
    then show ?case
      by (intro that(2) [of "s\<lparr>pa := ?p1\<rparr>" page])
        (use block page bs use p1(1) free_frames_eq [OF p1(2)] in
          \<open>simp_all add: big_alloc_def upd_slab_ok page_address_def page_to_phys_def page_to_pfn_def same_slabs_def same_outside_def\<close>)
  qed
qed

lemma big_alloc_spec:
  assumes inv: "heap_inv {} F s fo B" and k: "k < MAX_ORDER"
  obtains (none) "big_alloc k s = Some (s, 0)" "\<And>j p. (j, p) \<in> free_blocks (pa s) \<Longrightarrow> j < k"
  | (block) s' page where "big_alloc k s = Some (s', page_address (pa s) page)" "heap_inv {} F s' fo (insert (k, page) B)"
      "live s' fo (insert (k, page) B) = insert (page_address (pa s) page, 4096 * 2 ^ k) (live s fo B)"
      "(page_address (pa s) page, 4096 * 2 ^ k) \<notin> live s fo B" "mem s' = mem s" "page_address (pa s) page \<noteq> 0"
proof -
  note d = heap_invD [OF inv]
  show thesis
  proof (rule big_alloc_effect [OF inv k], goal_cases none block)
    case none
    then show ?case by (rule that(1))
  next
    case (block s' page)
    note o = keeps_others [OF block(3-6)]
    let ?blk = "blk k (base (pa s) + page)" and ?B = "insert (k, page) B"
    have here: "base (pa s) + page \<in> ?blk" by (simp add: blk_def)
    then have fr: "base (pa s) + page \<in> free_frames (pa s)" using block(10) by blast
    have notslab: "\<not> is_slab (pa s) page" using d(4) fr by blast
    have page: "page < n_pages (pa s)" using block(8) less_le_trans [of page "page + 2 ^ k"] by simp
    have apart: "?blk \<inter> slab_frames (pa s) = {}" "?blk \<inter> frames (held_blocks (pa s) B) = {}"
      using block(10) d(4,10) by (auto simp: slab_frames_def)
    have hb: "held_blocks (pa s) ?B = insert (k, base (pa s) + page) (held_blocks (pa s) B)" by (rule held_blocks_insert)
    have wf: "blocks_wf (MAX_ORDER - 1) (base (pa s)) (base (pa s) + n_pages (pa s)) (held_blocks (pa s) ?B)"
      unfolding hb using d(8) block(8,9) k apart(2) by (intro blocks_wf_insert) auto
    have inv': "heap_inv {} F s' fo ?B"
    proof (rule heap_inv_frame [OF inv _ _ o(1) [of page]])
      show "pg_order (descr s' q) = j" if "(j, q) \<in> ?B" for j q
      proof (cases "(j, q) \<in> B")
        case True
        then have "q \<noteq> page" "base (pa s) + q \<notin> free_frames (pa s)" using held_frame [OF True, of "pa s"] apart(2) here d(10) by auto
        then show ?thesis using block(13) d(9) [OF True] by simp
      qed (use that block(12) in simp)
      show "is_slab (pa s') page \<and> pg_slab (descr s' page) = Some e" if "e < 8" "page \<in> set (partial_list (pa s') e)" for e
        using d(7) [OF that(1), of page] that block(4) notslab by (auto simp: same_slabs_def)
    qed (use block(2,7,10,11) wf o d(4,10-12) apart notslab hb in auto)
    have pl: "page_live s' fo page = {}" "page_live s fo page = {}" using notslab o(2) by (simp_all add: page_live_def)
    have lv: "live s' fo ?B = insert (page_address (pa s) page, 4096 * 2 ^ k) (live s fo B)"
      unfolding live_update [OF o(1) [of page], of fo fo, simplified] live_split [of s fo B page] pl by (auto simp: big_live_def)
    have "page_address (pa s) page \<noteq> 0"
      using unat_page_address [OF d(2) page] addr_bound [OF d(2) page] by auto
    then show ?case using that(2) [OF block(1) inv' lv free_page_not_live [OF inv page fr] block(7)] by simp
  qed
qed

lemma big_free_effect:
  assumes inv: "heap_inv {} F s fo B" and B: "(k, page) \<in> B"
  shows "\<exists>p. kfree (page_address (pa s) page) s = Some (s\<lparr>pa := p\<rparr>) \<and> page_inv 8 p \<and> keeps (pa s) p \<and>
    free_frames p = free_frames (pa s) \<union> blk k (base (pa s) + page) \<and> same_slabs 8 (pa s) p \<and> same_outside (free_frames p) (pa s) p"
proof -
  note d = heap_invD [OF inv]
  note bp = big_page [OF inv B]
  have page: "page < n_pages (pa s)" using bp(1) less_le_trans [of page "page + 2 ^ k"] by simp
  have "in_use 8 (pa s) page k"
    using bp(1,2,3,6,7) d(7) unfolding in_use_def freeable_def by (fastforce simp: free_frames_def free_blocks_def slab_frames_def)
  then obtain p where p: "free_pages (pa s) page k = Some p" "page_inv 8 p"
    "free_frames p = free_frames (pa s) \<union> blk k (base (pa s) + page)" "same_slabs 8 (pa s) p" "same_outside (free_frames p) (pa s) p"
    by (rule free_pages_page_inv [OF d(1)])
  have "kfree (page_address (pa s) page) s = Some (s\<lparr>pa := p\<rparr>)"
    using bp(4,5,8) page p(1) d(9) [OF B] by (simp add: kfree_def get_page_def is_slab_def)
  then show ?thesis using p free_pages_keeps [OF p(1)] by (intro exI [of _ p]) simp
qed

lemma big_free_spec:
  assumes inv: "heap_inv {} F s fo B" and B: "(k, page) \<in> B"
  shows "\<exists>s'. kfree (page_address (pa s) page) s = Some s' \<and> heap_inv {} F s' fo (B - {(k, page)}) \<and>
    live s' fo (B - {(k, page)}) = live s fo B - {(page_address (pa s) page, 4096 * 2 ^ k)} \<and> mem s' = mem s"
proof -
  note d = heap_invD [OF inv]
  note bp = big_page [OF inv B]
  from big_free_effect [OF assms] obtain p where free: "kfree (page_address (pa s) page) s = Some (s\<lparr>pa := p\<rparr>)"
    and p: "page_inv 8 p" "keeps (pa s) p" "free_frames p = free_frames (pa s) \<union> blk k (base (pa s) + page)" "same_slabs 8 (pa s) p"
      "same_outside (free_frames p) (pa s) p" by blast
  let ?B = "B - {(k, page)}" and ?s = "s\<lparr>pa := p\<rparr>"
  have h: "(k, base (pa s) + page) \<in> held_blocks (pa s) B" using B by (force simp: held_blocks_def)
  have b: "mem_map_base_pfn p = mem_map_base_pfn (pa s)" using p(5) by (simp add: same_outside_def)
  have o: "others page s ?s" "is_slab (pa ?s) q = is_slab (pa s) q" "slab_frames (pa ?s) = slab_frames (pa s)" for q
    by (rule keeps_others; use p(2,4) b in simp)+
  have hb: "frames (held_blocks (pa s) ?B) = frames (held_blocks (pa s) B) - blk k (base (pa s) + page)"
    unfolding held_blocks_remove by (rule frames_remove [OF d(8) h])
  have "heap_inv {} F ?s fo ?B"
  proof (rule heap_inv_frame [OF inv _ _ o(1)])
    show "pg_order (descr ?s q) = j" if "(j, q) \<in> ?B" for j q
    proof -
      have "base (pa s) + q \<notin> free_frames p" using held_frame [OF that, of "pa s"] d(10) p(3) hb by auto
      then show ?thesis using that d(9) [of j q] p(5) by (simp add: same_outside_def)
    qed
    show "is_slab (pa ?s) page \<and> pg_slab (descr ?s page) = Some e" if "e < 8" "page \<in> set (partial_list (pa ?s) e)" for e
      using d(7) [OF that(1), of page] that p(4) bp(4) by (auto simp: same_slabs_def)
    show "base (pa s) + q \<notin> free_frames (pa ?s)" if "is_slab (pa s) q" for q
      using d(4) [OF that] bp(7) that p(3) by (auto simp: slab_frames_def)
    show "blocks_wf (MAX_ORDER - 1) (base (pa s)) (base (pa s) + n_pages (pa s)) (held_blocks (pa s) ?B)"
      by (rule blocks_wf_subset [OF d(8)]) (auto simp: held_blocks_def)
    show "free_frames (pa ?s) \<union> slab_frames (pa ?s) \<union> frames (held_blocks (pa s) ?B) = F"
      using d(12) p(3) o(3) b hb blk_frames [OF h] by auto
  qed (use p(1,3) b o d(10,11) bp(4,6,7) hb in auto)
  moreover have "live ?s fo ?B = live s fo B - {(page_address (pa s) page, 4096 * 2 ^ k)}"
  proof -
    have "page_live ?s fo page = page_live s fo page" using bp(4) o(2) b by (simp add: page_live_def)
    moreover have "(page_address (pa s) page, 4096 * 2 ^ k) \<notin> page_live s fo q" for q
      using page_live_page(1,2) [OF inv, of "page_address (pa s) page" _ q] bp(4,5) by auto
    moreover have "big_live (pa s) ?B = big_live (pa s) B - {(page_address (pa s) page, 4096 * 2 ^ k)}"
      using big_page(5) [OF inv] bp(5) by (fastforce simp: big_live_def)
    ultimately show ?thesis unfolding live_update [OF o(1), of fo fo, simplified] live_split [of s fo B page] by auto
  qed
  ultimately show ?thesis using free by auto
qed

section \<open>The contract\<close>

text \<open>The state serves exactly the allocations in \<open>L\<close>, and \<open>F\<close> are the page frames it owns.\<close>

definition heap_ok :: "nat set \<Rightarrow> heap \<Rightarrow> (u64 \<times> nat) set \<Rightarrow> bool" where
  "heap_ok F s L \<longleftrightarrow> (\<exists>fo B. heap_inv {} F s fo B \<and> L = live s fo B)"

lemma kmalloc_ok:
  assumes ok: "heap_ok F s L"
  obtains (none) "kmalloc sz s = Some (s, 0)" "sz = 0 \<or> 0x400000 < unat sz \<or> (\<forall>(k, p)\<in>free_blocks (pa s). 4096 * 2 ^ k < unat sz)"
  | (object) s' a n where "kmalloc sz s = Some (s', a)" "a \<noteq> 0" "heap_ok F s' (insert (a, n) L)" "(a, n) \<notin> L"
      "sz \<noteq> 0" "unat sz \<le> n" "n = 16 \<or> n < 2 * unat sz" "keeps_bytes L s s'"
proof -
  obtain fo B where inv: "heap_inv {} F s fo B" and L: "L = live s fo B" using ok by (auto simp: heap_ok_def)
  have max: "unat KMALLOC_MAX_SIZE = 2048" by (simp add: KMALLOC_MAX_SIZE_def KMALLOC_SHIFT_HIGH_def)
  consider "sz = 0" | "sz \<noteq> 0" "unat sz \<le> 2048" | "sz \<noteq> 0" "2048 < unat sz" by force
  then show thesis
  proof cases
    case 1
    then show ?thesis by (intro that(1)) (simp_all add: kmalloc_def)
  next
    case 2
    obtain c where c: "kmalloc_index sz = Some c" "c < 8" "unat sz \<le> obj_size c" "obj_size c = 16 \<or> obj_size c < 2 * unat sz"
      using kmalloc_index_spec [OF 2(2)] .
    have km: "kmalloc sz s = slab_alloc c s" using 2 c(1) max by (simp add: kmalloc_def word_less_nat_alt)
    show ?thesis
    proof (rule slab_alloc_spec [OF inv c(2)], goal_cases none object)
      case none
      then show ?case using km by (intro that(1)) simp_all
    next
      case (object s' a fo')
      then show ?case using km L c 2(1) by (intro that(2) [of s' a "obj_size c"]) (auto simp: heap_ok_def)
    qed
  next
    case 3
    then have "kmalloc sz s = (case kmalloc_order sz 0 of None \<Rightarrow> Some (s, 0) | Some order \<Rightarrow> big_alloc order s)"
      using max by (simp add: kmalloc_def big_alloc_def word_less_nat_alt split: option.split)
    moreover have "(kmalloc_order sz 0 = None \<and> 4096 * 2 ^ (MAX_ORDER - 1) < unat sz) \<or>
        (\<exists>k<MAX_ORDER. kmalloc_order sz 0 = Some k \<and> unat sz \<le> 4096 * 2 ^ k \<and> (\<forall>j<k. 4096 * 2 ^ j < unat sz))"
      by (rule kmalloc_order_spec) (simp_all add: MAX_ORDER_def)
    ultimately consider "kmalloc sz s = Some (s, 0)" "0x400000 < unat sz"
      | k where "k < MAX_ORDER" "kmalloc sz s = big_alloc k s" "unat sz \<le> 4096 * 2 ^ k" "\<forall>j<k. 4096 * 2 ^ j < unat sz"
      by (auto simp: MAX_ORDER_def)
    then show ?thesis
    proof cases
      case 1
      then show ?thesis by (intro that(1)) simp_all
    next
      case (2 k)
      have small: "4096 * 2 ^ k < 2 * unat sz" using 2(4) 3(2) by (cases k) auto
      show ?thesis
      proof (rule big_alloc_spec [OF inv 2(1)], goal_cases none block)
        case none
        then show ?case using 2(2,4) by (intro that(1)) auto
      next
        case (block s' page)
        then show ?case using 2 3(1) L small
          by (intro that(2) [of s' "page_address (pa s) page" "4096 * 2 ^ k"]) (auto simp: heap_ok_def keeps_bytes_same)
      qed
    qed
  qed
qed

lemma kfree_ok:
  assumes ok: "heap_ok F s L" and a: "(a, n) \<in> L"
  obtains s' where "kfree a s = Some s'" "heap_ok F s' (L - {(a, n)})" "keeps_bytes (L - {(a, n)}) s s'"
proof -
  obtain fo B where inv: "heap_inv {} F s fo B" and L: "L = live s fo B" using ok by (auto simp: heap_ok_def)
  from a L consider q where "(a, n) \<in> page_live s fo q" | k p where "(k, p) \<in> B" "a = page_address (pa s) p" "n = 4096 * 2 ^ k"
    by (auto simp: live_def big_live_def)
  then show thesis
  proof cases
    case 1
    note pl = page_live_page [OF inv 1]
    obtain c where c: "slab_at s fo q c" "n = obj_size c" "a \<in> set (objs (pa s) q c) - set (fo q)" using pl(3) by blast
    have "q < n_pages (pa s)" using pl(1) by (simp add: is_slab_def)
    then have km: "kfree a s = slab_free q a s"
      using pl(1,2) object_chain(1) [OF inv pl(1) c(1,3)] by (simp add: kfree_def get_page_def is_slab_def)
    have "\<exists>s' fo'. slab_free q a s = Some s' \<and> heap_inv {} F s' fo' B \<and> live s' fo' B = L - {(a, n)} \<and> keeps_bytes (L - {(a, n)}) s s'"
      using slab_free_kept [OF inv pl(1) c(1,3)] slab_free_last [OF inv pl(1) c(1,3)] unfolding L c(2) by blast
    then show ?thesis using that km by (auto simp: heap_ok_def)
  next
    case 2
    from big_free_spec [OF inv 2(1)] obtain s' where f: "kfree a s = Some s'" "heap_inv {} F s' fo (B - {(k, p)})"
      "live s' fo (B - {(k, p)}) = L - {(a, n)}" "mem s' = mem s"
      unfolding L 2(2,3) by blast
    have "heap_ok F s' (L - {(a, n)})" unfolding heap_ok_def using f(2,3) by metis
    then show ?thesis using that f(1,4) keeps_bytes_same by blast
  qed
qed

section \<open>Writes by the clients\<close>

lemma free_object_bytes:
  assumes inv: "heap_inv E F s fo B" and q: "is_slab (pa s) q" and b: "b \<in> set (fo q)" "in_span b 8 x" and a: "(a, n) \<in> live s fo B"
  shows "x \<notin> extent a n"
proof
  assume x: "x \<in> extent a n"
  note l = heap_invD(2) [OF inv]
  note pg = free_object_page [OF inv q b]
  from a consider p where "(a, n) \<in> page_live s fo p" | k p where "(k, p) \<in> B" "a = page_address (pa s) p" "n = 4096 * 2 ^ k"
    by (auto simp: live_def big_live_def)
  then show False
  proof cases
    case 1
    obtain c where c: "slab_at s fo p c" "n = obj_size c" "a \<in> set (objs (pa s) p c) - set (fo p)" using page_live_page(3) [OF inv 1] by blast
    have p: "p < n_pages (pa s)" using page_live_page(1) [OF inv 1] by (simp add: is_slab_def)
    have ao: "a \<in> set (objs (pa s) p c)" using c(3) by simp
    note io = obj_in_page [OF l p slab_atD(1) [OF c(1)]]
    have "addr (pa s) p \<le> unat x" "unat x < addr (pa s) p + 4096" using io(1,2) [OF ao] x c(2) by (auto simp: extent_def)
    then have pq: "p = q" using page_of_unique [OF l _ _ pg] by blast
    have bo: "b \<in> set (objs (pa s) p c)" "b \<noteq> a" using slab_atD(5) [OF c(1)] b(1) c(3) pq by auto
    have sz: "(8 :: nat) \<le> obj_size c" by (simp add: power_add)
    have "unat b \<le> unat x \<and> unat x < unat b + 8"
      using in_span_iff [of b 8 x] b(2) io(2) [OF bo(1)] addr_bound [OF l p] sz by simp
    then show False using objs_apart [OF l p slab_atD(1) [OF c(1)] ao bo(1)] bo(2) x sz c(2) by (auto simp: extent_def)
  next
    case 2
    obtain i where i: "addr (pa s) (p + i) \<le> unat x" "unat x < addr (pa s) (p + i) + 4096" "base (pa s) + (p + i) \<in> blk k (base (pa s) + p)"
      using big_extent [OF inv 2(1), of x] x 2 by blast
    have "p + i = q" using page_of_unique [OF l i(1,2) pg] .
    then have "base (pa s) + q \<in> slab_frames (pa s) \<inter> blk k (base (pa s) + p)" using i(3) q by (auto simp: slab_frames_def)
    then show False using big_page(7) [OF inv 2(1)] by blast
  qed
qed

lemma heap_ok_write:
  assumes ok: "heap_ok F s L" and a: "(a, n) \<in> L" and m: "\<And>x. m x \<noteq> mem s x \<Longrightarrow> x \<in> extent a n"
  shows "heap_ok F (s\<lparr>mem := m\<rparr>) L" "keeps_bytes (L - {(a, n)}) s (s\<lparr>mem := m\<rparr>)"
proof -
  obtain fo B where inv: "heap_inv {} F s fo B" and L: "L = live s fo B" using ok by (auto simp: heap_ok_def)
  have at: "slab_at (s\<lparr>mem := m\<rparr>) fo p c" if "is_slab (pa s) p" "slab_at s fo p c" for p c
  proof -
    have "fchain m (pg_freelist (descr s p)) (fo p)"
      using fchain_cong [OF slab_atD(3) [OF that(2)], of m] free_object_bytes [OF inv that(1)] a m L by blast
    then show ?thesis using that(2) by (simp add: slab_at_def)
  qed
  have "heap_inv {} F (s\<lparr>mem := m\<rparr>) fo B"
    using inv at by (simp add: heap_inv_def caches_ok_def) blast
  moreover have "live (s\<lparr>mem := m\<rparr>) fo B = live s fo B" by (simp add: live_def page_live_def Let_def)
  ultimately show "heap_ok F (s\<lparr>mem := m\<rparr>) L" using L by (auto simp: heap_ok_def)
  show "keeps_bytes (L - {(a, n)}) s (s\<lparr>mem := m\<rparr>)"
    unfolding L by (rule keeps_bytes_object [OF inv _ m]) (use a L in simp_all)
qed

text \<open>Without live allocations there is no slab, every page is free again, and the contents of memory do not matter.\<close>

lemma no_live_slab:
  assumes inv: "heap_inv {} F s fo B" and L: "live s fo B = {}"
  shows "\<not> is_slab (pa s) p"
proof
  assume p: "is_slab (pa s) p"
  then obtain c where c: "slab_at s fo p c" using heap_invD(5) [OF inv] by blast
  have n: "p < n_pages (pa s)" using p by (simp add: is_slab_def)
  have "page_live s fo p = {}" using L by (auto simp: live_def)
  then have "set (objs (pa s) p c) \<subseteq> set (fo p)" using p slab_atD(2) [OF c] by (auto simp: page_live_def)
  then have "length (objs (pa s) p c) \<le> length (fo p)"
    using distinct_card [OF distinct_objs [OF heap_invD(2) [OF inv] n slab_atD(1) [OF c]]] distinct_card [OF slab_atD(4) [OF c]]
      card_mono [of "set (fo p)" "set (objs (pa s) p c)"] by simp
  then show False using slab_atD(6) [OF c] heap_invD(6) [OF inv p] by (simp add: objs_def)
qed

lemma heap_ok_empty:
  assumes "heap_ok F s {}"
  shows "free_frames (pa s) = F" "heap_ok F (s\<lparr>mem := m\<rparr>) {}"
proof -
  obtain fo B where inv: "heap_inv {} F s fo B" and L: "live s fo B = {}" using assms by (auto simp: heap_ok_def)
  have B: "B = {}" using L by (auto simp: live_def big_live_def)
  note no = no_live_slab [OF inv L]
  show "free_frames (pa s) = F" using heap_invD(12) [OF inv] B no by (simp add: slab_frames_def held_blocks_def)
  have "heap_inv {} F (s\<lparr>mem := m\<rparr>) fo B" using inv no by (simp add: heap_inv_def caches_ok_def)
  moreover have "live (s\<lparr>mem := m\<rparr>) fo B = {}" using L by (simp add: live_def page_live_def Let_def)
  ultimately show "heap_ok F (s\<lparr>mem := m\<rparr>) {}" unfolding heap_ok_def by metis
qed

lemma heap_ok_disjoint:
  "heap_ok F s L \<Longrightarrow> (a, n) \<in> L \<Longrightarrow> (b, m) \<in> L \<Longrightarrow> (a, n) \<noteq> (b, m) \<Longrightarrow> extent a n \<inter> extent b m = {}"
  unfolding heap_ok_def using live_disjoint by metis

text \<open>A live allocation is aligned to its size and lies within the address space.\<close>

lemma addr_aligned: "linear s \<Longrightarrow> 2 ^ k dvd base s + p \<Longrightarrow> k \<le> 18 \<Longrightarrow> 4096 * 2 ^ k dvd addr s p"
proof -
  assume l: "linear s" and d: "2 ^ k dvd base s + p" and k: "k \<le> 18"
  have "(2 :: nat) ^ k dvd 2 ^ 18" using k by (rule le_imp_power_dvd)
  then have "2 ^ k dvd base s + p - 0x40000" using d linearD(1) [OF l] by (intro dvd_diff_nat) simp_all
  then have "4096 * 2 ^ k dvd (base s + p - 0x40000) * 4096" by (simp add: mult.commute)
  moreover have "(4096 :: nat) * 2 ^ k dvd 2 ^ 30 * 0x3ffffff00" using le_imp_power_dvd [of "12 + k" 30 "2 :: nat"] k
    by (intro dvd_mult2) (simp add: power_add)
  ultimately show ?thesis by (simp add: addr_def)
qed

lemma live_aligned:
  assumes inv: "heap_inv E F s fo B" and a: "(a, n) \<in> live s fo B"
  shows "16 \<le> n" "n dvd unat a" "unat a + n \<le> 2 ^ 64" "a \<noteq> 0"
proof -
  note l = heap_invD(2) [OF inv]
  from a consider q where "(a, n) \<in> page_live s fo q" | k p where "(k, p) \<in> B" "a = page_address (pa s) p" "n = 4096 * 2 ^ k"
    by (auto simp: live_def big_live_def)
  then have "16 \<le> n \<and> n dvd unat a \<and> unat a + n \<le> 2 ^ 64 \<and> a \<noteq> 0"
  proof cases
    case 1
    obtain c where c: "slab_at s fo q c" "n = obj_size c" "a \<in> set (objs (pa s) q c)" using page_live_page(3) [OF inv 1] by blast
    have q: "q < n_pages (pa s)" using page_live_page(1) [OF inv 1] by (simp add: is_slab_def)
    note c8 = slab_atD(1) [OF c(1)]
    obtain j where "j < obj_count c" "a = obj (pa s) q c j" using c(3) by (auto simp: objs_def)
    then have "unat a = addr (pa s) q + j * n" using unat_obj [OF l q c8, of j] c(2) by simp
    moreover have "n dvd 4096" unfolding c(2) using obj_total [OF c8] by (metis dvd_triv_right)
    then have "n dvd addr (pa s) q" using addr_aligned [OF l, of 0 q] dvd_trans [of n 4096] by simp
    moreover have "unat a + n \<le> 2 ^ 64" using obj_in_page(2) [OF l q c8 c(3)] addr_bound [OF l q] c(2) by simp
    ultimately show ?thesis using c(2) obj_in_page(3) [OF l q c8 c(3)] by (simp add: power_add)
  next
    case 2
    note bp = big_page [OF inv 2(1)]
    have p: "p < n_pages (pa s)" using bp(1) less_le_trans [of p "p + 2 ^ k"] by simp
    have "(1 :: nat) \<le> 2 ^ k" by simp
    then have "addr (pa s) p + 2 ^ k * 4096 = addr (pa s) (p + (2 ^ k - 1)) + 4096"
      unfolding addr_add [OF l] diff_mult_distrib by linarith
    moreover have "p + (2 ^ k - 1) < n_pages (pa s)" using bp(1) zero_less_power [of "2 :: nat" k] by linarith
    ultimately show ?thesis
      using addr_bound [OF l] unat_page_address [OF l p] addr_aligned [OF l bp(3)] bp(2,8) 2(2,3)
      by (fastforce simp: MAX_ORDER_def)
  qed
  then show "16 \<le> n" "n dvd unat a" "unat a + n \<le> 2 ^ 64" "a \<noteq> 0" by simp_all
qed

lemma heap_ok_aligned: "heap_ok F s L \<Longrightarrow> (a, n) \<in> L \<Longrightarrow> 16 \<le> n \<and> n dvd unat a \<and> unat a + n \<le> 2 ^ 64 \<and> a \<noteq> 0"
  unfolding heap_ok_def using live_aligned by metis

text \<open>The pages of a live allocation are pages of the heap, seen through the linear map.\<close>

lemma heap_ok_owned:
  assumes "heap_ok F s L" "(a, n) \<in> L" "x \<in> extent a n"
  shows "0xffffffc000000000 \<le> unat x" "unat (kpa x) div 4096 \<in> F"
proof -
  obtain fo B where inv: "heap_inv {} F s fo B" and L: "L = live s fo B" using assms(1) by (auto simp: heap_ok_def)
  note l = heap_invD(2) [OF inv]
  obtain q where q: "q < n_pages (pa s)" "addr (pa s) q \<le> unat x" "unat x < addr (pa s) q + 4096" "base (pa s) + q \<in> F"
    using live_page [OF inv, of a n x] assms(2,3) L by blast
  show x: "0xffffffc000000000 \<le> unat x" using addr_bound [OF l q(1)] q(2) by linarith
  have k: "unat (kpa x) = unat x - 0xffffffc000000000 + 0x40000000"
    using x u64_bound [of x] unfolding kpa_def PAGE_OFFSET_def PHYS_OFFSET_def
    by (subst unat_add_nowrap) (simp_all add: unat_sub_if')
  have "(base (pa s) + q) * 4096 \<le> unat (kpa x)" "unat (kpa x) < (base (pa s) + q + 1) * 4096"
    using addr_eq [OF l, of q] q(2,3) x unfolding k by (simp_all add: algebra_simps)
  then have "unat (kpa x) div 4096 = base (pa s) + q" by (intro div_nat_eqI) (simp_all add: algebra_simps)
  then show "unat (kpa x) div 4096 \<in> F" using q(4) by simp
qed

end
