(* ===== verification/Slab_Props.thy ===== *)
theory Slab_Props
  imports Slab_Heap Page_Alloc_Props
begin

text \<open>
  The object allocator as its clients see it: initialisation, single calls, and arbitrary sequences of
  allocations, releases and writes.
\<close>

unbundle bit_operations_syntax

section \<open>Initialisation\<close>

lemma init_partial:
  assumes inv: "page_inv K s"
  defines "t \<equiv> s\<lparr>nodes := INIT_LIST_HEAD (nodes s) (Partial K)\<rparr>"
  shows "page_inv (Suc K) t" "free_blocks t = free_blocks s" "c < Suc K \<Longrightarrow> partial_list t c = (if c = K then [] else partial_list s c)"
proof -
  let ?fl = "free_list s" and ?pl = "(partial_list s)(K := [])"
  have z: "zone_inv K (partial_list s) s ?fl" using inv by (simp add: page_inv_def)
  have "Partial K \<notin> set (node_list ?fl (partial_list s) b)" for b by (cases b) auto
  moreover have "insert (Partial K) (heads K) = heads (Suc K)" by (auto simp: heads_def)
  ultimately have "family dlist (nodes t) (heads (Suc K)) ((node_list ?fl (partial_list s))(Partial K := []))"
    using z lh.family_init [of "nodes s" "heads K" "node_list ?fl (partial_list s)" "Partial K"]
    by (simp add: t_def zone_inv_def zone_wf_def)
  moreover have "(node_list ?fl (partial_list s))(Partial K := []) = node_list ?fl ?pl"
    using node_list_upd_partial [of ?fl "partial_list s" K "[]"] by simp
  ultimately have z': "zone_inv (Suc K) ?pl t ?fl"
    using z by (auto simp: t_def zone_inv_def zone_wf_def map_wf_def tags_ok_def less_Suc_eq)
  show "page_inv (Suc K) t" "free_blocks t = free_blocks s" "c < Suc K \<Longrightarrow> partial_list t c = (if c = K then [] else partial_list s c)"
    using zone_inv_page_inv [OF z'] by (simp_all add: t_def free_blocks_def)
qed

definition fresh_cache :: "nat \<Rightarrow> kmem_cache" where
  "fresh_cache c = \<lparr>c_size = push_bit c 16, c_objects = ucast (0x1000 div push_bit c 16 :: u64)\<rparr>"

lemma kmem_cache_init_loop_spec:
  assumes "page_inv k (pa s)" "k \<le> 8" "length (kmalloc_caches s) = 8" "take k (kmalloc_caches s) = map fresh_cache [0..<k]"
    "\<forall>c<k. partial_list (pa s) c = []"
  shows "\<exists>s'. kmem_cache_init_loop [k..<8] s = Some s' \<and> page_inv 8 (pa s') \<and> free_blocks (pa s') = free_blocks (pa s) \<and>
    mem_map (pa s') = mem_map (pa s) \<and> base (pa s') = base (pa s) \<and> kmalloc_caches s' = map fresh_cache [0..<8] \<and>
    (\<forall>c<8. partial_list (pa s') c = []) \<and> mem s' = mem s"
  using assms
proof (induction "8 - k" arbitrary: k s)
  case 0
  then show ?case by simp
next
  case (Suc d)
  then have k: "k < 8" by simp
  let ?s = "s\<lparr>kmalloc_caches := (kmalloc_caches s)[k := fresh_cache k], pa := (pa s)\<lparr>nodes := INIT_LIST_HEAD (nodes (pa s)) (Partial k)\<rparr>\<rparr>"
  note ip = init_partial [OF Suc.prems(1)]
  have step: "kmem_cache_init_loop [k..<8] s = kmem_cache_init_loop [Suc k..<8] ?s"
    using k Suc.prems(3)
    by (simp add: upt_rec [of k] Let_def fresh_cache_def KMALLOC_MIN_SIZE_def KMALLOC_SHIFT_LOW_def PAGE_SIZE_def PAGE_SHIFT_def)
  have "take (Suc k) (kmalloc_caches ?s) = map fresh_cache [0..<Suc k]"
    using k Suc.prems(3,4) by (simp add: take_Suc_conv_app_nth)
  then have "\<exists>s'. kmem_cache_init_loop [Suc k..<8] ?s = Some s' \<and> page_inv 8 (pa s') \<and> free_blocks (pa s') = free_blocks (pa ?s) \<and>
    mem_map (pa s') = mem_map (pa ?s) \<and> base (pa s') = base (pa ?s) \<and> kmalloc_caches s' = map fresh_cache [0..<8] \<and>
    (\<forall>c<8. partial_list (pa s') c = []) \<and> mem s' = mem ?s"
    using Suc k ip(1,3) by (intro Suc.hyps(1)) (auto simp: less_Suc_eq)
  then show ?case unfolding step using ip(2) by simp
qed

lemma kmem_cache_init_ok:
  assumes "page_inv 0 (pa s)" "linear (pa s)" "length (kmalloc_caches s) = 8" "\<And>p. \<not> is_slab (pa s) p"
  obtains s' where "kmem_cache_init s = Some s'" "heap_ok (free_frames (pa s)) s' {}" "mem s' = mem s" "free_blocks (pa s') = free_blocks (pa s)"
proof -
  from kmem_cache_init_loop_spec [OF assms(1) _ assms(3)] obtain s' where i:
    "kmem_cache_init_loop [0..<8] s = Some s'" "page_inv 8 (pa s')" "free_blocks (pa s') = free_blocks (pa s)"
    "mem_map (pa s') = mem_map (pa s)" "base (pa s') = base (pa s)" "kmalloc_caches s' = map fresh_cache [0..<8]"
    "\<forall>c<8. partial_list (pa s') c = []" "mem s' = mem s"
    by auto
  have slab: "is_slab (pa s') = is_slab (pa s)" using i(4) by (simp add: is_slab_def [abs_def])
  have "caches_ok s'" using i(6) by (simp add: caches_ok_def fresh_cache_def [abs_def])
  then have "heap_inv {} (free_frames (pa s)) s' (\<lambda>_. []) {}"
    using i(2,4,5,7) assms(2,4) slab free_frames_eq [OF i(3)]
    by (simp add: heap_inv_def linear_def slab_frames_def held_blocks_def blocks_wf_def frames_def)
  moreover have "live s' (\<lambda>_. []) {} = {}" using assms(4) slab by (simp add: live_def page_live_def big_live_def)
  ultimately have "heap_ok (free_frames (pa s)) s' {}" unfolding heap_ok_def by metis
  then show thesis using that i(1,3,8) by (simp add: kmem_cache_init_def KMALLOC_CACHES_def KMALLOC_SHIFT_HIGH_def KMALLOC_SHIFT_LOW_def)
qed

text \<open>Releasing memory to the page allocator at boot marks no page as a slab.\<close>

lemma free_memory_loop_keeps: "free_memory_loop s pfn limit = Some s' \<Longrightarrow> keeps s s'"
proof (induction rule: free_memory_loop.raw_induct [rotated 1, consumes 1, case_names step])
  case (step f s pfn limit s')
  show ?case
  proof (cases "pfn < limit")
    case True
    then obtain s1 where s1: "free_pages s (pfn_to_page s pfn) (largest_order pfn limit (MAX_ORDER - 1)) = Some s1"
        "f s1 (pfn + push_bit (largest_order pfn limit (MAX_ORDER - 1)) 1) limit = Some s'"
      using step(2) by (auto split: Option.bind_splits)
    show ?thesis by (rule keeps_trans [OF free_pages_keeps [OF s1(1)] step(1) [OF s1(2)]])
  next
    case False
    then show ?thesis using step(2) by simp
  qed
qed

lemma free_memory_core_keeps: "free_memory_core s start e = Some s' \<Longrightarrow> keeps s s'"
  by (auto simp: free_memory_core_def Let_def intro: free_memory_loop_keeps)

section \<open>Zeroed allocations\<close>

lemma in_span_extent: "unat a + n \<le> 2 ^ 64 \<Longrightarrow> in_span a n x \<longleftrightarrow> x \<in> extent a n"
  by (simp add: in_span_iff extent_def)

lemma extent_mono: "k \<le> n \<Longrightarrow> extent a k \<subseteq> extent a n"
  by (auto simp: extent_def)

lemma keeps_bytes_trans: "keeps_bytes L s s' \<Longrightarrow> keeps_bytes L s' s'' \<Longrightarrow> keeps_bytes L s s''"
  by (fastforce simp: keeps_bytes_def)

lemma kzalloc_ok:
  assumes ok: "heap_ok F s L"
  obtains (none) "kzalloc sz s = Some (s, 0)" "kmalloc sz s = Some (s, 0)"
  | (object) s1 s' a n where "kmalloc sz s = Some (s1, a)" "kzalloc sz s = Some (s', a)" "a \<noteq> 0" "heap_ok F s' (insert (a, n) L)"
      "(a, n) \<notin> L" "unat sz \<le> n" "keeps_bytes L s s'" "\<forall>x\<in>extent a (unat sz). mem s' x = 0"
proof -
  show thesis
  proof (rule kmalloc_ok [OF ok, of sz], goal_cases none object)
    case none
    then show ?case by (intro that(1)) (simp_all add: kzalloc_def)
  next
    case (object s1 a n)
    have al: "unat a + n \<le> 2 ^ 64" using heap_ok_aligned [OF object(3), of a n] by simp
    have sub: "in_span a (unat sz) x \<longleftrightarrow> x \<in> extent a (unat sz)" for x
      using al object(6) by (intro in_span_extent) linarith
    let ?s = "s1\<lparr>mem := memset (mem s1) a 0 sz\<rparr>"
    have w: "x \<in> extent a n" if "memset (mem s1) a 0 sz x \<noteq> mem s1 x" for x
      using that sub [of x] extent_mono [OF object(6), of a] by (auto simp: memset_apply split: if_splits)
    note wr = heap_ok_write [OF object(3), of a n "memset (mem s1) a 0 sz", simplified, OF w]
    have "insert (a, n) L - {(a, n)} = L" using object(4) by simp
    then have "keeps_bytes L s1 ?s" using wr(2) object(4) by simp
    then have "keeps_bytes L s ?s" by (rule keeps_bytes_trans [OF object(8)])
    moreover have "\<forall>x\<in>extent a (unat sz). mem ?s x = 0" using sub by (simp add: memset_apply)
    ultimately show ?case using object wr(1) by (intro that(2) [of s1 a ?s n]) (simp_all add: kzalloc_def)
  qed
qed

section \<open>Clients of an allocator\<close>

text \<open>
  A client knows the addresses it holds and the sizes it asked for. The interface is what it relies on; the
  lemmas hold for every allocator that provides it.
\<close>

definition held_inv :: "('s \<Rightarrow> (u64 \<times> nat) set \<Rightarrow> bool) \<Rightarrow> 's \<Rightarrow> (u64 \<rightharpoonup> u64) \<Rightarrow> bool" where
  "held_inv ok s H \<longleftrightarrow> (\<exists>L. ok s L \<and> dom H = fst ` L \<and> (\<forall>(a, n)\<in>L. unat (the (H a)) \<le> n))"

definition same_held :: "('s \<Rightarrow> u64 \<Rightarrow> u8) \<Rightarrow> (u64 \<rightharpoonup> u64) \<Rightarrow> 's \<Rightarrow> 's \<Rightarrow> bool" where
  "same_held get H s s' \<longleftrightarrow> (\<forall>a sz. H a = Some sz \<longrightarrow> (\<forall>x\<in>extent a (unat sz). get s' x = get s x))"

locale allocations =
  fixes ok :: "'s \<Rightarrow> (u64 \<times> nat) set \<Rightarrow> bool"
    and release :: "u64 \<Rightarrow> 's \<Rightarrow> 's option"
    and get :: "'s \<Rightarrow> u64 \<Rightarrow> u8"
    and put :: "'s \<Rightarrow> u64 \<Rightarrow> u8 \<Rightarrow> 's"
  assumes ok_disjoint: "ok s L \<Longrightarrow> (a, n) \<in> L \<Longrightarrow> (b, m) \<in> L \<Longrightarrow> (a, n) \<noteq> (b, m) \<Longrightarrow> extent a n \<inter> extent b m = {}"
    and ok_size: "ok s L \<Longrightarrow> (a, n) \<in> L \<Longrightarrow> 0 < n \<and> a \<noteq> 0"
    and release_ok: "ok s L \<Longrightarrow> (a, n) \<in> L \<Longrightarrow>
      \<exists>s'. release a s = Some s' \<and> ok s' (L - {(a, n)}) \<and> (\<forall>(b, m)\<in>L - {(a, n)}. \<forall>x\<in>extent b m. get s' x = get s x)"
    and put_ok: "ok s L \<Longrightarrow> (a, n) \<in> L \<Longrightarrow> x \<in> extent a n \<Longrightarrow> ok (put s x v) L"
begin

lemma unique: "ok s L \<Longrightarrow> (a, n) \<in> L \<Longrightarrow> (a, m) \<in> L \<Longrightarrow> n = m"
proof (rule ccontr)
  assume o: "ok s L" "(a, n) \<in> L" "(a, m) \<in> L" and ne: "n \<noteq> m"
  have "a \<in> extent a n \<inter> extent a m" using ok_size [OF o(1,2)] ok_size [OF o(1,3)] by (simp add: extent_def)
  then show False using ok_disjoint [OF o] ne by auto
qed

lemma held_granted:
  assumes "ok s L" "dom H = fst ` L" "\<forall>(a, n)\<in>L. unat (the (H a)) \<le> n" "H a = Some sz"
  obtains n where "(a, n) \<in> L" "unat sz \<le> n" "extent a (unat sz) \<subseteq> extent a n"
proof -
  have "a \<in> fst ` L" using assms(2,4) by (metis domI)
  then obtain n where n: "(a, n) \<in> L" by auto
  then have "unat sz \<le> n" using assms(3,4) by fastforce
  then show thesis using that n extent_mono by blast
qed

lemma held_nonnull: "held_inv ok s H \<Longrightarrow> 0 \<notin> dom H"
  using ok_size unfolding held_inv_def by fastforce

lemma held_disjoint:
  assumes "held_inv ok s H" "H a = Some m" "H b = Some n" "a \<noteq> b"
  shows "extent a (unat m) \<inter> extent b (unat n) = {}"
proof -
  obtain L where L: "ok s L" "dom H = fst ` L" "\<forall>(a, n)\<in>L. unat (the (H a)) \<le> n" using assms(1) by (auto simp: held_inv_def)
  obtain m' where a: "(a, m') \<in> L" "extent a (unat m) \<subseteq> extent a m'" using held_granted [OF L assms(2)] by blast
  obtain n' where b: "(b, n') \<in> L" "extent b (unat n) \<subseteq> extent b n'" using held_granted [OF L assms(3)] by blast
  show ?thesis using ok_disjoint [OF L(1) a(1) b(1)] a(2) b(2) assms(4) by auto
qed

lemma same_heldI:
  assumes "ok s L" "dom H = fst ` L" "\<forall>(a, n)\<in>L. unat (the (H a)) \<le> n" "\<forall>(b, m)\<in>L. \<forall>x\<in>extent b m. get s' x = get s x"
  shows "same_held get H s s'"
  unfolding same_held_def
proof (intro allI impI ballI)
  fix a sz x assume h: "H a = Some sz" and x: "x \<in> extent a (unat sz)"
  obtain n where "(a, n) \<in> L" "extent a (unat sz) \<subseteq> extent a n" using held_granted [OF assms(1-3) h] by blast
  then show "get s' x = get s x" using assms(4) x by blast
qed

lemma held_release:
  assumes "held_inv ok s H" "H a = Some sz"
  obtains s' where "release a s = Some s'" "held_inv ok s' (H(a := None))" "same_held get (H(a := None)) s s'"
proof -
  obtain L where L: "ok s L" "dom H = fst ` L" "\<forall>(a, n)\<in>L. unat (the (H a)) \<le> n" using assms(1) by (auto simp: held_inv_def)
  obtain n where n: "(a, n) \<in> L" using held_granted [OF L assms(2)] by blast
  from release_ok [OF L(1) n] obtain s' where f: "release a s = Some s'" "ok s' (L - {(a, n)})"
    "\<forall>(b, m)\<in>L - {(a, n)}. \<forall>x\<in>extent b m. get s' x = get s x" by blast
  have other: "b \<noteq> a" if "(b, m) \<in> L - {(a, n)}" for b m using unique [OF L(1) n, of m] that by auto
  have "fst ` (L - {(a, n)}) = fst ` L - {a}"
  proof (intro set_eqI iffI)
    fix b assume "b \<in> fst ` (L - {(a, n)})"
    then obtain q where q: "q \<in> L - {(a, n)}" "b = fst q" by (elim imageE)
    then show "b \<in> fst ` L - {a}" using other [of "fst q" "snd q"] by simp
  next
    fix b assume "b \<in> fst ` L - {a}"
    then obtain m where "(b, m) \<in> L" "b \<noteq> a" by auto
    then show "b \<in> fst ` (L - {(a, n)})" by (auto intro: rev_image_eqI)
  qed
  then have d: "dom (H(a := None)) = fst ` (L - {(a, n)})" using L(2) by simp
  have z: "\<forall>(b, m)\<in>L - {(a, n)}. unat (the ((H(a := None)) b)) \<le> m"
  proof (rule ballI)
    fix q assume q: "q \<in> L - {(a, n)}"
    then have "fst q \<noteq> a" using other [of "fst q" "snd q"] by simp
    then show "case q of (b, m) \<Rightarrow> unat (the ((H(a := None)) b)) \<le> m" using bspec [OF L(3), of q] q by (simp add: case_prod_unfold)
  qed
  have "same_held get (H(a := None)) s s'" unfolding same_held_def
  proof (intro allI impI ballI)
    fix b sz x assume h: "(H(a := None)) b = Some sz" and x: "x \<in> extent b (unat sz)"
    obtain m where "(b, m) \<in> L - {(a, n)}" "extent b (unat sz) \<subseteq> extent b m" using held_granted [OF f(2) d z h] by blast
    then show "get s' x = get s x" using f(3) x by blast
  qed
  then show thesis using that f(1,2) d z by (auto simp: held_inv_def)
qed

lemma held_put:
  assumes "held_inv ok s H" "H a = Some sz" "x \<in> extent a (unat sz)"
  shows "held_inv ok (put s x v) H"
proof -
  obtain L where L: "ok s L" "dom H = fst ` L" "\<forall>(a, n)\<in>L. unat (the (H a)) \<le> n" using assms(1) by (auto simp: held_inv_def)
  obtain n where "(a, n) \<in> L" "x \<in> extent a n" using held_granted [OF L assms(2)] assms(3) by blast
  then have "ok (put s x v) L" by (rule put_ok [OF L(1)])
  then show ?thesis using L(2,3) unfolding held_inv_def by blast
qed

end

locale allocator = allocations +
  fixes alloc :: "u64 \<Rightarrow> 's \<Rightarrow> ('s \<times> u64) option"
  assumes alloc_ok: "ok s L \<Longrightarrow> alloc sz s = Some (s, 0) \<or>
      (\<exists>s' a n. alloc sz s = Some (s', a) \<and> a \<noteq> 0 \<and> ok s' (insert (a, n) L) \<and> (a, n) \<notin> L \<and> unat sz \<le> n \<and>
        (\<forall>(b, m)\<in>L. \<forall>x\<in>extent b m. get s' x = get s x))"
begin

lemma held_alloc:
  assumes "held_inv ok s H"
  obtains (none) "alloc sz s = Some (s, 0)"
  | (some) s' a where "alloc sz s = Some (s', a)" "a \<noteq> 0" "a \<notin> dom H" "held_inv ok s' (H(a \<mapsto> sz))" "same_held get H s s'"
proof -
  obtain L where L: "ok s L" "dom H = fst ` L" "\<forall>(a, n)\<in>L. unat (the (H a)) \<le> n" using assms(1) by (auto simp: held_inv_def)
  from alloc_ok [OF L(1), of sz] consider "alloc sz s = Some (s, 0)" | s' a n where "alloc sz s = Some (s', a)" "a \<noteq> 0"
      "ok s' (insert (a, n) L)" "(a, n) \<notin> L" "unat sz \<le> n" "\<forall>(b, m)\<in>L. \<forall>x\<in>extent b m. get s' x = get s x"
    by blast
  then show thesis
  proof cases
    case 2
    have fresh: "(a, m) \<notin> L" for m using unique [OF 2(3), of a n m] 2(4) by auto
    then have "a \<notin> dom H" using L(2) by auto
    moreover have "held_inv ok s' (H(a \<mapsto> sz))" unfolding held_inv_def
      using 2(3,5) L(2,3) fresh by (intro exI [of _ "insert (a, n) L"]) auto
    ultimately show ?thesis using that(2) [OF 2(1,2)] same_heldI [OF L 2(6)] by simp
  qed (rule that(1))
qed

end

definition put_byte :: "heap \<Rightarrow> u64 \<Rightarrow> u8 \<Rightarrow> heap" where
  "put_byte s x v = s\<lparr>mem := (mem s)(x := v)\<rparr>"

interpretation hp: allocations "heap_ok F" kfree mem put_byte for F
proof (unfold_locales, goal_cases)
  case (1 s L a n b m)
  then show ?case by (rule heap_ok_disjoint)
next
  case (2 s L a n)
  then show ?case using heap_ok_aligned by fastforce
next
  case (3 s L a n)
  then show ?case by (rule kfree_ok [of F s L a n]) (auto simp: keeps_bytes_def)
next
  case (4 s L a n x v)
  then show ?case unfolding put_byte_def by (intro heap_ok_write [of F s L a n]) (auto split: if_splits)
qed

interpretation km: allocator "heap_ok F" kfree mem put_byte kmalloc for F
proof (unfold_locales, goal_cases)
  case (1 s L sz)
  then show ?case by (rule kmalloc_ok [of F s L sz]) (auto simp: keeps_bytes_def)
qed

interpretation kz: allocator "heap_ok F" kfree mem put_byte kzalloc for F
proof (unfold_locales, goal_cases)
  case (1 s L sz)
  then show ?case by (rule kzalloc_ok [of F s L sz]) (auto simp: keeps_bytes_def)
qed

section \<open>Sequences of requests\<close>

text \<open>
  Any number of clients: \<open>H\<close> maps the addresses they hold to the sizes they asked for. They may allocate, release
  what they hold, and write to the bytes they asked for.
\<close>

inductive heap_step :: "heap \<times> (u64 \<rightharpoonup> u64) \<Rightarrow> heap \<times> (u64 \<rightharpoonup> u64) \<Rightarrow> bool" where
  malloc: "kmalloc sz s = Some (s', a) \<Longrightarrow> heap_step (s, H) (s', if a = 0 then H else H(a \<mapsto> sz))"
| zalloc: "kzalloc sz s = Some (s', a) \<Longrightarrow> heap_step (s, H) (s', if a = 0 then H else H(a \<mapsto> sz))"
| free: "H a = Some sz \<Longrightarrow> kfree a s = Some s' \<Longrightarrow> heap_step (s, H) (s', H(a := None))"
| free_null: "kfree 0 s = Some s' \<Longrightarrow> heap_step (s, H) (s', H)"
| store: "H a = Some sz \<Longrightarrow> x \<in> extent a (unat sz) \<Longrightarrow> heap_step (s, H) (put_byte s x v, H)"

lemma heap_step_inv:
  assumes "heap_step (s, H) (s', H')" "held_inv (heap_ok F) s H"
  shows "held_inv (heap_ok F) s' H'"
  using assms(1)
proof cases
  case (malloc sz a)
  then show ?thesis using assms(2) by (cases rule: km.held_alloc [OF assms(2), of sz]) auto
next
  case (zalloc sz a)
  then show ?thesis using assms(2) by (cases rule: kz.held_alloc [OF assms(2), of sz]) auto
next
  case (free a sz)
  from free show ?thesis using hp.held_release [OF assms(2) free(2)] by (metis option.inject)
next
  case free_null
  then show ?thesis using assms(2) by (simp add: kfree_def)
next
  case (store a sz x v)
  then show ?thesis using hp.held_put [OF assms(2) store(3,4)] by simp
qed

lemma heap_run_inv:
  assumes "heap_step\<^sup>*\<^sup>* (s, H) (s', H')" "held_inv (heap_ok F) s H"
  shows "held_inv (heap_ok F) s' H'"
  using assms by (induction rule: rtranclp_induct2) (auto intro: heap_step_inv)

lemma held_start: "heap_ok F s {} \<Longrightarrow> held_inv (heap_ok F) s Map.empty"
  unfolding held_inv_def by (intro exI [of _ "{}"]) simp

lemma held_end:
  assumes "held_inv (heap_ok F) s Map.empty"
  shows "heap_ok F s {}"
  using assms by (auto simp: held_inv_def)

section \<open>A concrete heap\<close>

definition example_heap :: heap where
  "example_heap = the (kmem_cache_init \<lparr>pa = example_zone, kmalloc_caches = replicate 8 \<lparr>c_size = 0, c_objects = 0\<rparr>, mem = (\<lambda>_. 0)\<rparr>)"

lemma example_no_slab: "\<not> is_slab example_zone p"
proof -
  have "mem_map empty_zone = replicate 8 zero_page" unfolding empty_zone_def free_area_init_def
    by (simp add: MAX_ORDER_def upt_conv_Cons)
  then have "\<not> is_slab empty_zone p" by (simp add: is_slab_def zero_page_def)
  then show ?thesis using keepsD(2) [OF free_memory_core_keeps [OF example_zone(1)]] by simp
qed

lemma example_heap:
  "kmem_cache_init \<lparr>pa = example_zone, kmalloc_caches = replicate 8 \<lparr>c_size = 0, c_objects = 0\<rparr>, mem = (\<lambda>_. 0)\<rparr> = Some example_heap"
  "heap_ok {0x40000..<0x40008} example_heap {}" "free_blocks (pa example_heap) = {(3, 0x40000)}"
proof -
  let ?s = "\<lparr>pa = example_zone, kmalloc_caches = replicate 8 \<lparr>c_size = 0, c_objects = 0\<rparr>, mem = (\<lambda>_. 0)\<rparr>"
  have l: "linear (pa ?s)" by (simp add: linear_def example_zone)
  obtain s' where "kmem_cache_init ?s = Some s'" "heap_ok (free_frames (pa ?s)) s' {}" "free_blocks (pa s') = free_blocks (pa ?s)"
    by (rule kmem_cache_init_ok [of ?s]) (use l example_zone example_no_slab in simp_all)
  then show "kmem_cache_init ?s = Some example_heap" "heap_ok {0x40000..<0x40008} example_heap {}"
    "free_blocks (pa example_heap) = {(3, 0x40000)}"
    by (simp_all add: example_heap_def example_zone example_blocks)
qed

section \<open>Properties\<close>

text \<open>
  C11: from every state that serves the allocations \<open>L\<close>, \<^verbatim>\<open>kmalloc\<close> returns. The address it returns is that of a
  piece of memory that is large enough, less than twice as large as requested unless it is of the smallest
  class, aligned to its size and apart from every live allocation, whose bytes stay as they were. It returns \<^verbatim>\<open>NULL\<close>, with no effect, only for
  size 0, above 4 MiB, or when every free block of the page allocator is smaller than the request.
\<close>

theorem kmalloc_refines:
  assumes "heap_ok F s L"
  shows "(\<exists>s' a n. kmalloc sz s = Some (s', a) \<and> sz \<noteq> 0 \<and> a \<noteq> 0 \<and> heap_ok F s' (insert (a, n) L) \<and> (a, n) \<notin> L \<and>
        unat sz \<le> n \<and> (n = 16 \<or> n < 2 * unat sz) \<and> n dvd unat a \<and> unat a + n \<le> 2 ^ 64 \<and>
        (\<forall>(b, m)\<in>L. extent a n \<inter> extent b m = {} \<and> (\<forall>x\<in>extent b m. mem s' x = mem s x))) \<or>
    kmalloc sz s = Some (s, 0) \<and> (sz = 0 \<or> 0x400000 < unat sz \<or> (\<forall>(k, p)\<in>free_blocks (pa s). 4096 * 2 ^ k < unat sz))"
proof (rule kmalloc_ok [OF assms, of sz], goal_cases none object)
  case none
  then show ?case by blast
next
  case (object s' a n)
  have "extent a n \<inter> extent b m = {}" if "(b, m) \<in> L" for b m
    using heap_ok_disjoint [OF object(3), of a n b m] object(4) that by blast
  then show ?case using object heap_ok_aligned [OF object(3), of a n] unfolding keeps_bytes_def by blast
qed

theorem kmalloc_refines_witness:
  "\<exists>s' a n. kmalloc 100 example_heap = Some (s', a) \<and> a \<noteq> 0 \<and> heap_ok {0x40000..<0x40008} s' {(a, n)} \<and> 100 \<le> n \<and> n < 200"
  using kmalloc_refines [OF example_heap(2), of 100] by (fastforce simp: example_heap(3))

text \<open>
  C34: \<^verbatim>\<open>kfree\<close> of a live allocation returns, removes exactly that allocation and changes no byte of the others;
  when it was the last one, every page is back in the page allocator.
\<close>

theorem kfree_refines:
  assumes "heap_ok F s L" "(a, n) \<in> L"
  shows "\<exists>s'. kfree a s = Some s' \<and> heap_ok F s' (L - {(a, n)}) \<and> (\<forall>(b, m)\<in>L - {(a, n)}. \<forall>x\<in>extent b m. mem s' x = mem s x) \<and>
    (L = {(a, n)} \<longrightarrow> free_frames (pa s') = F)"
proof (rule kfree_ok [OF assms], goal_cases free)
  case (free s')
  then have "free_frames (pa s') = F" if "L = {(a, n)}" using that heap_ok_empty [of F s'] by simp
  then show ?case using free unfolding keeps_bytes_def by blast
qed

theorem kfree_refines_witness:
  "\<exists>s a s'. kmalloc 100 example_heap = Some (s, a) \<and> a \<noteq> 0 \<and> kfree a s = Some s' \<and> free_frames (pa s') = {0x40000..<0x40008}"
proof (rule kmalloc_ok [OF example_heap(2), of 100], goal_cases none object)
  case none
  then show ?case by (simp add: example_heap(3))
next
  case (object s a n)
  then show ?case using kfree_refines [OF object(3), of a n] by auto
qed

text \<open>
  C35: \<^verbatim>\<open>kzalloc\<close> succeeds exactly when \<^verbatim>\<open>kmalloc\<close> does; all the requested bytes are zero and no byte of
  another allocation changes.
\<close>

theorem kzalloc_zeroed:
  assumes "heap_ok F s L"
  shows "(\<exists>s1 s' a n. kmalloc sz s = Some (s1, a) \<and> kzalloc sz s = Some (s', a) \<and> a \<noteq> 0 \<and> heap_ok F s' (insert (a, n) L) \<and> (a, n) \<notin> L \<and>
        unat sz \<le> n \<and> (\<forall>x\<in>extent a (unat sz). mem s' x = 0) \<and> (\<forall>(b, m)\<in>L. \<forall>x\<in>extent b m. mem s' x = mem s x)) \<or>
    kzalloc sz s = Some (s, 0) \<and> kmalloc sz s = Some (s, 0)"
  by (rule kzalloc_ok [OF assms, of sz]) (auto simp: keeps_bytes_def)

theorem kzalloc_zeroed_witness:
  "\<exists>s' a. kzalloc 100 example_heap = Some (s', a) \<and> a \<noteq> 0 \<and> (\<forall>x\<in>extent a 100. mem s' x = 0)"
proof -
  have "kmalloc 100 example_heap \<noteq> Some (example_heap, 0)"
    by (rule kmalloc_ok [OF example_heap(2), of 100]) (simp_all add: example_heap(3))
  then show ?thesis using kzalloc_zeroed [OF example_heap(2), of 100] by auto
qed

text \<open>
  C3: whatever the clients do in whatever order, starting from a heap without allocations: what they hold never
  overlaps; the next allocation of any size and the release of anything held return, and neither touches
  the bytes of another held allocation; and when everything has been released, every page
  frame of the heap is free again.
\<close>

theorem heap_clients_safe:
  assumes ok: "heap_ok F s {}" and run: "heap_step\<^sup>*\<^sup>* (s, Map.empty) (s', H)"
  shows "(\<forall>a b m n. H a = Some m \<longrightarrow> H b = Some n \<longrightarrow> a \<noteq> b \<longrightarrow> extent a (unat m) \<inter> extent b (unat n) = {}) \<and>
    (\<forall>sz. \<exists>s'' a. kmalloc sz s' = Some (s'', a) \<and> a \<notin> dom H \<and> same_held mem H s' s'') \<and>
    (\<forall>a. a \<in> dom H \<longrightarrow> (\<exists>s''. kfree a s' = Some s'' \<and> same_held mem (H(a := None)) s' s'')) \<and>
    (H = Map.empty \<longrightarrow> free_frames (pa s') = F)"
proof -
  note inv = heap_run_inv [OF run held_start [OF ok]]
  have "0 \<notin> dom H" by (rule hp.held_nonnull [OF inv])
  have "\<exists>s'' a. kmalloc sz s' = Some (s'', a) \<and> a \<notin> dom H \<and> same_held mem H s' s''" for sz
    by (rule km.held_alloc [OF inv, of sz]) (use \<open>0 \<notin> dom H\<close> in \<open>auto simp: same_held_def\<close>)
  moreover have "\<exists>s''. kfree a s' = Some s'' \<and> same_held mem (H(a := None)) s' s''" if "a \<in> dom H" for a
    using that by (auto elim: hp.held_release [OF inv])
  moreover have "free_frames (pa s') = F" if "H = Map.empty" using heap_ok_empty held_end inv that by blast
  ultimately show ?thesis using hp.held_disjoint [OF inv] by blast
qed

theorem heap_clients_safe_witness:
  "\<exists>s' H. heap_step\<^sup>*\<^sup>* (example_heap, Map.empty) (s', H) \<and> H \<noteq> Map.empty \<and> (\<forall>a\<in>dom H. \<exists>s''. kfree a s' = Some s'')"
proof (rule kmalloc_ok [OF example_heap(2), of 100], goal_cases none object)
  case none
  then show ?case by (simp add: example_heap(3))
next
  case (object s a n)
  have run: "heap_step\<^sup>*\<^sup>* (example_heap, Map.empty) (s, [a \<mapsto> 100])"
    using heap_step.malloc [OF object(1), of Map.empty] object(2) by (simp add: r_into_rtranclp)
  from heap_clients_safe [OF example_heap(2) run] run show ?case by (intro exI [of _ s] exI [of _ "[a \<mapsto> 100]"]) auto
qed

text \<open>
  \<^verbatim>\<open>kmem_cache_init\<close>, on a fresh page allocator in the linear map, gives a heap without allocations that owns all free pages, and the
  classes are the powers of two from 16 to 2048 with slabs that fill a page exactly.
\<close>

theorem kmem_cache_init_establishes:
  assumes "page_inv 0 (pa s)" "linear (pa s)" "length (kmalloc_caches s) = 8" "\<forall>p. \<not> is_slab (pa s) p"
  shows "\<exists>s'. kmem_cache_init s = Some s' \<and> heap_ok (free_frames (pa s)) s' {} \<and>
    (\<forall>c<8. unat (c_size (kmalloc_caches s' ! c)) = 2 ^ (c + 4) \<and>
       unat (c_size (kmalloc_caches s' ! c)) * unat (c_objects (kmalloc_caches s' ! c)) = 4096)"
proof -
  obtain s' where i: "kmem_cache_init s = Some s'" "heap_ok (free_frames (pa s)) s' {}"
    using kmem_cache_init_ok [OF assms(1-3)] assms(4) by blast
  then have "caches_ok s'" by (auto simp: heap_ok_def dest: heap_invD(3))
  then have c: "kmalloc_caches s' ! c = fresh_cache c" if "c < 8" for c using that by (simp add: caches_ok_def fresh_cache_def)
  have "unat (c_size (fresh_cache c)) = 2 ^ (c + 4)" "unat (c_size (fresh_cache c)) * unat (c_objects (fresh_cache c)) = 4096" if "c < 8" for c
  proof -
    have "c = 0 \<or> c = 1 \<or> c = 2 \<or> c = 3 \<or> c = 4 \<or> c = 5 \<or> c = 6 \<or> c = 7" using that by linarith
    then show "unat (c_size (fresh_cache c)) = 2 ^ (c + 4)" "unat (c_size (fresh_cache c)) * unat (c_objects (fresh_cache c)) = 4096"
      unfolding fresh_cache_def by (elim disjE; simp)+
  qed
  then show ?thesis using i c by auto
qed

theorem kmem_cache_init_establishes_witness:
  "\<exists>s'. kmem_cache_init \<lparr>pa = example_zone, kmalloc_caches = replicate 8 \<lparr>c_size = 0, c_objects = 0\<rparr>, mem = (\<lambda>_. 0)\<rparr> = Some s' \<and>
     heap_ok {0x40000..<0x40008} s' {}"
  using kmem_cache_init_establishes [of "\<lparr>pa = example_zone, kmalloc_caches = replicate 8 \<lparr>c_size = 0, c_objects = 0\<rparr>, mem = (\<lambda>_. 0)\<rparr>"]
    example_zone(2,3) example_no_slab by (auto simp: linear_def example_zone(4,5))

end
