(* ===== verification/Init.thy ===== *)
theory Init
  imports Memblock_Props Slab_Props Task_Load
begin

text \<open>
  The start of the kernel: \<^verbatim>\<open>mem_init\<close> of \<^verbatim>\<open>mm/init.c\<close>, which hands the memory that the early
  allocator reports as free to the page allocator and sets up the object allocator, and \<^verbatim>\<open>start_kernel\<close> of
  \<^verbatim>\<open>kernel/main.c\<close>. The state is what the three allocators and the kernel keep; the memory is the physical
  memory of the kernel, and the object allocator sees it through the linear map.

  A step that may panic returns the way the kernel stopped, or \<open>None\<close> when it returned to its caller.
\<close>

unbundle bit_operations_syntax

section \<open>State\<close>

record boot =
  mblock :: memblock
  zone :: page_alloc
  caches :: "kmem_cache list"
  kern :: kernel

definition boot_heap :: "boot \<Rightarrow> heap" where
  "boot_heap b = \<lparr>pa = zone b, kmalloc_caches = caches b, mem = (\<lambda>v. phys_mem (kern b) (kpa v))\<rparr>"

definition put_heap :: "heap \<Rightarrow> boot \<Rightarrow> boot" where
  "put_heap h b = b\<lparr>zone := pa h, caches := kmalloc_caches h, kern := (kern b)\<lparr>phys_mem := (\<lambda>p. mem h (kva p))\<rparr>\<rparr>"

definition boot_print :: "string \<Rightarrow> u64 list \<Rightarrow> boot \<Rightarrow> boot" where
  "boot_print fmt args b = b\<lparr>kern := print fmt args (kern b)\<rparr>"

definition boot_panic :: "sysregs \<Rightarrow> boot \<Rightarrow> (boot \<times> exit option) option" where
  "boot_panic sr b = (let (k, e) = kernel_panic sr (kern b) in Some (b\<lparr>kern := k\<rparr>, Some e))"

text \<open>The rest of a function runs when the step before it has returned.\<close>

definition and_then :: "(boot \<times> exit option) option \<Rightarrow> (boot \<Rightarrow> (boot \<times> exit option) option) \<Rightarrow> (boot \<times> exit option) option" where
  "and_then x f = do { (b, e) \<leftarrow> x; case e of None \<Rightarrow> f b | Some _ \<Rightarrow> Some (b, e) }"

text \<open>\<^verbatim>\<open>if (operation) kernel_panic();\<close>\<close>

definition or_panic :: "sysregs \<Rightarrow> (memblock \<Rightarrow> (memblock \<times> int) option) \<Rightarrow> boot \<Rightarrow> (boot \<times> exit option) option" where
  "or_panic sr f b = do {
     (m, r) \<leftarrow> f (mblock b);
     let b = b\<lparr>mblock := m\<rparr>;
     if r \<noteq> 0 then boot_panic sr b else Some (b, None)
   }"

section \<open>The device tree\<close>

definition FDT_MAGIC :: u32 where "FDT_MAGIC = 0xd00dfeed"

definition load32 :: "byte_mem \<Rightarrow> u64 \<Rightarrow> u32" where
  "load32 m a = fold (\<lambda>i w. w OR push_bit (8 * i) (ucast (m (a + of_nat i)))) [0..<4] 0"

definition bswap32 :: "u32 \<Rightarrow> u32" where
  "bswap32 w = push_bit 24 w OR push_bit 8 (w AND 0xff00) OR (drop_bit 8 w AND 0xff00) OR drop_bit 24 w"

definition fdt_read :: "byte_mem \<Rightarrow> u64 \<Rightarrow> u32" where
  "fdt_read m address = bswap32 (load32 (\<lambda>v. m (kpa v)) (kva address))"

definition early_init_fdt_reserve_self :: "sysregs \<Rightarrow> u64 \<Rightarrow> boot \<Rightarrow> (boot \<times> exit option) option" where
  "early_init_fdt_reserve_self sr fdt_pointer b =
     (if fdt_pointer < PHYS_OFFSET \<or> fdt_pointer \<ge> PHYS_OFFSET + RAM_SIZE \<or> fdt_pointer mod 8 \<noteq> 0 then Some (b, None)
      else if fdt_read (phys_mem (kern b)) fdt_pointer \<noteq> FDT_MAGIC then Some (b, None)
      else or_panic sr (\<lambda>m. memblock_reserve m fdt_pointer (ucast (fdt_read (phys_mem (kern b)) (fdt_pointer + 4)))) b)"

section \<open>The allocators\<close>

definition phy_format :: string where "phy_format = ''phy: %016lx-%016lx map: %016lx dtb: %016lx'' @ NL"
definition resv_format :: string where "resv_format = ''resv: %016lx-%016lx'' @ NL"
definition tot_format :: string where "tot_format = ''tot: %lu pg = %lu KiB, free: %lu pg = %lu KiB'' @ NL"

text \<open>The loop that gives every free range to the page allocator.\<close>

function release_loop :: "memblock \<Rightarrow> memblock_cursor \<Rightarrow> page_alloc \<Rightarrow> page_alloc option" where
  "release_loop m cursor s = do {
     (cursor, found) \<leftarrow> memblock_next_free m cursor;
     case found of
       None \<Rightarrow> Some s
     | Some (start, stop) \<Rightarrow> do {
         s \<leftarrow> free_memory_core s start stop;
         release_loop m cursor s
       }
   }"
  by pat_completeness auto
termination
  by (relation "measure (\<lambda>(m, c, s). cnt (memory m) - cur_memory c + (cnt (reserved m) + 1 - cur_reserved c))")
    (auto simp: memblock_next_free_def dest!: next_free_progress split: bind_splits)

declare release_loop.simps [simp del]

text \<open>The loop that prints the reserved regions.\<close>

fun print_reserved :: "nat list \<Rightarrow> boot \<Rightarrow> boot option" where
  "print_reserved [] b = Some b"
| "print_reserved (i # rest) b = do {
     region \<leftarrow> get_region (reserved (mblock b)) i;
     print_reserved rest
       (boot_print resv_format [rg_base region, rg_base region + rg_size region] b)
   }"

definition sizeof_page :: u64 where "sizeof_page = 48"

text \<open>The part of \<^verbatim>\<open>mem_init\<close> after the reservations.\<close>

definition mem_init_allocators :: "sysregs \<Rightarrow> u64 \<Rightarrow> boot \<Rightarrow> (boot \<times> exit option) option" where
  "mem_init_allocators sr fdt_pointer b = do {
     let pages = drop_bit PAGE_SHIFT RAM_SIZE;
     (m, map_addr) \<leftarrow> memblock_phys_alloc (mblock b) (pages * sizeof_page) 8;
     let b = b\<lparr>mblock := m\<rparr>;
     if map_addr = 0 then boot_panic sr b
     else do {
       let s = free_area_init (zone b) PHYS_OFFSET pages;
       s \<leftarrow> release_loop (mblock b) \<lparr>cur_memory = 0, cur_reserved = 0\<rparr> s;
       let b = b\<lparr>zone := s\<rparr>;
       let pages = nr_free_pages (zone b);
       h \<leftarrow> kmem_cache_init (boot_heap b);
       let b = put_heap h b;
       let b = boot_print phy_format
                 [PHYS_OFFSET, PHYS_OFFSET + RAM_SIZE, map_addr, fdt_pointer] b;
       b \<leftarrow> print_reserved [0..<cnt (reserved (mblock b))] b;
       Some (boot_print tot_format
               [pages, push_bit (PAGE_SHIFT - 10) pages, nr_free_pages (zone b), push_bit (PAGE_SHIFT - 10) (nr_free_pages (zone b))] b,
             None)
     }
   }"

definition mem_init :: "sysregs \<Rightarrow> u64 \<Rightarrow> u64 \<Rightarrow> boot \<Rightarrow> (boot \<times> exit option) option" where
  "mem_init sr end_addr fdt_pointer b =
     and_then (or_panic sr (\<lambda>m. memblock_add m PHYS_OFFSET RAM_SIZE) b) (\<lambda>b.
     and_then (or_panic sr (\<lambda>m. memblock_reserve m PHYS_OFFSET (kpa end_addr - PHYS_OFFSET)) b) (\<lambda>b.
     and_then (or_panic sr (\<lambda>m. memblock_reserve m APP_FIRST (of_nat APP_COUNT * APP_SLOT_SIZE)) b) (\<lambda>b.
     and_then (early_init_fdt_reserve_self sr fdt_pointer b) (\<lambda>b.
     mem_init_allocators sr fdt_pointer b))))"

section \<open>The entry of the kernel\<close>

record boot_regs =
  sctlr_el1 :: u64
  vbar_el1 :: u64
  boot_sp :: u64

definition start_kernel ::
  "device \<Rightarrow> u64 \<Rightarrow> u64 \<Rightarrow> sysregs \<Rightarrow> boot_regs \<Rightarrow> u64 \<Rightarrow> u64 \<Rightarrow> u8 list list \<Rightarrow> access list \<Rightarrow> boot \<Rightarrow>
     (access list \<times> boot \<times> exit) option" where
  "start_kernel dev sre cntfrq sr br end_addr fdt_pointer payloads h b = do {
     let b = boot_print (''BOOT EL=%u SCTLR=%016lx VBAR=%016lx SP=%016lx DTB=%016lx'' @ NL)
               [ucast (ucast (drop_bit 2 (CurrentEL sr)) :: u32), sctlr_el1 br, vbar_el1 br, boot_sp br, kva fdt_pointer] b;
     let b = boot_print (''BOOT OK'' @ NL) [] b;
     (b, e) \<leftarrow> mem_init sr end_addr fdt_pointer b;
     case e of
       Some e \<Rightarrow> Some (h, b, e)
     | None \<Rightarrow> do {
         (h, k, e) \<leftarrow> start_apps dev sre cntfrq sr payloads h (kern b);
         Some (h, b\<lparr>kern := k\<rparr>, e)
       }
   }"

end
