(* ===== verification/Init_Props.thy ===== *)
theory Init_Props
  imports Init
begin

text \<open>
  What holds when the kernel has started: the page and object allocators own exactly the page frames of the
  memory that nothing else uses.
\<close>

unbundle bit_operations_syntax

section \<open>The number of regions\<close>

text \<open>The first addresses of the maximal intervals of a set; a compact table has one region for each.\<close>

definition starts :: "nat set \<Rightarrow> nat set" where
  "starts A = {x \<in> A. x = 0 \<or> x - 1 \<notin> A}"

lemma starts_grow: "starts (A \<union> {b..<e}) \<subseteq> insert b (starts A)"
proof
  fix x assume x: "x \<in> starts (A \<union> {b..<e})"
  show "x \<in> insert b (starts A)"
  proof (cases "x = b")
    case False
    have "x \<notin> {b..<e}"
    proof
      assume "x \<in> {b..<e}"
      with False have "x - 1 \<in> {b..<e}" "x \<noteq> 0" by auto
      with x show False by (auto simp: starts_def)
    qed
    with x show ?thesis by (auto simp: starts_def)
  qed simp
qed

text \<open>Two regions of a compact table are the same, or one ends below the other.\<close>

lemma table_apart:
  assumes "table_inv t" "r \<in> set (table_regions t)" "q \<in> set (table_regions t)"
  obtains "r = q" | "rend r < rbase q" | "rend q < rbase r"
proof -
  obtain a b where ab: "a < length (table_regions t)" "b < length (table_regions t)" "r = table_regions t ! a" "q = table_regions t ! b"
    using assms(2,3) by (auto simp: in_set_conv_nth)
  show thesis using table_invD(4) [OF assms(1)] that ab
    by (cases a b rule: linorder_cases) (auto simp: sorted_wrt_iff_nth_less)
qed

lemma table_starts:
  assumes "table_inv t"
  shows "starts (covered t) = rbase ` set (table_regions t)" "card (starts (covered t)) = cnt t"
proof -
  let ?L = "table_regions t"
  note i = table_invD [OF assms]
  have g: "rbase r < rend r" if "r \<in> set ?L" for r using goodD(1) [OF sep_good [OF i(2)]] that by blast
  have sub: "starts (covered t) \<subseteq> rbase ` set ?L"
  proof
    fix x assume "x \<in> starts (covered t)"
    then obtain r where r: "r \<in> set ?L" "rbase r \<le> x" "x < rend r" "x = 0 \<or> x - 1 \<notin> covered t"
      by (auto simp: starts_def covered_def cover_def addrs_def)
    have "x = 0 \<or> x - 1 \<notin> addrs r" using r(1,4) by (auto simp: covered_def cover_def)
    then have "x = rbase r" using r(2,3) by (auto simp: addrs_def)
    then show "x \<in> rbase ` set ?L" using r(1) by simp
  qed
  have sup: "rbase r \<in> starts (covered t)" if r: "r \<in> set ?L" for r
  proof -
    have "rbase r - 1 \<notin> addrs q" if q: "q \<in> set ?L" "rbase r \<noteq> 0" for q
      by (rule table_apart [OF assms r q(1)]) (use q(2) g [OF r] in \<open>auto simp: addrs_def\<close>)
    moreover have "rbase r \<in> addrs r" using g [OF r] by (simp add: addrs_def)
    ultimately show ?thesis using r by (auto simp: starts_def covered_def cover_def)
  qed
  show s: "starts (covered t) = rbase ` set ?L" using sub sup by blast
  have "sorted_wrt (<) (map rbase ?L)"
    unfolding sorted_wrt_map by (rule sorted_wrt_mono_rel [OF _ i(4)]) (use g in \<open>force intro: less_trans\<close>)
  then have "distinct (map rbase ?L)" by (simp add: strict_sorted_iff)
  then show "card (starts (covered t)) = cnt t" unfolding s using holdsD(1) [OF i(1)] by (metis distinct_card length_map set_map)
qed

lemma cnt_grow:
  assumes "table_inv t" "table_inv t'" "covered t' = covered t \<union> range_span b s"
  shows "cnt t' \<le> cnt t + 1"
proof -
  have "card (starts (covered t')) \<le> card (insert (unat b) (starts (covered t)))"
    unfolding assms(3) range_span_def by (rule card_mono [OF _ starts_grow]) (simp add: table_starts(1) [OF assms(1)])
  also have "\<dots> \<le> card (starts (covered t)) + 1" by (simp add: card_insert_if table_starts(1) [OF assms(1)])
  finally show ?thesis by (simp only: table_starts(2) [OF assms(1)] table_starts(2) [OF assms(2)])
qed

section \<open>The reservations\<close>

text \<open>The bytes of a flattened device tree in memory, if the pointer leads to one.\<close>

definition fdt_range :: "byte_mem \<Rightarrow> u64 \<Rightarrow> nat set" where
  "fdt_range m p =
     (if 0x40000000 \<le> unat p \<and> unat p < 0x48000000 \<and> 8 dvd unat p \<and> fdt_read m p = 0xd00dfeed
      then {unat p..<unat p + unat (fdt_read m (p + 4))} else {})"

text \<open>The bytes of RAM outside the kernel image, the application slots and the device tree.\<close>

definition unused_ram :: "byte_mem \<Rightarrow> u64 \<Rightarrow> u64 \<Rightarrow> nat set" where
  "unused_ram m end_addr p = {unat (kpa end_addr)..<0x48000000} - {0x41000000..<0x41060000} - fdt_range m p"

lemma reserve_ok:
  assumes "mem_inv m" "cnt (reserved m) \<le> 7" "unat b + unat s < 2 ^ 64"
  obtains m' where "memblock_reserve m b s = Some (m', 0)" "mem_inv m'" "memory m' = memory m"
    "covered (reserved m') = covered (reserved m) \<union> {unat b..<unat b + unat s}" "cnt (reserved m') \<le> cnt (reserved m) + 1"
proof -
  have i: "table_inv (memory m)" "table_inv (reserved m)" using assms(1) by (simp_all add: mem_inv_def)
  have legal: "range_legal (reserved m) b s" using assms(3) by (simp add: range_legal_def)
  have room: "add_room (reserved m) b s" using slots_needed_le [OF i(2), of b s] assms(2) by (simp add: add_room_def)
  obtain t where t: "memblock_add_range (reserved m) b s = Some (t, 0)" "table_inv t" "covered t = covered (reserved m) \<union> range_span b s"
    using rt.add_done [OF i(2) legal room] by blast
  have "range_span b s = {unat b..<unat b + unat s}" using assms(3) by (simp add: range_span_def range_limit_def)
  then show thesis using that [of "m\<lparr>reserved := t\<rparr>"] t i(1) cnt_grow [OF i(2) t(2,3)]
    by (simp add: memblock_reserve_def mem_inv_def)
qed

lemma or_panic_ok [simp]: "f (mblock b) = Some (m, 0) \<Longrightarrow> or_panic sr f b = Some (b\<lparr>mblock := m\<rparr>, None)"
  by (simp add: or_panic_def)

lemma and_then_ok [simp]: "and_then (Some (b, None)) f = f b" "and_then (Some (b, Some e)) f = Some (b, Some e)"
  by (simp_all add: and_then_def)

lemma fdt_reserved:
  assumes "mem_inv (mblock b)" "cnt (reserved (mblock b)) \<le> 7"
  obtains m where "early_init_fdt_reserve_self sr p b = Some (b\<lparr>mblock := m\<rparr>, None)" "mem_inv m"
    "memory m = memory (mblock b)" "covered (reserved m) = covered (reserved (mblock b)) \<union> fdt_range (phys_mem (kern b)) p"
    "cnt (reserved m) \<le> cnt (reserved (mblock b)) + 1"
proof -
  let ?m = "phys_mem (kern b)"
  have in_ram: "\<not> (p < PHYS_OFFSET \<or> p \<ge> PHYS_OFFSET + RAM_SIZE \<or> p mod 8 \<noteq> 0) \<longleftrightarrow>
      0x40000000 \<le> unat p \<and> unat p < 0x48000000 \<and> 8 dvd unat p"
    by (auto simp: PHYS_OFFSET_def RAM_SIZE_def word_less_nat_alt word_le_nat_alt unat_mod unat_arith_simps(3) dvd_eq_mod_eq_0)
  show thesis
  proof (cases "0x40000000 \<le> unat p \<and> unat p < 0x48000000 \<and> 8 dvd unat p \<and> fdt_read ?m p = 0xd00dfeed")
    case True
    let ?n = "ucast (fdt_read ?m (p + 4)) :: u64"
    have lt: "unat (fdt_read ?m (p + 4)) < 2 ^ 32" using unsigned_less [of "fdt_read ?m (p + 4)"] by simp
    then have n: "unat ?n = unat (fdt_read ?m (p + 4))" by (simp add: unsigned_ucast_eq take_bit_nat_eq_self)
    with True lt have "unat p + unat ?n < 2 ^ 64" by simp
    from reserve_ok [OF assms this] obtain m where m: "memblock_reserve (mblock b) p ?n = Some (m, 0)" "mem_inv m"
      "memory m = memory (mblock b)" "covered (reserved m) = covered (reserved (mblock b)) \<union> {unat p..<unat p + unat ?n}"
      "cnt (reserved m) \<le> cnt (reserved (mblock b)) + 1" by blast
    have "early_init_fdt_reserve_self sr p b = Some (b\<lparr>mblock := m\<rparr>, None)"
      using m(1) True in_ram by (simp add: early_init_fdt_reserve_self_def FDT_MAGIC_def)
    then show thesis using that m(2-5) True n by (simp add: fdt_range_def)
  next
    case False
    then have "early_init_fdt_reserve_self sr p b = Some (b, None)" "fdt_range ?m p = {}"
      using in_ram by (auto simp: early_init_fdt_reserve_self_def FDT_MAGIC_def fdt_range_def)
    then show thesis using that [of "mblock b"] assms by simp
  qed
qed

lemma unat_kernel_size: "0x40000000 \<le> unat (kpa e) \<Longrightarrow> unat (kpa e - PHYS_OFFSET) = unat (kpa e) - 0x40000000"
  by (simp add: unat_sub_if' PHYS_OFFSET_def)

text \<open>The first half of \<^verbatim>\<open>mem_init\<close> never panics; after it the free addresses are the unused ones.\<close>

lemma mem_init_reserves:
  assumes "mblock b = static_memblock" "0x40000000 \<le> unat (kpa e)" "unat (kpa e) \<le> 0x48000000"
  obtains m where "mem_init sr e p b = mem_init_allocators sr p (b\<lparr>mblock := m\<rparr>)" "mem_inv m" "cnt (reserved m) \<le> 3"
    "covered (memory m) = {0x40000000..<0x48000000}" "free_addrs m = unused_ram (phys_mem (kern b)) e p"
    "covered (reserved m) = {0x40000000..<unat (kpa e)} \<union> {0x41000000..<0x41060000} \<union> fdt_range (phys_mem (kern b)) p"
proof -
  obtain t where t: "memblock_add_range empty_table 0x40000000 0x8000000 = Some (t, 0)" "table_inv t"
    "covered t = {unat (0x40000000::u64)..<unat (0x40000000::u64) + unat (0x8000000::u64)}"
    by (rule add_to_empty [of "0x40000000" "0x8000000"]) simp
  define m1 where "m1 = static_memblock\<lparr>memory := t\<rparr>"
  have m1: "memblock_add static_memblock PHYS_OFFSET RAM_SIZE = Some (m1, 0)" "mem_inv m1" "cnt (reserved m1) = 0" "covered (reserved m1) = {}"
    using t by (simp_all add: memblock_add_def static_memblock_def PHYS_OFFSET_def RAM_SIZE_def m1_def mem_inv_def empty_table)
  have sum: "unat PHYS_OFFSET + unat (kpa e - PHYS_OFFSET) = unat (kpa e)" using unat_kernel_size [OF assms(2)] assms(2) by (simp add: PHYS_OFFSET_def)
  obtain m2 where m2: "memblock_reserve m1 PHYS_OFFSET (kpa e - PHYS_OFFSET) = Some (m2, 0)" "mem_inv m2" "memory m2 = memory m1"
    "covered (reserved m2) = {0x40000000..<unat (kpa e)}" "cnt (reserved m2) \<le> 1"
    by (rule reserve_ok [OF m1(2), of PHYS_OFFSET "kpa e - PHYS_OFFSET"]) (use m1 sum u64_bound [of "kpa e"] in \<open>simp_all add: PHYS_OFFSET_def\<close>)
  have slots: "unat APP_FIRST = 0x41000000" "unat (of_nat APP_COUNT * APP_SLOT_SIZE) = 0x60000"
    by (simp_all add: APP_FIRST_def APP_COUNT_def APP_SLOT_SIZE_def)
  obtain m3 where m3: "memblock_reserve m2 APP_FIRST (of_nat APP_COUNT * APP_SLOT_SIZE) = Some (m3, 0)" "mem_inv m3" "memory m3 = memory m2"
    "covered (reserved m3) = {0x40000000..<unat (kpa e)} \<union> {0x41000000..<0x41060000}" "cnt (reserved m3) \<le> 2"
    by (rule reserve_ok [OF m2(2), of APP_FIRST "of_nat APP_COUNT * APP_SLOT_SIZE"]) (use m2(4,5) slots in simp_all)
  obtain m where m: "early_init_fdt_reserve_self sr p (b\<lparr>mblock := m3\<rparr>) = Some (b\<lparr>mblock := m\<rparr>, None)" "mem_inv m" "memory m = memory m3"
    "covered (reserved m) = covered (reserved m3) \<union> fdt_range (phys_mem (kern b)) p" "cnt (reserved m) \<le> 3"
    by (rule fdt_reserved [of "b\<lparr>mblock := m3\<rparr>" sr p]) (use m3(2,5) in simp_all)
  have mem: "covered (memory m) = {0x40000000..<0x48000000}" using t(3) m(3) m3(3) m2(3) by (simp add: m1_def)
  have "mem_init sr e p b = mem_init_allocators sr p (b\<lparr>mblock := m\<rparr>)"
    using m1(1) m2(1) m3(1) m(1) by (simp add: mem_init_def assms(1))
  moreover have "free_addrs m = unused_ram (phys_mem (kern b)) e p"
    unfolding free_addrs_def unused_ram_def mem m(4) m3(4) using assms(2) by auto
  ultimately show thesis using that m mem m3(4) by simp
qed

section \<open>Seeding the page allocator\<close>

text \<open>The page frames that lie in a set of addresses.\<close>

definition page_frames :: "nat set \<Rightarrow> nat set" where
  "page_frames A = {f. {f * 4096..<(f + 1) * 4096} \<subseteq> A}"

definition range_frames :: "range list \<Rightarrow> nat set" where
  "range_frames X = (\<Union>x\<in>set X. whole_frames (fst x) (snd x))"

lemma whole_frames_rng: "f \<in> whole_frames a c \<longleftrightarrow> {f * 4096..<(f + 1) * 4096} \<subseteq> rng (a, c)"
  by (simp add: whole_frames_def rng_def)

lemma range_frames_eq:
  assumes "ordered X"
  shows "range_frames X = page_frames (rng_union X)"
proof -
  have "(\<exists>x\<in>set X. f \<in> whole_frames (fst x) (snd x)) \<longleftrightarrow> {f * 4096..<(f + 1) * 4096} \<subseteq> rng_union X" for f
    using one_range [OF assms, of "f * 4096" 4096] by (auto simp: whole_frames_rng rng_union_def add.commute)
  then show ?thesis by (auto simp: range_frames_def page_frames_def)
qed

lemma whole_frames_apart: "snd x < fst y \<Longrightarrow> whole_frames (fst x) (snd x) \<inter> whole_frames (fst y) (snd y) = {}"
  by (auto simp: whole_frames_def word_less_nat_alt)

lemma release_loop_frees:
  assumes m: "mem_inv m"
  shows "ordered (walk_rest m c) \<Longrightarrow> \<forall>x\<in>set (walk_rest m c). unat (fst x) + 4095 < 2 ^ 64 \<Longrightarrow> page_inv 0 s \<Longrightarrow>
    range_frames (walk_rest m c) \<inter> free_frames s = {} \<Longrightarrow> range_frames (walk_rest m c) \<subseteq> {base s..<base s + n_pages s} \<Longrightarrow>
    \<exists>s'. release_loop m c s = Some s' \<and> page_inv 0 s' \<and> free_frames s' = free_frames s \<union> range_frames (walk_rest m c) \<and>
      keeps s s' \<and> base s' = base s \<and> n_pages s' = n_pages s"
proof (induction "walk_rest m c" arbitrary: c s)
  case Nil
  then have "release_loop m c s = Some s"
    using next_free_walk [OF m, of c] by (auto simp: release_loop.simps [of m c] split: option.splits)
  then show ?case using Nil by (simp add: range_frames_def)
next
  case (Cons x X)
  obtain c' where n: "memblock_next_free m c = Some (c', Some x)" "X = walk_rest m c'"
    using next_free_walk [OF m, of c] Cons(2) by (fastforce split: option.splits)
  note eq = Cons(2) [symmetric]
  let ?w = "whole_frames (fst x) (snd x)"
  have w: "?w \<inter> free_frames s = {}" "?w \<subseteq> {base s..<base s + n_pages s}"
    using Cons.prems(4,5) by (auto simp: eq range_frames_def)
  obtain s1 where s1: "free_memory_core s (fst x) (snd x) = Some s1" "page_inv 0 s1"
    "free_frames s1 = free_frames s \<union> (?w \<inter> {base s..<base s + n_pages s})" "same_outside (free_frames s1) s s1"
    by (rule free_memory_core_page_inv [OF Cons.prems(3) _ w(1)]) (use Cons.prems(2) in \<open>auto simp: eq\<close>)
  have b: "base s1 = base s" "n_pages s1 = n_pages s" using s1(4) by (simp_all add: same_outside_def)
  have f: "free_frames s1 = free_frames s \<union> ?w" using s1(3) w(2) by blast
  have "range_frames X \<inter> ?w = {}"
    using Cons.prems(1) whole_frames_apart [of x] by (fastforce simp: eq range_frames_def)
  then have "range_frames (walk_rest m c') \<inter> free_frames s1 = {}" "range_frames (walk_rest m c') \<subseteq> {base s1..<base s1 + n_pages s1}"
    using Cons.prems(4,5) by (auto simp: f b eq range_frames_def simp flip: n(2))
  then obtain s' where s': "release_loop m c' s1 = Some s'" "page_inv 0 s'" "free_frames s' = free_frames s1 \<union> range_frames X"
    "keeps s1 s'" "base s' = base s1" "n_pages s' = n_pages s1"
    using Cons(1) [OF n(2), of s1] Cons.prems(1,2) s1(2) by (auto simp: eq simp flip: n(2))
  have "release_loop m c s = Some s'" using n(1) s1(1) s'(1) by (cases x) (simp add: release_loop.simps [of m c])
  moreover have "free_frames s' = free_frames s \<union> range_frames (x # X)" by (auto simp: s'(3) f range_frames_def)
  ultimately show ?case using s' b keeps_trans [OF free_memory_core_keeps [OF s1(1)] s'(4)] by (simp add: eq)
qed

section \<open>The allocators\<close>

definition resv_line :: "memblock_region \<Rightarrow> event" where
  "resv_line r = Printk resv_format [rg_base r, rg_base r + rg_size r]"

lemma print_reserved_lines:
  assumes "table_inv (reserved (mblock b))"
  shows "i + n = cnt (reserved (mblock b)) \<Longrightarrow> print_reserved [i..<cnt (reserved (mblock b))] b =
    Some (b\<lparr>kern := (kern b)\<lparr>console := console (kern b) @ map resv_line (drop i (table_regions (reserved (mblock b))))\<rparr>\<rparr>)"
  using assms
proof (induction n arbitrary: i b)
  case 0
  then have "length (table_regions (reserved (mblock b))) = i" using holdsD(1) [OF table_invD(1)] by force
  then show ?case using 0 by simp
next
  case (Suc n)
  let ?t = "reserved (mblock b)"
  note h = table_invD(1) [OF Suc.prems(2)]
  have i: "i < length (table_regions ?t)" "i < cnt ?t" using Suc.prems(1) holdsD(1) [OF h] by simp_all
  let ?b = "b\<lparr>kern := print resv_format
     [rg_base (table_regions ?t ! i), rg_base (table_regions ?t ! i) + rg_size (table_regions ?t ! i)] (kern b)\<rparr>"
  have "print_reserved [i..<cnt ?t] b = print_reserved [Suc i..<cnt (reserved (mblock ?b))] ?b"
    using holds_get [OF h i(1)] i(2) by (simp add: upt_conv_Cons boot_print_def)
  also have "\<dots> = Some (?b\<lparr>kern := (kern ?b)\<lparr>console := console (kern ?b) @ map resv_line (drop (Suc i) (table_regions ?t))\<rparr>\<rparr>)"
    using Suc.IH [of "Suc i" ?b] Suc.prems by simp
  also have "\<dots> = Some (b\<lparr>kern := (kern b)\<lparr>console := console (kern b) @ map resv_line (drop i (table_regions ?t))\<rparr>\<rparr>)"
    by (simp add: Cons_nth_drop_Suc [OF i(1), symmetric] resv_line_def print_def)
  finally show ?case .
qed

lemma boot_heap_put [simp]: "boot_heap (put_heap h b) = h"
  by (simp add: boot_heap_def put_heap_def)

lemma boot_heap_kern: "phys_mem k = phys_mem (kern b) \<Longrightarrow> boot_heap (b\<lparr>kern := k\<rparr>) = boot_heap b"
  by (simp add: boot_heap_def)

lemma init_no_slab: "\<not> is_slab (free_area_init s a n) p"
proof -
  have "mem_map (free_area_init s a n) = replicate (unat n) zero_page"
    unfolding free_area_init_def by (simp add: MAX_ORDER_def upt_conv_Cons)
  then show ?thesis by (simp add: is_slab_def zero_page_def)
qed

text \<open>The page allocator after \<^verbatim>\<open>free_area_init\<close> and the loop owns the page frames of the free addresses.\<close>

lemma release_all:
  assumes m: "mem_inv m" and ram: "covered (memory m) = {0x40000000..<0x48000000}" and s: "length (nr_free s) = MAX_ORDER"
  obtains s' where "release_loop m \<lparr>cur_memory = 0, cur_reserved = 0\<rparr> (free_area_init s PHYS_OFFSET (drop_bit PAGE_SHIFT RAM_SIZE)) = Some s'"
    "page_inv 0 s'" "free_frames s' = page_frames (free_addrs m)" "linear s'" "\<And>p. \<not> is_slab s' p"
proof -
  let ?c = "\<lparr>cur_memory = 0, cur_reserved = 0\<rparr>" and ?s = "free_area_init s PHYS_OFFSET (drop_bit PAGE_SHIFT RAM_SIZE)"
  note f = free_ranges_props [OF m]
  have free: "free_addrs m \<subseteq> {0x40000000..<0x48000000}" using ram by (auto simp: free_addrs_def)
  have base: "unat (drop_bit PAGE_SHIFT PHYS_OFFSET) = 0x40000" "unat (drop_bit PAGE_SHIFT RAM_SIZE) = 0x8000"
    by (simp_all add: unat_drop_page PHYS_OFFSET_def RAM_SIZE_def)
  have i: "page_inv 0 ?s" "free_frames ?s = {}" "base ?s = 0x40000" "n_pages ?s = 0x8000"
    using free_area_init_page_inv [OF s, of PHYS_OFFSET "drop_bit PAGE_SHIFT RAM_SIZE"] base by simp_all
  have "range_frames (free_ranges m) = page_frames (free_addrs m)" using range_frames_eq [OF f(1)] f(3) by simp
  moreover have "page_frames (free_addrs m) \<subseteq> {0x40000..<0x48000}"
  proof
    fix p assume "p \<in> page_frames (free_addrs m)"
    then have "{p * 4096..<(p + 1) * 4096} \<subseteq> free_addrs m" by (simp only: page_frames_def mem_Collect_eq)
    then have "{p * 4096..<(p + 1) * 4096} \<subseteq> {0x40000000..<0x48000000}" using free by (rule subset_trans)
    then show "p \<in> {0x40000..<0x48000}" by (simp add: atLeastLessThan_subset_iff)
  qed
  moreover have "\<forall>x\<in>set (free_ranges m). unat (fst x) + 4095 < 2 ^ 64"
  proof
    fix x assume "x \<in> set (free_ranges m)"
    then have "unat (fst x) \<in> rng_union (free_ranges m)" using f(2) by (force simp: rng_union_def rng_def word_less_nat_alt)
    then show "unat (fst x) + 4095 < 2 ^ 64" using f(3) free by auto
  qed
  ultimately obtain s' where s': "release_loop m ?c ?s = Some s'" "page_inv 0 s'" "free_frames s' = page_frames (free_addrs m)"
    "keeps ?s s'" "base s' = 0x40000" "n_pages s' = 0x8000"
    using release_loop_frees [OF m, of ?c ?s] f(1) i by (auto simp: walk_start)
  moreover have "linear s'" using s'(5,6) by (simp add: linear_def)
  moreover have "\<not> is_slab s' p" for p using keepsD(2) [OF s'(4)] init_no_slab by simp
  ultimately show thesis using that by blast
qed

text \<open>What \<^verbatim>\<open>mem_init\<close> prints last. The first number is meant to be the size of RAM.\<close>

definition boot_report :: "memblock \<Rightarrow> u64 \<Rightarrow> u64 \<Rightarrow> u64 \<Rightarrow> event list" where
  "boot_report m map_addr p n =
     Printk phy_format [0x40000000, 0x48000000, map_addr, p] #
     map resv_line (table_regions (reserved m)) @
     [Printk tot_format [n, push_bit 2 n, n, push_bit 2 n]]"

lemma allocators_started:
  assumes m: "mem_inv (mblock b)" "covered (memory (mblock b)) = {0x40000000..<0x48000000}"
    and b: "length (nr_free (zone b)) = MAX_ORDER" "length (caches b) = 8"
  obtains s h where "release_loop (mblock b) \<lparr>cur_memory = 0, cur_reserved = 0\<rparr> (free_area_init (zone b) PHYS_OFFSET (drop_bit PAGE_SHIFT RAM_SIZE)) = Some s"
    "kmem_cache_init (boot_heap (b\<lparr>zone := s\<rparr>)) = Some h" "heap_ok (page_frames (free_addrs (mblock b))) h {}"
    "mem h = mem (boot_heap b)" "nr_free_pages (pa h) = nr_free_pages s" "unat (nr_free_pages s) = card (page_frames (free_addrs (mblock b)))"
proof -
  obtain s where s: "release_loop (mblock b) \<lparr>cur_memory = 0, cur_reserved = 0\<rparr> (free_area_init (zone b) PHYS_OFFSET (drop_bit PAGE_SHIFT RAM_SIZE)) = Some s"
    "page_inv 0 s" "free_frames s = page_frames (free_addrs (mblock b))" "linear s" "\<And>p. \<not> is_slab s p"
    using release_all [OF m b(1)] by blast
  obtain h where h: "kmem_cache_init (boot_heap (b\<lparr>zone := s\<rparr>)) = Some h" "heap_ok (free_frames s) h {}" "mem h = mem (boot_heap b)"
    "free_blocks (pa h) = free_blocks s"
    by (rule kmem_cache_init_ok [of "boot_heap (b\<lparr>zone := s\<rparr>)"]) (use s b(2) in \<open>simp_all add: boot_heap_def\<close>)
  have "page_inv 8 (pa h)" using h(2) by (auto simp: heap_ok_def dest: heap_invD(1))
  then have "unat (nr_free_pages (pa h)) = unat (nr_free_pages s)"
    using page_invD(3) [OF s(2)] page_invD(3) h(4) by (simp add: free_frames_def)
  then have "nr_free_pages (pa h) = nr_free_pages s" by (simp add: word_unat_eq_iff)
  then show thesis using that s h page_invD(3) [OF s(2)] by simp
qed

text \<open>The calls of \<^verbatim>\<open>mem_init\<close> after the page descriptors have been placed, up to its last line of output.\<close>

lemma mem_init_allocators_runs:
  assumes a: "memblock_phys_alloc (mblock b) 0x180000 8 = Some (m', a)" "a \<noteq> 0" and t: "table_inv (reserved m')"
    and s: "release_loop m' \<lparr>cur_memory = 0, cur_reserved = 0\<rparr> (free_area_init (zone b) PHYS_OFFSET (drop_bit PAGE_SHIFT RAM_SIZE)) = Some s"
    and h: "kmem_cache_init (boot_heap (b\<lparr>mblock := m', zone := s\<rparr>)) = Some h" "mem h = mem (boot_heap b)"
      "nr_free_pages (pa h) = nr_free_pages s"
  shows "mem_init_allocators sr p b = Some (\<lparr>mblock = m', zone = pa h, caches = kmalloc_caches h,
    kern = (kern b)\<lparr>console := console (kern b) @ boot_report m' a p (nr_free_pages s)\<rparr>\<rparr>, None)"
proof -
  have size: "drop_bit PAGE_SHIFT RAM_SIZE * sizeof_page = (0x180000 :: u64)"
    by (simp add: PAGE_SHIFT_def RAM_SIZE_def sizeof_page_def)
  let ?b = "b\<lparr>mblock := m'\<rparr>" and ?k = "print phy_format [PHYS_OFFSET, PHYS_OFFSET + RAM_SIZE, a, p] (kern b)"
  let ?c = "\<lparr>mblock = m', zone = pa h, caches = kmalloc_caches h, kern = ?k\<rparr>"
  have "(\<lambda>q. mem h (kva q)) = phys_mem (kern b)" using h(2) by (simp add: boot_heap_def)
  then have "put_heap h (?b\<lparr>zone := s\<rparr>) = \<lparr>mblock = m', zone = pa h, caches = kmalloc_caches h, kern = kern b\<rparr>"
    by (cases b) (simp add: put_heap_def)
  then have c: "boot_print phy_format [PHYS_OFFSET, PHYS_OFFSET + RAM_SIZE, a, p] (put_heap h (?b\<lparr>zone := s\<rparr>)) = ?c"
    by (simp add: boot_print_def)
  have "print_reserved [0..<cnt (reserved m')] ?c =
      Some (?c\<lparr>kern := ?k\<lparr>console := console ?k @ map resv_line (table_regions (reserved m'))\<rparr>\<rparr>)"
    using print_reserved_lines [of ?c 0] t by simp
  then have "mem_init_allocators sr p b = Some (boot_print tot_format
      [nr_free_pages s, push_bit (PAGE_SHIFT - 10) (nr_free_pages s), nr_free_pages s, push_bit (PAGE_SHIFT - 10) (nr_free_pages s)]
      (?c\<lparr>kern := ?k\<lparr>console := console ?k @ map resv_line (table_regions (reserved m'))\<rparr>\<rparr>), None)"
    using a s h size c by (simp add: mem_init_allocators_def Let_def)
  then show ?thesis
    by (simp add: boot_report_def boot_print_def print_def PAGE_SHIFT_def PHYS_OFFSET_def RAM_SIZE_def)
qed

lemma mem_init_allocators_ok:
  assumes m: "mem_inv m" "cnt (reserved m) \<le> 3" "covered (memory m) = {0x40000000..<0x48000000}"
    and b: "mblock b = m" "length (nr_free (zone b)) = MAX_ORDER" "length (caches b) = 8"
  obtains (panic) "\<And>a. \<not> fits m 3 0x180000 a" "mem_init_allocators sr p b = Some (b\<lparr>kern := fst (kernel_panic sr (kern b))\<rparr>, Some Panic)"
  | (started) b' map_addr n where "mem_init_allocators sr p b = Some (b', None)" "fits m 3 0x180000 (unat map_addr)"
    "\<And>a. fits m 3 0x180000 a \<Longrightarrow> unat map_addr \<le> a"
    "covered (reserved (mblock b')) = covered (reserved m) \<union> {unat map_addr..<unat map_addr + 0x180000}"
    "heap_ok (page_frames (free_addrs m - {unat map_addr..<unat map_addr + 0x180000})) (boot_heap b') {}"
    "kern b' = (kern b)\<lparr>console := console (kern b) @ boot_report (mblock b') map_addr p n\<rparr>"
    "unat n = card (page_frames (free_addrs m - {unat map_addr..<unat map_addr + 0x180000}))"
proof -
  have size: "drop_bit PAGE_SHIFT RAM_SIZE * sizeof_page = (0x180000 :: u64)"
    by (simp add: PAGE_SHIFT_def RAM_SIZE_def sizeof_page_def)
  have u: "unat (0x180000 :: u64) = 0x180000" "(2 :: u64) ^ 3 = 8" "(0x180000 :: u64) \<noteq> 0 \<longleftrightarrow> True" "(3 :: nat) < 64 \<longleftrightarrow> True" by simp_all
  have "\<forall>x\<in>covered (memory m). x + 2 ^ 3 \<le> 2 ^ 64" "0 \<notin> covered (memory m) - covered (reserved m)" by (simp_all add: m(3))
  from phys_alloc_lowest [OF m(1) _ _ this, of "0x180000", unfolded u, OF TrueI TrueI] obtain m' a where
    a: "memblock_phys_alloc m 0x180000 8 = Some (m', a)" "mem_inv m'" "memory m' = memory m"
    "if a \<noteq> 0 then fits m 3 0x180000 (unat a) \<and> (\<forall>x. fits m 3 0x180000 x \<longrightarrow> unat a \<le> x) \<and>
       covered (reserved m') = covered (reserved m) \<union> {unat a..<unat a + 0x180000}
     else m' = m \<and> ((\<forall>x. \<not> fits m 3 0x180000 x) \<or> (\<exists>x. fits m 3 0x180000 (unat x) \<and> 16 < cnt (reserved m) + slots_needed (reserved m) x 0x180000))"
    by blast
  have room: "\<not> 16 < cnt (reserved m) + slots_needed (reserved m) x 0x180000" for x
    using m(1,2) slots_needed_le [of "reserved m" x "0x180000"] by (simp add: mem_inv_def)
  show thesis
  proof (cases "a = 0")
    case True
    then have "\<not> fits m 3 0x180000 x" for x using a(4) room by simp
    moreover have "m' = m" using a(4) True by simp
    ultimately show thesis using panic a(1) True b(1) size
      by (simp add: mem_init_allocators_def Let_def boot_panic_def kernel_panic_def)
  next
    case False
    let ?b = "b\<lparr>mblock := m'\<rparr>"
    have r: "covered (reserved m') = covered (reserved m) \<union> {unat a..<unat a + 0x180000}" using a(4) False by simp
    then have fr: "free_addrs m' = free_addrs m - {unat a..<unat a + 0x180000}" using a(3) by (auto simp: free_addrs_def)
    obtain s h where s: "release_loop m' \<lparr>cur_memory = 0, cur_reserved = 0\<rparr> (free_area_init (zone b) PHYS_OFFSET (drop_bit PAGE_SHIFT RAM_SIZE)) = Some s"
      "kmem_cache_init (boot_heap (?b\<lparr>zone := s\<rparr>)) = Some h" "heap_ok (page_frames (free_addrs m')) h {}" "mem h = mem (boot_heap ?b)"
      "nr_free_pages (pa h) = nr_free_pages s" "unat (nr_free_pages s) = card (page_frames (free_addrs m'))"
      using allocators_started [of ?b] a(2,3) m(3) b(2,3) by auto
    let ?b' = "\<lparr>mblock = m', zone = pa h, caches = kmalloc_caches h,
      kern = (kern b)\<lparr>console := console (kern b) @ boot_report m' a p (nr_free_pages s)\<rparr>\<rparr>"
    have "mem_init_allocators sr p b = Some (?b', None)"
      by (rule mem_init_allocators_runs) (use a(1,2) b(1) False s in \<open>simp_all add: mem_inv_def boot_heap_def\<close>)
    moreover have "boot_heap ?b' = h" using s(4) by (simp add: boot_heap_def)
    ultimately show thesis using started [of ?b' a "nr_free_pages s"] a(4) False r s(3,6) fr by simp
  qed
qed

definition room_for_map :: "nat set \<Rightarrow> nat \<Rightarrow> bool" where
  "room_for_map U a \<longleftrightarrow> 8 dvd a \<and> {a..<a + 0x180000} \<subseteq> U"

lemma mem_init_ok:
  assumes "mblock b = static_memblock" "length (nr_free (zone b)) = MAX_ORDER" "length (caches b) = 8"
    and "0x40000000 \<le> unat (kpa e)" "unat (kpa e) \<le> 0x48000000" and U: "U = unused_ram (phys_mem (kern b)) e p"
  obtains (panic) b' where "\<And>a. \<not> room_for_map U a" "mem_init sr e p b = Some (b', Some Panic)" "kern b' = fst (kernel_panic sr (kern b))"
  | (started) b' d n where "mem_init sr e p b = Some (b', None)" "room_for_map U (unat d)" "\<And>a. room_for_map U a \<Longrightarrow> unat d \<le> a"
    "heap_ok (page_frames (U - {unat d..<unat d + 0x180000})) (boot_heap b') {}"
    "kern b' = (kern b)\<lparr>console := console (kern b) @ boot_report (mblock b') d p n\<rparr>"
    "unat n = card (page_frames (U - {unat d..<unat d + 0x180000}))"
proof -
  obtain m where m: "mem_init sr e p b = mem_init_allocators sr p (b\<lparr>mblock := m\<rparr>)" "mem_inv m" "cnt (reserved m) \<le> 3"
    "covered (memory m) = {0x40000000..<0x48000000}" "free_addrs m = U"
    using mem_init_reserves [OF assms(1,4,5)] unfolding U by metis
  have f: "fits m 3 0x180000 = room_for_map U" by (simp add: fits_def room_for_map_def m(5) fun_eq_iff)
  show thesis
    by (rule mem_init_allocators_ok [OF m(2-4), of "b\<lparr>mblock := m\<rparr>" sr p])
      (use assms(2,3) m(1) that in \<open>simp_all add: f m(5)\<close>)
qed

section \<open>Properties\<close>

text \<open>
  C37: from the statically initialised allocators, \<^verbatim>\<open>mem_init\<close> returns exactly when an aligned stretch of 1.5 MiB for the page descriptors is
  unused: neither the kernel image nor the application slots nor the device tree lie there. It places the
  descriptors at the lowest such address, and the heap it leaves owns exactly the page frames that lie in unused memory apart from the descriptors; nothing is allocated.
  Of the kernel only the console changes, and what is printed as the total number of pages is the number of free pages. Without room
  for the descriptors the kernel panics.
\<close>

theorem mem_init_establishes:
  assumes "mblock b = static_memblock" "length (nr_free (zone b)) = MAX_ORDER" "length (caches b) = 8"
    and "0x40000000 \<le> unat (kpa e)" "unat (kpa e) \<le> 0x48000000" and U: "U = unused_ram (phys_mem (kern b)) e p"
  shows "if \<exists>a. room_for_map U a
    then \<exists>b' d n. mem_init sr e p b = Some (b', None) \<and> room_for_map U (unat d) \<and> (\<forall>a. room_for_map U a \<longrightarrow> unat d \<le> a) \<and>
      heap_ok (page_frames (U - {unat d..<unat d + 0x180000})) (boot_heap b') {} \<and>
      kern b' = (kern b)\<lparr>console := console (kern b) @ boot_report (mblock b') d p n\<rparr> \<and>
      unat n = card (page_frames (U - {unat d..<unat d + 0x180000}))
    else \<exists>b'. mem_init sr e p b = Some (b', Some Panic) \<and> kern b' = fst (kernel_panic sr (kern b))"
  by (rule mem_init_ok [OF assms, of sr]; force)

definition example_boot :: boot where
  "example_boot = \<lparr>mblock = static_memblock, zone = static_zone, caches = replicate 8 \<lparr>c_size = 0, c_objects = 0\<rparr>, kern = sample_kernel\<rparr>"

definition example_regs :: boot_regs where
  "example_regs = \<lparr>sctlr_el1 = 0, vbar_el1 = 0, boot_sp = 0\<rparr>"

lemma example_boot:
  "mblock example_boot = static_memblock" "length (nr_free (zone example_boot)) = MAX_ORDER" "length (caches example_boot) = 8"
  "unused_ram (phys_mem (kern example_boot)) (kva 0x40100000) 0 = {0x40100000..<0x41000000} \<union> {0x41060000..<0x48000000}"
  by (auto simp: example_boot_def static_zone_def unused_ram_def fdt_range_def)

lemma example_room:
  "room_for_map ({0x40100000..<0x41000000} \<union> {0x41060000..<0x48000000}) 0x40100000"
  "room_for_map ({0x40100000..<0x41000000} \<union> {0x41060000..<0x48000000}) a \<Longrightarrow> 0x40100000 \<le> a"
  by (auto simp: room_for_map_def subset_iff)

theorem mem_init_establishes_witness:
  "\<exists>b' F. mem_init (fst (sample_tick 0)) (kva 0x40100000) 0 example_boot = Some (b', None) \<and> heap_ok F (boot_heap b') {} \<and>
     0x40280 \<in> F \<and> 0x4027f \<notin> F \<and> 0x41000 \<notin> F \<and> 0x47fff \<in> F"
proof -
  let ?U = "{0x40100000..<0x41000000} \<union> {0x41060000..<0x48000000}"
  have pre: "0x40000000 \<le> unat (kpa (kva 0x40100000))" "unat (kpa (kva 0x40100000)) \<le> 0x48000000" "\<exists>a. room_for_map ?U a"
    using example_room(1) by auto
  from mem_init_establishes [OF example_boot(1-3) pre(1,2) refl, of 0 "fst (sample_tick 0)", unfolded example_boot(4) if_P [OF pre(3)]]
  obtain b' and d :: u64 where b': "mem_init (fst (sample_tick 0)) (kva 0x40100000) 0 example_boot = Some (b', None)" "room_for_map ?U (unat d)"
      "\<forall>a. room_for_map ?U a \<longrightarrow> unat d \<le> a" "heap_ok (page_frames (?U - {unat d..<unat d + 0x180000})) (boot_heap b') {}" by blast
  have "unat d = 0x40100000" using example_room(2) [OF b'(2)] b'(3) example_room(1) by (simp add: antisym)
  then have d: "?U - {unat d..<unat d + 0x180000} = {0x40280000..<0x41000000} \<union> {0x41060000..<0x48000000}" by auto
  have "0x40280 \<in> page_frames ({0x40280000..<0x41000000} \<union> {0x41060000..<0x48000000})"
    "0x4027f \<notin> page_frames ({0x40280000..<0x41000000} \<union> {0x41060000..<0x48000000})"
    "0x41000 \<notin> page_frames ({0x40280000..<0x41000000} \<union> {0x41060000..<0x48000000})"
    "0x47fff \<in> page_frames ({0x40280000..<0x41000000} \<union> {0x41060000..<0x48000000})"
    by (auto simp: page_frames_def subset_iff)
  then show ?thesis using b'(1) b'(4) [unfolded d] by blast
qed

lemma slot_range: "i < APP_COUNT \<Longrightarrow> a \<in> slot i \<Longrightarrow> unat a \<in> {0x41000000..<0x41060000}"
  unfolding less_APP_COUNT by (auto simp: slot_def app_layout)

lemma start_kernel_ok:
  assumes b: "mblock b = static_memblock" "length (nr_free (zone b)) = MAX_ORDER" "length (caches b) = 8"
    and e: "0x40000000 \<le> unat (kpa e)" "unat (kpa e) \<le> 0x48000000"
    and U: "U = unused_ram (phys_mem (kern b)) e p" and room: "\<exists>a. room_for_map U a"
    and apps: "length payloads = APP_COUNT" "list_all app_fits payloads" "boot_tables (kern b)"
    and hw: "\<And>h reg n. answers dev reg n wait h" "100 \<le> unat cntfrq" "unat cntfrq div 100 \<le> 0x7fffffff"
  obtains h' b' F where "start_kernel dev sre cntfrq sr br e p payloads h b = Some (h', b', Resume 0)"
    "running (kern b')" "current (kern b') = 0" "heap_ok F (boot_heap b') {}"
    "\<And>f x. f \<in> F \<Longrightarrow> f * 4096 \<le> x \<Longrightarrow> x < (f + 1) * 4096 \<Longrightarrow> unat (kpa e) \<le> x \<and> x < 0x48000000 \<and>
       x \<notin> fdt_range (phys_mem (kern b)) p \<and> (\<forall>i<APP_COUNT. of_nat x \<notin> slot i)"
    "\<And>i. i < APP_COUNT \<Longrightarrow> task_ready i (payloads ! i) (tasks (kern b) ! i) (tasks (kern b') ! i)"
    "\<And>i a. i < APP_COUNT \<Longrightarrow> a \<in> slot i \<Longrightarrow> phys_mem (kern b') a = loaded i (payloads ! i) (phys_mem (kern b)) a"
    "\<And>a. (\<And>i. i < APP_COUNT \<Longrightarrow> a \<notin> slot i) \<Longrightarrow> phys_mem (kern b') a = phys_mem (kern b) a"
    "\<exists>d :: u64. F = page_frames (U - {unat d..<unat d + 0x180000})"
proof -
  define b1 where "b1 = boot_print (''BOOT OK'' @ NL) [] (boot_print (''BOOT EL=%u SCTLR=%016lx VBAR=%016lx SP=%016lx DTB=%016lx'' @ NL)
    [ucast (ucast (drop_bit 2 (CurrentEL sr)) :: u32), sctlr_el1 br, vbar_el1 br, boot_sp br, kva p] b)"
  have b1: "mblock b1 = static_memblock" "length (nr_free (zone b1)) = MAX_ORDER" "length (caches b1) = 8"
    "phys_mem (kern b1) = phys_mem (kern b)" "tasks (kern b1) = tasks (kern b)" "current (kern b1) = current (kern b)"
    using b by (simp_all add: b1_def boot_print_def)
  obtain b2 d n where b2: "mem_init sr e p b1 = Some (b2, None)" "heap_ok (page_frames (U - {unat d..<unat d + 0x180000})) (boot_heap b2) {}"
    "kern b2 = (kern b1)\<lparr>console := console (kern b1) @ boot_report (mblock b2) d p n\<rparr>"
    by (rule mem_init_ok [OF b1(1-3) e, of U p sr]) (use room U b1(4) in auto)
  let ?F = "page_frames (U - {unat d..<unat d + 0x180000})"
  have k2: "boot_tables (kern b2)" using apps(3) b1(5,6) b2(3) by (simp add: boot_tables_def)
  obtain h' k where k: "start_apps dev sre cntfrq sr payloads h (kern b2) = Some (h', k, Resume 0)" "running k" "current k = 0"
    "\<forall>i<APP_COUNT. task_ready i (payloads ! i) (tasks (kern b2) ! i) (tasks k ! i) \<and>
       (\<forall>a\<in>slot i. phys_mem k a = loaded i (payloads ! i) (phys_mem (kern b2)) a)"
    "\<forall>a. (\<forall>i<APP_COUNT. a \<notin> slot i) \<longrightarrow> phys_mem k a = phys_mem (kern b2) a"
    using start_apps_ok [OF apps(1,2) k2 hw] by blast
  have run: "start_kernel dev sre cntfrq sr br e p payloads h b = Some (h', b2\<lparr>kern := k\<rparr>, Resume 0)"
    unfolding start_kernel_def Let_def b1_def [symmetric] using b2(1) k(1) by simp
  have heap: "heap_ok ?F (boot_heap (b2\<lparr>kern := k\<rparr>)) {}"
    using heap_ok_empty(2) [OF b2(2), of "\<lambda>v. phys_mem k (kpa v)"] by (simp add: boot_heap_def)
  have page: "unat (kpa e) \<le> x \<and> x < 0x48000000 \<and> x \<notin> fdt_range (phys_mem (kern b)) p \<and> (\<forall>i<APP_COUNT. of_nat x \<notin> slot i)"
    if "f \<in> ?F" "f * 4096 \<le> x" "x < (f + 1) * 4096" for f x
  proof -
    have x: "x \<in> U" using that by (auto simp: page_frames_def)
    then have "unat (of_nat x :: u64) = x" by (simp add: U unused_ram_def unat_of_nat)
    then show ?thesis using x slot_range [of _ "of_nat x"] by (auto simp: U unused_ram_def)
  qed
  have "\<exists>d' :: u64. ?F = page_frames (U - {unat d'..<unat d' + 0x180000})" by blast
  then show thesis
    using that [OF run _ _ heap page] k(2-5) b1(4,5) b2(3) by simp
qed



end
