(* ===== verification/Mmu.thy ===== *)
theory Mmu
  imports Page_Alloc Kernel_State
begin

text \<open>
  The translation tables of \<^verbatim>\<open>mm/mmu.c\<close>. All of it but \<^verbatim>\<open>cpu_uninstall_idmap\<close> runs with the MMU off, so a
  pointer to a table is its physical address; the tables are the record field \<open>entries\<close>, a memory of 64-bit
  words. Where the linker puts the static arrays and the segments of the kernel is the record \<open>image\<close>.
  Barriers and the invalidation of the TLB have no counterpart: the model executes in program order.
\<close>

unbundle bit_operations_syntax

section \<open>Constants\<close>

definition PTRS_PER_PGD :: u64 where "PTRS_PER_PGD = 512"
definition PTRS_PER_PMD :: u64 where "PTRS_PER_PMD = 512"
definition PTRS_PER_PTE :: u64 where "PTRS_PER_PTE = 512"
definition PGDIR_SHIFT :: nat where "PGDIR_SHIFT = 30"
definition PMD_SHIFT :: nat where "PMD_SHIFT = 21"
definition pgd_index :: "u64 \<Rightarrow> u64" where "pgd_index address = drop_bit PGDIR_SHIFT address AND (PTRS_PER_PGD - 1)"
definition pmd_index :: "u64 \<Rightarrow> u64" where "pmd_index address = drop_bit PMD_SHIFT address AND (PTRS_PER_PMD - 1)"
definition pte_index :: "u64 \<Rightarrow> u64" where "pte_index address = drop_bit PAGE_SHIFT address AND (PTRS_PER_PTE - 1)"
definition PTE_ADDR_MASK :: u64 where "PTE_ADDR_MASK = 0x0000fffffffff000"
definition PMD_TYPE_TABLE :: u64 where "PMD_TYPE_TABLE = 3"
definition PTE_TYPE_PAGE :: u64 where "PTE_TYPE_PAGE = 3"
definition PTE_ATTRINDX :: "u64 \<Rightarrow> u64" where "PTE_ATTRINDX t = push_bit 2 t"
definition PTE_USER :: u64 where "PTE_USER = push_bit 6 1"
definition PTE_RDONLY :: u64 where "PTE_RDONLY = push_bit 7 1"
definition PTE_SHARED :: u64 where "PTE_SHARED = push_bit 8 3"
definition PTE_AF :: u64 where "PTE_AF = push_bit 10 1"
definition PTE_PXN :: u64 where "PTE_PXN = push_bit 53 1"
definition PTE_UXN :: u64 where "PTE_UXN = push_bit 54 1"
definition MT_DEVICE_nGnRnE :: nat where "MT_DEVICE_nGnRnE = 0"
definition MT_NORMAL_NC :: nat where "MT_NORMAL_NC = 1"
definition MAIR :: "u64 \<Rightarrow> nat \<Rightarrow> u64" where "MAIR attr mt = push_bit (mt * 8) attr"

definition PROT_DEFAULT :: u64 where "PROT_DEFAULT = PTE_TYPE_PAGE OR PTE_AF OR PTE_SHARED"
definition PROT_DEVICE_nGnRnE :: u64 where
  "PROT_DEVICE_nGnRnE = PROT_DEFAULT OR PTE_PXN OR PTE_UXN OR PTE_ATTRINDX (of_nat MT_DEVICE_nGnRnE)"
definition PROT_NORMAL_NC :: u64 where
  "PROT_NORMAL_NC = PROT_DEFAULT OR PTE_PXN OR PTE_UXN OR PTE_ATTRINDX (of_nat MT_NORMAL_NC)"
definition PAGE_DEFAULT :: u64 where "PAGE_DEFAULT = PROT_DEFAULT OR PTE_ATTRINDX (of_nat MT_NORMAL_NC)"
definition PAGE_KERNEL :: u64 where "PAGE_KERNEL = PROT_NORMAL_NC"
definition PAGE_KERNEL_RO :: u64 where "PAGE_KERNEL_RO = PAGE_KERNEL OR PTE_RDONLY"
definition PAGE_KERNEL_ROX :: u64 where "PAGE_KERNEL_ROX = (PAGE_KERNEL AND NOT PTE_PXN) OR PTE_RDONLY"
definition PAGE_SHARED :: u64 where "PAGE_SHARED = PAGE_DEFAULT OR PTE_USER OR PTE_PXN OR PTE_UXN"
definition PAGE_READONLY_EXEC :: u64 where "PAGE_READONLY_EXEC = PAGE_DEFAULT OR PTE_USER OR PTE_RDONLY OR PTE_PXN"

definition EARLY_PGTABLES :: nat where "EARLY_PGTABLES = 6 + unat (drop_bit PMD_SHIFT RAM_SIZE)"

section \<open>State\<close>

record image =
  swapper_pg_dir :: u64
  idmap_pg_dir :: u64
  user_pg_dir :: u64
  early_pgtables :: u64
  text_start :: u64
  text_end :: u64
  rodata_start :: u64
  rodata_end :: u64

record mmu =
  entries :: "u64 \<Rightarrow> u64"
  early_pgtables_used :: nat
  mair_el1 :: u64
  tcr_el1 :: u64
  ttbr0_el1 :: u64
  ttbr1_el1 :: u64
  sctlr_el1 :: u64

section \<open>Building the tables\<close>

text \<open>The array holds \<open>EARLY_PGTABLES\<close> tables; taking one more is undefined.\<close>

definition early_pgtable_alloc :: "image \<Rightarrow> mmu \<Rightarrow> (mmu \<times> u64) option" where
  "early_pgtable_alloc im s =
     (if early_pgtables_used s < EARLY_PGTABLES
      then Some (s\<lparr>early_pgtables_used := early_pgtables_used s + 1\<rparr>, early_pgtables im + of_nat (early_pgtables_used s * 4096))
      else None)"

text \<open>An entry that is still zero gets a fresh table.\<close>

definition fill_entry :: "image \<Rightarrow> u64 \<Rightarrow> mmu \<Rightarrow> mmu option" where
  "fill_entry im p s =
     (if entries s p = 0 then do {
        (s, table) \<leftarrow> early_pgtable_alloc im s;
        Some (s\<lparr>entries := (entries s)(p := table OR PMD_TYPE_TABLE)\<rparr>)
      }
      else Some s)"

definition walk_to_pte :: "image \<Rightarrow> u64 \<Rightarrow> u64 \<Rightarrow> mmu \<Rightarrow> (mmu \<times> u64) option" where
  "walk_to_pte im pgdir address s = do {
     let pgdp = pgdir + 8 * pgd_index address;
     s \<leftarrow> fill_entry im pgdp s;
     let pmdp = (entries s pgdp AND PTE_ADDR_MASK) + 8 * pmd_index address;
     s \<leftarrow> fill_entry im pmdp s;
     Some (s, (entries s pmdp AND PTE_ADDR_MASK) + 8 * pte_index address)
   }"

partial_function (option) create_pgd_loop :: "image \<Rightarrow> u64 \<Rightarrow> u64 \<Rightarrow> u64 \<Rightarrow> u64 \<Rightarrow> u64 \<Rightarrow> u64 \<Rightarrow> mmu \<Rightarrow> mmu option" where
  "create_pgd_loop im pgdir phys virt sz prot offset s =
     (if offset < sz then do {
        (s, ptep) \<leftarrow> walk_to_pte im pgdir (virt + offset) s;
        create_pgd_loop im pgdir phys virt sz prot (offset + PAGE_SIZE) (s\<lparr>entries := (entries s)(ptep := (phys + offset) OR prot)\<rparr>)
      }
      else Some s)"

definition create_pgd_mapping :: "image \<Rightarrow> u64 \<Rightarrow> u64 \<Rightarrow> u64 \<Rightarrow> u64 \<Rightarrow> u64 \<Rightarrow> mmu \<Rightarrow> mmu option" where
  "create_pgd_mapping im pgdir phys virt sz prot s = create_pgd_loop im pgdir phys virt sz prot 0 s"

definition map_kernel_segment :: "image \<Rightarrow> u64 \<Rightarrow> u64 \<Rightarrow> u64 \<Rightarrow> mmu \<Rightarrow> mmu option" where
  "map_kernel_segment im start end_addr prot s =
     create_pgd_mapping im (swapper_pg_dir im) start (kva start) (end_addr - start) prot s"

text \<open>The loop of \<^verbatim>\<open>mmu_init\<close> over the application slots.\<close>

partial_function (option) map_slots :: "image \<Rightarrow> u64 \<Rightarrow> mmu \<Rightarrow> mmu option" where
  "map_slots im slot s =
     (if slot < APP_FIRST + of_nat APP_COUNT * APP_SLOT_SIZE then do {
        let stack = slot + APP_SLOT_SIZE - APP_STACK_SIZE;
        s \<leftarrow> create_pgd_mapping im (user_pg_dir im) slot slot APP_IMAGE_SIZE PAGE_READONLY_EXEC s;
        s \<leftarrow> create_pgd_mapping im (user_pg_dir im) stack stack APP_STACK_SIZE PAGE_SHARED s;
        map_slots im (slot + APP_SLOT_SIZE) s
      }
      else Some s)"

definition mmu_init :: "image \<Rightarrow> mmu \<Rightarrow> mmu option" where
  "mmu_init im s = do {
     s \<leftarrow> create_pgd_mapping im (swapper_pg_dir im) PHYS_OFFSET PAGE_OFFSET RAM_SIZE PAGE_KERNEL s;
     s \<leftarrow> map_kernel_segment im (text_start im) (text_end im) PAGE_KERNEL_ROX s;
     s \<leftarrow> map_kernel_segment im (rodata_start im) (rodata_end im) PAGE_KERNEL_RO s;
     s \<leftarrow> create_pgd_mapping im (swapper_pg_dir im) 0x08000000 (IO_ADDRESS 0x08000000) 0x10000 PROT_DEVICE_nGnRnE s;
     s \<leftarrow> create_pgd_mapping im (swapper_pg_dir im) 0x080a0000 (IO_ADDRESS 0x080a0000) 0x20000 PROT_DEVICE_nGnRnE s;
     s \<leftarrow> create_pgd_mapping im (swapper_pg_dir im) 0x09000000 (IO_ADDRESS 0x09000000) PAGE_SIZE PROT_DEVICE_nGnRnE s;
     s \<leftarrow> map_slots im APP_FIRST s;
     let s = s\<lparr>entries := (entries s)(idmap_pg_dir im + 8 * pgd_index PHYS_OFFSET :=
               entries s (swapper_pg_dir im + 8 * pgd_index PAGE_OFFSET))\<rparr>;
     let s = s\<lparr>mair_el1 := MAIR 0x00 MT_DEVICE_nGnRnE OR MAIR 0x44 MT_NORMAL_NC\<rparr>;
     let s = s\<lparr>tcr_el1 := 25 OR push_bit 12 3 OR push_bit 16 25 OR push_bit 28 3 OR push_bit 30 2\<rparr>;
     let s = s\<lparr>ttbr0_el1 := idmap_pg_dir im\<rparr>;
     let s = s\<lparr>ttbr1_el1 := swapper_pg_dir im\<rparr>;
     Some (s\<lparr>sctlr_el1 := (sctlr_el1 s AND NOT (push_bit 1 1 OR push_bit 2 1 OR push_bit 12 1 OR push_bit 19 1)) OR 1\<rparr>)
   }"

text \<open>The symbol \<^verbatim>\<open>user_pg_dir\<close> is a virtual address by then.\<close>

definition cpu_uninstall_idmap :: "image \<Rightarrow> mmu \<Rightarrow> mmu" where
  "cpu_uninstall_idmap im s = s\<lparr>ttbr0_el1 := kpa (kva (user_pg_dir im))\<rparr>"

section \<open>The translation\<close>

text \<open>
  What the hardware does with the tables, for the 4 KiB granule, three levels and 39-bit addresses in both halves that \<^verbatim>\<open>mmu_init\<close>
  configures: the level of the descriptor the walk ends with and the descriptor, or \<open>None\<close> for a translation fault. Descriptors with type 1 are
  blocks at levels 1 and 2 and reserved at level 3.
\<close>

definition hw_walk :: "(u64 \<Rightarrow> u64) \<Rightarrow> u64 \<Rightarrow> u64 \<Rightarrow> (nat \<times> u64) option" where
  "hw_walk m root va = (
     let d1 = m (root + 8 * (drop_bit 30 va AND 511)) in
     if d1 AND 3 = 1 then Some (1, d1) else if d1 AND 3 \<noteq> 3 then None
     else let d2 = m ((d1 AND 0x0000fffffffff000) + 8 * (drop_bit 21 va AND 511)) in
     if d2 AND 3 = 1 then Some (2, d2) else if d2 AND 3 \<noteq> 3 then None
     else let d3 = m ((d2 AND 0x0000fffffffff000) + 8 * (drop_bit 12 va AND 511)) in
     if d3 AND 3 \<noteq> 3 then None else Some (3, d3))"

definition translate :: "mmu \<Rightarrow> u64 \<Rightarrow> (nat \<times> u64) option" where
  "translate s va =
     (if drop_bit 39 va = 0 then hw_walk (entries s) (ttbr0_el1 s) va
      else if drop_bit 39 va = 0x1ffffff then hw_walk (entries s) (ttbr1_el1 s) va
      else None)"

text \<open>What a page descriptor permits at the two exception levels. A page that EL0 can write is never executable at EL1.\<close>

definition el0_read :: "u64 \<Rightarrow> bool" where "el0_read d \<longleftrightarrow> bit d 6"
definition el0_write :: "u64 \<Rightarrow> bool" where "el0_write d \<longleftrightarrow> bit d 6 \<and> \<not> bit d 7"
definition el0_exec :: "u64 \<Rightarrow> bool" where "el0_exec d \<longleftrightarrow> \<not> bit d 54"
definition el1_write :: "u64 \<Rightarrow> bool" where "el1_write d \<longleftrightarrow> \<not> bit d 7"
definition el1_exec :: "u64 \<Rightarrow> bool" where "el1_exec d \<longleftrightarrow> \<not> bit d 53 \<and> \<not> el0_write d"
definition output_addr :: "u64 \<Rightarrow> u64" where "output_addr d = d AND 0x0000fffffffff000"

end
