(* ===== verification/Mmu_Tables.thy ===== *)
theory Mmu_Tables
  imports Mmu
begin

text \<open>
  The tables as a tree. A table is named by the entry that refers to it: \<open>(r, i, None)\<close> is the second-level table
  of entry \<open>i\<close> of the directory \<open>r\<close>, and \<open>(r, i, Some j)\<close> the third-level table of entry \<open>j\<close> of that table. The ghost
  \<open>T\<close> gives the number of every table that exists, and \<open>M\<close> the page descriptors by directory and virtual page number.
\<close>

unbundle bit_operations_syntax

section \<open>Addresses of entries\<close>

definition frame :: "u64 \<Rightarrow> bool" where
  "frame b \<longleftrightarrow> 4096 dvd unat b \<and> unat b < 2 ^ 48"

definition entry :: "u64 \<Rightarrow> nat \<Rightarrow> u64" where
  "entry b e = b + 8 * of_nat e"

lemma unat_entry: "frame b \<Longrightarrow> e < 512 \<Longrightarrow> unat (entry b e) = unat b + 8 * e"
proof -
  assume b: "frame b" and e: "e < 512"
  have "8 * of_nat e = (of_nat (8 * e) :: u64)" by simp
  moreover have "unat (of_nat (8 * e) :: u64) = 8 * e" using e by (simp add: unat_of_nat del: of_nat_mult)
  ultimately have "unat (8 * of_nat e :: u64) = 8 * e" by simp
  then show ?thesis using b e unfolding entry_def by (subst unat_add_nowrap) (simp_all add: frame_def)
qed

lemma entry_inj:
  assumes "frame b" "frame c" "e < 512" "f < 512"
  shows "entry b e = entry c f \<longleftrightarrow> b = c \<and> e = f"
proof
  assume "entry b e = entry c f"
  then have "unat (entry b e) = unat (entry c f)" by simp
  then have eq: "unat b + 8 * e = unat c + 8 * f" unfolding unat_entry [OF assms(1,3)] unat_entry [OF assms(2,4)] .
  obtain x y where xy: "unat b = 4096 * x" "unat c = 4096 * y" using assms(1,2) by (auto simp: frame_def elim!: dvdE)
  have "(4096 * x + 8 * e) div 4096 = x" "(4096 * y + 8 * f) div 4096 = y" using assms(3,4) by simp_all
  then have "x = y" using eq xy by simp
  then show "b = c \<and> e = f" using eq xy by (simp add: word_unat_eq_iff)
qed simp

lemma frame_low: "frame b \<Longrightarrow> n < 12 \<Longrightarrow> \<not> bit b n"
proof -
  assume b: "frame b" and n: "n < 12"
  have "(2 :: nat) ^ Suc n dvd 2 ^ 12" using n by (intro le_imp_power_dvd) simp
  then have "2 ^ Suc n dvd unat b" using b dvd_trans [of "2 ^ Suc n" 4096 "unat b"] by (simp add: frame_def)
  then have "even (unat b div 2 ^ n)" by (auto elim!: dvdE simp: mult.assoc mult.left_commute [of 2])
  then show "\<not> bit b n" by (simp add: bit_u64_iff)
qed

lemma frame_high: "frame b \<Longrightarrow> bit b n \<Longrightarrow> n < 48"
proof (rule ccontr)
  assume b: "frame b" "bit b n" and "\<not> n < 48"
  then have "(2 :: nat) ^ 48 \<le> 2 ^ n" by (intro power_increasing) simp_all
  then have "unat b div 2 ^ n = 0" using b(1) by (simp add: frame_def)
  then show False using b(2) by (simp add: bit_u64_iff)
qed

lemma bit_addr_mask: "bit (0x0000fffffffff000 :: u64) n \<longleftrightarrow> 12 \<le> n \<and> n < 48"
proof -
  have eq: "(0x0000fffffffff000 :: u64) = push_bit 12 (mask 36)" by (simp add: mask_eq_exp_minus_1 push_bit_eq_mult)
  show ?thesis unfolding eq bit_push_bit_iff bit_mask_iff by auto
qed

lemma bit_three: "bit (3 :: u64) n \<longleftrightarrow> n < 2"
proof -
  have eq: "(3 :: u64) = mask 2" by (simp add: mask_eq_exp_minus_1)
  show ?thesis unfolding eq bit_mask_iff by auto
qed

lemma descriptor_fields:
  assumes "frame b"
  shows "(b OR 3) AND 0x0000fffffffff000 = b" "(b OR 3) AND 3 = 3" "b OR 3 \<noteq> 0"
proof -
  show "(b OR 3) AND 0x0000fffffffff000 = b"
  proof (rule bit_word_eqI)
    fix n assume "n < LENGTH(64)"
    show "bit ((b OR 3) AND 0x0000fffffffff000) n \<longleftrightarrow> bit b n"
      using frame_low [OF assms, of n] frame_high [OF assms, of n]
      unfolding bit_and_iff bit_or_iff bit_addr_mask bit_three by force
  qed
  show low: "(b OR 3) AND 3 = 3" by (simp add: bit.conj_disj_distrib2)
  show "b OR 3 \<noteq> 0"
  proof
    assume "b OR 3 = 0"
    with low have "(0 :: u64) AND 3 = 3" by (simp only:)
    then show False by simp
  qed
qed

section \<open>The tree\<close>

type_synonym owner = "u64 \<times> nat \<times> nat option"

definition tab :: "image \<Rightarrow> nat \<Rightarrow> u64" where
  "tab im k = early_pgtables im + of_nat (k * 4096)"

definition roots :: "image \<Rightarrow> u64 set" where
  "roots im = {swapper_pg_dir im, user_pg_dir im}"

definition tables_ok :: "image \<Rightarrow> bool" where
  "tables_ok im \<longleftrightarrow>
     frame (swapper_pg_dir im) \<and> frame (idmap_pg_dir im) \<and> frame (user_pg_dir im) \<and>
     frame (early_pgtables im) \<and> unat (early_pgtables im) + 70 * 4096 \<le> 2 ^ 48 \<and>
     distinct [swapper_pg_dir im, idmap_pg_dir im, user_pg_dir im] \<and>
     (\<forall>b\<in>{swapper_pg_dir im, idmap_pg_dir im, user_pg_dir im}. \<forall>k<70. b \<noteq> tab im k)"

text \<open>The tables the kernel needs: 1 + 64 for the linear map, 1 + 2 for the devices, 1 + 1 for the applications.\<close>

definition need :: "image \<Rightarrow> owner set" where
  "need im =
     {(swapper_pg_dir im, 256, None), (swapper_pg_dir im, 0, None), (user_pg_dir im, 1, None),
      (swapper_pg_dir im, 0, Some 64), (swapper_pg_dir im, 0, Some 72), (user_pg_dir im, 1, Some 8)} \<union>
     (\<lambda>j. (swapper_pg_dir im, 256, Some j)) ` {..<64}"

definition vpn :: "nat \<Rightarrow> nat \<Rightarrow> nat \<Rightarrow> nat" where
  "vpn i j e = (i * 512 + j) * 512 + e"

definition tlink :: "image \<Rightarrow> (owner \<rightharpoonup> nat) \<Rightarrow> owner \<Rightarrow> u64" where
  "tlink im T o' = (case T o' of None \<Rightarrow> 0 | Some k \<Rightarrow> tab im k OR 3)"

text \<open>Where the entry for a table is.\<close>

fun loc :: "image \<Rightarrow> (owner \<rightharpoonup> nat) \<Rightarrow> owner \<Rightarrow> u64 option" where
  "loc im T (r, i, None) = (if r \<in> roots im \<and> i < 512 then Some (entry r i) else None)"
| "loc im T (r, i, Some j) = (if j < 512 then map_option (\<lambda>k. entry (tab im k) j) (T (r, i, None)) else None)"

definition tree :: "image \<Rightarrow> mmu \<Rightarrow> (owner \<rightharpoonup> nat) \<Rightarrow> (u64 \<Rightarrow> nat \<Rightarrow> u64) \<Rightarrow> bool" where
  "tree im s T M \<longleftrightarrow>
     dom T \<subseteq> need im \<and> inj_on T (dom T) \<and> ran T = {..<early_pgtables_used s} \<and>
     (\<forall>o' a. loc im T o' = Some a \<longrightarrow> entries s a = tlink im T o') \<and>
     (\<forall>r i j k e. T (r, i, Some j) = Some k \<longrightarrow> e < 512 \<longrightarrow> entries s (entry (tab im k) e) = M r (vpn i j e)) \<and>
     (\<forall>k e. early_pgtables_used s \<le> k \<longrightarrow> k < 70 \<longrightarrow> e < 512 \<longrightarrow> entries s (entry (tab im k) e) = 0) \<and>
     (\<forall>e<512. entries s (entry (idmap_pg_dir im) e) = 0) \<and>
     (\<forall>r i j. T (r, i, Some j) \<noteq> None \<longrightarrow> T (r, i, None) \<noteq> None) \<and>
     (\<forall>r i j e. T (r, i, Some j) = None \<longrightarrow> i < 512 \<longrightarrow> j < 512 \<longrightarrow> e < 512 \<longrightarrow> M r (vpn i j e) = 0) \<and>
     (\<forall>r v. M r v = 0 \<or> M r v AND 3 = 3)"

lemma card_need: "tables_ok im \<Longrightarrow> finite (need im) \<and> card (need im) = 70"
proof -
  assume ok: "tables_ok im"
  have i: "inj_on (\<lambda>j. (swapper_pg_dir im, 256 :: nat, Some j)) {..<64 :: nat}" by (auto simp: inj_on_def)
  let ?A = "{(swapper_pg_dir im, 256 :: nat, None), (swapper_pg_dir im, 0, None), (user_pg_dir im, 1, None),
      (swapper_pg_dir im, 0, Some 64), (swapper_pg_dir im, 0, Some 72), (user_pg_dir im, 1, Some (8 :: nat))}"
  let ?B = "(\<lambda>j. (swapper_pg_dir im, 256 :: nat, Some j)) ` {..<64 :: nat}"
  have "card ?A = 6" using ok by (auto simp: tables_ok_def)
  moreover have "card ?B = 64" using card_image [OF i] by simp
  moreover have "?A \<inter> ?B = {}" by auto
  moreover have f: "finite ?A" "finite ?B" by simp_all
  ultimately have "card (?A \<union> ?B) = 70" using card_Un_disjoint [OF f] by simp
  then show ?thesis unfolding need_def using f by simp
qed

lemma EARLY_PGTABLES_eq: "EARLY_PGTABLES = 70"
  by (simp add: EARLY_PGTABLES_def PMD_SHIFT_def RAM_SIZE_def)

lemma frame_tab: "tables_ok im \<Longrightarrow> k < 70 \<Longrightarrow> frame (tab im k) \<and> unat (tab im k) = unat (early_pgtables im) + k * 4096"
proof -
  assume ok: "tables_ok im" and k: "k < 70"
  have "unat (of_nat (k * 4096) :: u64) = k * 4096" using k by (simp add: unat_of_nat del: of_nat_mult)
  then have u: "unat (tab im k) = unat (early_pgtables im) + k * 4096"
    using ok k unfolding tab_def by (subst unat_add_nowrap) (simp_all add: tables_ok_def)
  then show ?thesis using ok k by (auto simp: frame_def tables_ok_def)
qed

lemma tab_inj: "tables_ok im \<Longrightarrow> k < 70 \<Longrightarrow> l < 70 \<Longrightarrow> tab im k = tab im l \<longleftrightarrow> k = l"
proof
  assume ok: "tables_ok im" and k: "k < 70" and l: "l < 70" and "tab im k = tab im l"
  then have "unat (tab im k) = unat (tab im l)" by (simp only:)
  then show "k = l"
    unfolding conjunct2 [OF frame_tab [OF ok k]] conjunct2 [OF frame_tab [OF ok l]] by simp
qed simp

lemma root_frame: "tables_ok im \<Longrightarrow> r \<in> roots im \<Longrightarrow> frame r"
  by (auto simp: tables_ok_def roots_def)

lemma root_not_tab: "tables_ok im \<Longrightarrow> r \<in> roots im \<Longrightarrow> k < 70 \<Longrightarrow> r \<noteq> tab im k"
  by (auto simp: tables_ok_def roots_def)

lemma idmap_apart: "tables_ok im \<Longrightarrow> frame (idmap_pg_dir im) \<and> idmap_pg_dir im \<notin> roots im \<and> (\<forall>k<70. idmap_pg_dir im \<noteq> tab im k)"
  by (auto simp: tables_ok_def roots_def)

lemma treeD:
  assumes "tree im s T M"
  shows "dom T \<subseteq> need im" "inj_on T (dom T)" "ran T = {..<early_pgtables_used s}"
    "loc im T o' = Some a \<Longrightarrow> entries s a = tlink im T o'"
    "T (r, i, Some j) = Some k \<Longrightarrow> e < 512 \<Longrightarrow> entries s (entry (tab im k) e) = M r (vpn i j e)"
    "early_pgtables_used s \<le> k \<Longrightarrow> k < 70 \<Longrightarrow> e < 512 \<Longrightarrow> entries s (entry (tab im k) e) = 0"
    "e < 512 \<Longrightarrow> entries s (entry (idmap_pg_dir im) e) = 0"
    "T (r, i, Some j) \<noteq> None \<Longrightarrow> T (r, i, None) \<noteq> None"
    "T (r, i, Some j) = None \<Longrightarrow> i < 512 \<Longrightarrow> j < 512 \<Longrightarrow> e < 512 \<Longrightarrow> M r (vpn i j e) = 0"
    "M r v = 0 \<or> M r v AND 3 = 3"
proof -
  note t = assms [unfolded tree_def]
  show "dom T \<subseteq> need im" "inj_on T (dom T)" "ran T = {..<early_pgtables_used s}"
    "T (r, i, Some j) = Some k \<Longrightarrow> e < 512 \<Longrightarrow> entries s (entry (tab im k) e) = M r (vpn i j e)"
    "early_pgtables_used s \<le> k \<Longrightarrow> k < 70 \<Longrightarrow> e < 512 \<Longrightarrow> entries s (entry (tab im k) e) = 0"
    "e < 512 \<Longrightarrow> entries s (entry (idmap_pg_dir im) e) = 0"
    "T (r, i, Some j) = None \<Longrightarrow> i < 512 \<Longrightarrow> j < 512 \<Longrightarrow> e < 512 \<Longrightarrow> M r (vpn i j e) = 0"
    "M r v = 0 \<or> M r v AND 3 = 3"
    using t by simp_all
  show "loc im T o' = Some a \<Longrightarrow> entries s a = tlink im T o'" using t by metis
  show "T (r, i, Some j) \<noteq> None \<Longrightarrow> T (r, i, None) \<noteq> None" using t by metis
qed

text \<open>The pool never runs out, because the tables that exist are needed.\<close>

lemma tree_used:
  assumes ok: "tables_ok im" and t: "tree im s T M"
  shows "early_pgtables_used s \<le> 70" "o' \<in> need im \<Longrightarrow> T o' = None \<Longrightarrow> early_pgtables_used s < 70" "T o' = Some k \<Longrightarrow> k < 70"
proof -
  note n = card_need [OF ok]
  have fin: "finite (dom T)" using finite_subset [OF treeD(1) [OF t]] n by blast
  have "(\<lambda>x. the (T x)) ` dom T = ran T" unfolding ran_def dom_def image_def by force
  moreover have "inj_on (\<lambda>x. the (T x)) (dom T)"
  proof (rule inj_onI)
    fix x y assume xy: "x \<in> dom T" "y \<in> dom T" "the (T x) = the (T y)"
    then have "T x = T y" by (auto simp only: dom_def mem_Collect_eq not_None_eq option.sel)
    then show "x = y" using inj_onD [OF treeD(2) [OF t]] xy by blast
  qed
  ultimately have c: "card (dom T) = early_pgtables_used s" using card_image treeD(3) [OF t] by force
  show le: "early_pgtables_used s \<le> 70" using card_mono [of "need im" "dom T"] treeD(1) [OF t] n c by simp
  show "early_pgtables_used s < 70" if "o' \<in> need im" "T o' = None"
    using psubset_card_mono [of "need im" "dom T"] treeD(1) [OF t] n c that by auto
  show "k < 70" if "T o' = Some k" using ranI [of T o' k] that treeD(3) [OF t] le by auto
qed

end
