(* ===== verification/Mmu_Walk.thy ===== *)
theory Mmu_Walk
  imports Mmu_Tables
begin

text \<open>
  \<^verbatim>\<open>walk_to_pte\<close> and \<^verbatim>\<open>create_pgd_mapping\<close> on the tree: the walk adds the tables that are missing and returns the entry of the page, and a
  mapping changes the descriptors of its pages and nothing else.
\<close>

unbundle bit_operations_syntax

section \<open>A fresh table\<close>

lemma table_number: "tree im s T M \<Longrightarrow> T o' = Some k \<Longrightarrow> k < early_pgtables_used s"
  using ranI [of T o' k] treeD(3) [of im s T M] by auto

lemma table_inj: "tree im s T M \<Longrightarrow> T o1 = Some k \<Longrightarrow> T o2 = Some k \<Longrightarrow> o1 = o2"
  using inj_onD [OF treeD(2), of im s T M o1 o2] by (simp add: domI)

lemma loc_cases:
  assumes ok: "tables_ok im" and t: "tree im s T M" and a: "loc im T o' = Some a"
  obtains (root) r i where "o' = (r, i, None)" "a = entry r i" "frame r" "r \<in> roots im" "i < 512"
  | (table) r i j k where "o' = (r, i, Some j)" "T (r, i, None) = Some k" "a = entry (tab im k) j" "frame (tab im k)" "j < 512"
      "k < early_pgtables_used s" "k < 70"
proof (cases o')
  case (fields r i x)
  show thesis
  proof (cases x)
    case None
    then show thesis using root [of r i] a fields root_frame [OF ok, of r] by (auto split: if_splits)
  next
    case (Some j)
    then obtain k where k: "T (r, i, None) = Some k" "a = entry (tab im k) j" "j < 512" using a fields by (auto split: if_splits)
    then show thesis
      using table [of r i j k] fields Some tree_used(3) [OF ok t k(1)] frame_tab [OF ok, of k] table_number [OF t k(1)] by blast
  qed
qed

lemma loc_inj:
  assumes ok: "tables_ok im" and t: "tree im s T M" and a: "loc im T o1 = Some a" "loc im T o2 = Some a"
  shows "o1 = o2"
proof (rule loc_cases [OF ok t a(1)])
  fix r i assume 1: "o1 = (r, i, None)" "a = entry r i" "frame r" "r \<in> roots im" "i < 512"
  show ?thesis
  proof (rule loc_cases [OF ok t a(2)])
    fix r' i' assume "o2 = (r', i', None)" "a = entry r' i'" "frame r'" "i' < 512"
    then show ?thesis using 1 entry_inj by metis
  next
    fix r' i' j k assume 2: "a = entry (tab im k) j" "frame (tab im k)" "j < 512" "k < 70"
    then have "r = tab im k" using 1 entry_inj by metis
    then show ?thesis using root_not_tab [OF ok 1(4) 2(4)] by simp
  qed
next
  fix r i j k assume 1: "o1 = (r, i, Some j)" "T (r, i, None) = Some k" "a = entry (tab im k) j" "frame (tab im k)" "j < 512" "k < 70"
  show ?thesis
  proof (rule loc_cases [OF ok t a(2)])
    fix r' i' assume 2: "a = entry r' i'" "frame r'" "r' \<in> roots im" "i' < 512"
    then have "r' = tab im k" using 1 entry_inj by metis
    then show ?thesis using root_not_tab [OF ok 2(3) 1(6)] by simp
  next
    fix r' i' j' k' assume 2: "o2 = (r', i', Some j')" "T (r', i', None) = Some k'" "a = entry (tab im k') j'" "frame (tab im k')" "j' < 512" "k' < 70"
    then have "tab im k = tab im k'" "j = j'" using 1 entry_inj by metis+
    then have "k = k'" using tab_inj [OF ok 1(6) 2(6)] by simp
    then show ?thesis using table_inj [OF t 1(2), of "(r', i', None)"] 2(1,2) 1(1) \<open>j = j'\<close> by simp
  qed
qed

text \<open>The entry of a table is none of the other entries.\<close>

lemma loc_apart:
  assumes ok: "tables_ok im" and t: "tree im s T M" and a: "loc im T o' = Some a" and e: "e < 512"
  shows "early_pgtables_used s \<le> k \<Longrightarrow> k < 70 \<Longrightarrow> a \<noteq> entry (tab im k) e"
    "T (r, i, Some j) = Some k \<Longrightarrow> a \<noteq> entry (tab im k) e" "a \<noteq> entry (idmap_pg_dir im) e"
proof -
  have tab: "\<exists>r i. T (r, i, None) = Some k" if "a = entry (tab im k) e" "k < 70" for k
  proof (rule loc_cases [OF ok t a])
    fix r i assume 1: "a = entry r i" "frame r" "r \<in> roots im" "i < 512"
    then have "r = tab im k" using that frame_tab [OF ok that(2)] e entry_inj by metis
    then show ?thesis using root_not_tab [OF ok 1(3) that(2)] by simp
  next
    fix r i j l assume 1: "T (r, i, None) = Some l" "a = entry (tab im l) j" "frame (tab im l)" "j < 512" "l < 70"
    then have "tab im l = tab im k" using that frame_tab [OF ok that(2)] e entry_inj by metis
    then show ?thesis using tab_inj [OF ok 1(5) that(2)] 1(1) by auto
  qed
  show "a \<noteq> entry (tab im k) e" if "early_pgtables_used s \<le> k" "k < 70"
  proof
    assume "a = entry (tab im k) e"
    from tab [OF this that(2)] obtain r i where "T (r, i, None) = Some k" by blast
    then show False using table_number [OF t] that(1) by fastforce
  qed
  show "a \<noteq> entry (tab im k) e" if k: "T (r, i, Some j) = Some k"
  proof
    assume "a = entry (tab im k) e"
    from tab [OF this tree_used(3) [OF ok t k]] obtain r' i' where "T (r', i', None) = Some k" by blast
    then show False using table_inj [OF t k] by fastforce
  qed
  show "a \<noteq> entry (idmap_pg_dir im) e"
  proof
    note id = idmap_apart [OF ok]
    assume eq: "a = entry (idmap_pg_dir im) e"
    show False
    proof (rule loc_cases [OF ok t a])
      fix r i assume "a = entry r i" "frame r" "r \<in> roots im" "i < 512"
      then show False using eq id e entry_inj by metis
    next
      fix r i j l assume "a = entry (tab im l) j" "frame (tab im l)" "j < 512" "l < 70"
      then show False using eq id e entry_inj by metis
    qed
  qed
qed

lemma need_bounds: "(r, i, x) \<in> need im \<Longrightarrow> r \<in> roots im \<and> i < 512 \<and> (\<forall>j. x = Some j \<longrightarrow> j < 512)"
  by (auto simp: need_def roots_def)

lemma inj_on_map_upd:
  assumes "inj_on T (dom T)" "u \<notin> ran T"
  shows "inj_on (T(x \<mapsto> u)) (dom (T(x \<mapsto> u)))"
proof (rule inj_onI)
  fix y z assume yz: "y \<in> dom (T(x \<mapsto> u))" "z \<in> dom (T(x \<mapsto> u))" and eq: "(T(x \<mapsto> u)) y = (T(x \<mapsto> u)) z"
  have "T v \<noteq> Some u" for v using assms(2) by (auto simp: ran_def)
  then show "y = z" using yz eq inj_onD [OF assms(1), of y z] by (cases "y = x"; cases "z = x") (auto simp: eq_commute [of "Some u"])
qed

text \<open>A new table is linked from its place; the places it offers itself are still empty.\<close>

lemma tree_add_links:
  assumes ok: "tables_ok im" and t: "tree im s T M" and n: "o1 \<in> need im" "T o1 = None" and a: "loc im T o1 = Some a"
    and b: "loc im (T(o1 \<mapsto> u)) o2 = Some b" and u: "u = early_pgtables_used s" "u < 70"
  shows "((entries s)(a := tab im u OR 3)) b = tlink im (T(o1 \<mapsto> u)) o2"
proof -
  note d = treeD [OF t]
  obtain r i x where o2: "o2 = (r, i, x)" by (cases o2)
  show ?thesis
  proof (cases "\<exists>j. x = Some j \<and> (r, i, None) = o1")
    case True
    then obtain j where j: "x = Some j" "(r, i, None) = o1" by blast
    then have b': "b = entry (tab im u) j" "j < 512" using b o2 by (auto split: if_splits)
    have "T o2 = None" using d(8) [of r i j] n(2) j o2 by (cases "T o2") auto
    moreover have "o2 \<noteq> o1" using j o2 by auto
    moreover have "entries s b = 0" using d(6) [of u j] u b' by simp
    moreover have "a \<noteq> b" using loc_apart(1) [OF ok t a b'(2), of u] u b' by simp
    ultimately show ?thesis by (simp add: tlink_def)
  next
    case False
    then have old: "loc im T o2 = Some b" using b o2 by (cases x) (auto split: if_splits)
    show ?thesis
    proof (cases "o2 = o1")
      case True
      then show ?thesis using old a by (simp add: tlink_def)
    next
      case False
      then have "b \<noteq> a" using loc_inj [OF ok t old, of o1] a by auto
      then show ?thesis using d(4) [OF old] False by (simp add: tlink_def)
    qed
  qed
qed

lemma tree_add_leaf:
  assumes ok: "tables_ok im" and t: "tree im s T M" and n: "o1 \<in> need im" "T o1 = None" and a: "loc im T o1 = Some a"
    and k: "(T(o1 \<mapsto> u)) (r, i, Some j) = Some k" and e: "e < 512" and u: "u = early_pgtables_used s" "u < 70"
  shows "((entries s)(a := tab im u OR 3)) (entry (tab im k) e) = M r (vpn i j e)"
proof (cases "(r, i, Some j) = o1")
  case True
  then have "k = u" using k by auto
  moreover have "M r (vpn i j e) = 0" using treeD(9) [OF t, of r i j e] n True need_bounds [of r i "Some j" im] e by auto
  moreover have "a \<noteq> entry (tab im u) e" using loc_apart(1) [OF ok t a e, of u] u by simp
  ultimately show ?thesis using treeD(6) [OF t, of u e] u e by simp
next
  case False
  then have k': "T (r, i, Some j) = Some k" using k by (auto split: if_splits)
  then show ?thesis using loc_apart(2) [OF ok t a e k'] treeD(5) [OF t k' e] by simp
qed

lemma tree_add:
  assumes ok: "tables_ok im" and t: "tree im s T M" and n: "o1 \<in> need im" "T o1 = None" and a: "loc im T o1 = Some a"
  defines "u \<equiv> early_pgtables_used s"
  shows "tree im (s\<lparr>early_pgtables_used := u + 1, entries := (entries s)(a := tab im u OR 3)\<rparr>) (T(o1 \<mapsto> u)) M"
    (is "tree im ?s ?T M")
proof -
  note d = treeD [OF t]
  have u: "u < 70" using tree_used(2) [OF ok t n] by (simp add: u_def)
  have fields: "early_pgtables_used ?s = u + 1" by simp
  have dom: "dom ?T \<subseteq> need im" using d(1) n(1) by (simp add: subset_iff)
  have inj: "inj_on ?T (dom ?T)" using d(3) by (intro inj_on_map_upd [OF d(2)]) (simp add: u_def)
  have rn: "ran ?T = {..<u + 1}" unfolding ran_map_upd [of T o1, OF n(2)] d(3) u_def by (simp add: lessThan_Suc)
  have links: "entries ?s b = tlink im ?T o2" if "loc im ?T o2 = Some b" for o2 b
    using tree_add_links [OF ok t n a that u_def [THEN meta_eq_to_obj_eq] u] by simp
  have leaf: "entries ?s (entry (tab im k) e) = M r (vpn i j e)" if "?T (r, i, Some j) = Some k" "e < 512" for r i j k e
    using tree_add_leaf [OF ok t n a that u_def [THEN meta_eq_to_obj_eq] u] by simp
  have unused: "entries ?s (entry (tab im k) e) = 0" if "u + 1 \<le> k" "k < 70" "e < 512" for k e
    using d(6) [of k e] loc_apart(1) [OF ok t a that(3), of k] that by (simp add: u_def)
  have idm: "entries ?s (entry (idmap_pg_dir im) e) = 0" if "e < 512" for e
    using d(7) [OF that] loc_apart(3) [OF ok t a that] by simp
  have clos: "?T (r, i, None) \<noteq> None" if "?T (r, i, Some j) \<noteq> None" for r i j
    using a d(8) [of r i j] that by (cases "(r, i, Some j) = o1") (auto split: if_splits)
  have unm: "M r (vpn i j e) = 0" if "?T (r, i, Some j) = None" "i < 512" "j < 512" "e < 512" for r i j e
    using d(9) [OF _ that(2-4)] that(1) by (auto split: if_splits)
  show ?thesis unfolding tree_def fields
    using dom inj rn links leaf unused idm clos unm d(10) by blast
qed

section \<open>A page descriptor\<close>

lemma vpn_inj:
  assumes "j < 512" "e < 512" "j' < 512" "e' < 512" "vpn i j e = vpn i' j' e'"
  shows "i = i' \<and> j = j' \<and> e = e'"
proof -
  have m: "(x * 512 + e) mod 512 = e" "(x * 512 + e) div 512 = x" if "e < 512" for x e :: nat
    using that by simp_all
  have "e = e'" "i * 512 + j = i' * 512 + j'"
    using assms m [of e "i * 512 + j"] m [of e' "i' * 512 + j'"] unfolding vpn_def by metis+
  then show ?thesis using assms(1,3) m [of j i] m [of j' i'] by metis
qed

lemma tree_set:
  assumes ok: "tables_ok im" and t: "tree im s T M" and k: "T (r, i, Some j) = Some k" and e: "e < 512" and v: "v AND 3 = 3"
  shows "tree im (s\<lparr>entries := (entries s)(entry (tab im k) e := v)\<rparr>) T (M(r := (M r)(vpn i j e := v)))"
    (is "tree im ?s T ?M")
proof -
  note d = treeD [OF t]
  have b: "j < 512" using d(1) k need_bounds [of r i "Some j" im] by auto
  have k70: "k < 70" by (rule tree_used(3) [OF ok t k])
  have locs: "entries ?s a = tlink im T o2" if "loc im T o2 = Some a" for o2 a
    using d(4) [OF that] loc_apart(2) [OF ok t that e k] by simp
  have leaf: "entries ?s (entry (tab im k') e') = ?M r' (vpn i' j' e')" if k': "T (r', i', Some j') = Some k'" and e': "e' < 512" for r' i' j' k' e'
  proof -
    have k70': "k' < 70" by (rule tree_used(3) [OF ok t k'])
    have b': "j' < 512" using d(1) k' need_bounds [of r' i' "Some j'" im] by auto
    have "entry (tab im k') e' = entry (tab im k) e \<longleftrightarrow> k' = k \<and> e' = e"
      using entry_inj [of "tab im k'" "tab im k" e' e] frame_tab [OF ok k70] frame_tab [OF ok k70'] tab_inj [OF ok k70' k70] e e' by simp
    also have "\<dots> \<longleftrightarrow> r' = r \<and> vpn i' j' e' = vpn i j e"
      using vpn_inj [OF b' e' b e, of i' i] table_inj [OF t k', of "(r, i, Some j)"] k k' by auto
    finally show ?thesis using d(5) [OF k' e'] by auto
  qed
  have unused: "entries ?s (entry (tab im k') e') = 0" if "early_pgtables_used ?s \<le> k'" "k' < 70" "e' < 512" for k' e'
  proof -
    have "k' \<noteq> k" using that(1) table_number [OF t k] by simp
    then have "entry (tab im k') e' \<noteq> entry (tab im k) e"
      using entry_inj [of "tab im k'" "tab im k" e' e] frame_tab [OF ok k70] frame_tab [OF ok that(2)] tab_inj [OF ok that(2) k70] e that(3) by simp
    then show ?thesis using d(6) that by simp
  qed
  have idm: "entries ?s (entry (idmap_pg_dir im) e') = 0" if "e' < 512" for e'
    using d(7) [OF that] entry_inj [of "idmap_pg_dir im" "tab im k" e' e] idmap_apart [OF ok] frame_tab [OF ok k70] k70 e that by simp
  have unm: "?M r' (vpn i' j' e') = 0" if n: "T (r', i', Some j') = None" "i' < 512" "j' < 512" "e' < 512" for r' i' j' e'
    using d(9) [OF n] vpn_inj [OF n(3,4) b e, of i' i] n(1) k by auto
  have low: "?M r' w = 0 \<or> ?M r' w AND 3 = 3" for r' w using d(10) [of r' w] v by auto
  have same: "early_pgtables_used ?s = early_pgtables_used s" by simp
  show ?thesis unfolding tree_def
    using d(1,2,3,8) locs leaf unused idm unm low unfolding same by blast
qed

section \<open>The walk\<close>

lemma fill_entry_tree:
  assumes ok: "tables_ok im" and t: "tree im s T M" and n: "o1 \<in> need im" and a: "loc im T o1 = Some a"
  shows "\<exists>s' T' k. fill_entry im a s = Some s' \<and> tree im s' T' M \<and> T' o1 = Some k \<and> T \<subseteq>\<^sub>m T' \<and>
    entries s' a AND PTE_ADDR_MASK = tab im k"
proof (cases "T o1")
  case None
  let ?u = "early_pgtables_used s"
  have u: "?u < 70" by (rule tree_used(2) [OF ok t n None])
  have "entries s a = 0" using treeD(4) [OF t a] None by (simp add: tlink_def)
  then have "fill_entry im a s = Some (s\<lparr>early_pgtables_used := ?u + 1, entries := (entries s)(a := tab im ?u OR 3)\<rparr>)"
    using u by (simp add: fill_entry_def early_pgtable_alloc_def EARLY_PGTABLES_eq tab_def PMD_TYPE_TABLE_def)
  moreover have "T \<subseteq>\<^sub>m T(o1 \<mapsto> ?u)" using None by (auto simp: map_le_def)
  ultimately show ?thesis using tree_add [OF ok t n None a] descriptor_fields(1) [of "tab im ?u"] frame_tab [OF ok u]
    by (intro exI conjI) (auto simp: PTE_ADDR_MASK_def)
next
  case (Some k)
  have f: "frame (tab im k)" using frame_tab [OF ok tree_used(3) [OF ok t Some]] by blast
  have "entries s a = tab im k OR 3" using treeD(4) [OF t a] Some by (simp add: tlink_def)
  then have "fill_entry im a s = Some s" "entries s a AND PTE_ADDR_MASK = tab im k"
    using descriptor_fields [OF f] by (simp_all add: fill_entry_def PTE_ADDR_MASK_def)
  then show ?thesis using t Some by auto
qed

lemma walk_to_pte_tree:
  assumes ok: "tables_ok im" and t: "tree im s T M"
    and ix: "pgd_index a = of_nat i" "pmd_index a = of_nat j" "pte_index a = of_nat e"
    and n: "(r, i, None) \<in> need im" "(r, i, Some j) \<in> need im"
  shows "\<exists>s' T' k. walk_to_pte im r a s = Some (s', entry (tab im k) e) \<and> tree im s' T' M \<and> T' (r, i, Some j) = Some k"
proof -
  have "loc im T (r, i, None) = Some (entry r i)" using need_bounds [OF n(1)] by simp
  from fill_entry_tree [OF ok t n(1) this] obtain s1 T1 k1 where 1: "fill_entry im (entry r i) s = Some s1" "tree im s1 T1 M"
    "T1 (r, i, None) = Some k1" "entries s1 (entry r i) AND PTE_ADDR_MASK = tab im k1" by blast
  have "loc im T1 (r, i, Some j) = Some (entry (tab im k1) j)" using need_bounds [OF n(2)] 1(3) by simp
  from fill_entry_tree [OF ok 1(2) n(2) this] obtain s2 T2 k2 where 2: "fill_entry im (entry (tab im k1) j) s1 = Some s2" "tree im s2 T2 M"
    "T2 (r, i, Some j) = Some k2" "entries s2 (entry (tab im k1) j) AND PTE_ADDR_MASK = tab im k2" by blast
  show ?thesis using 1(1,4) 2 by (intro exI [of _ s2] exI [of _ T2] exI [of _ k2]) (simp add: walk_to_pte_def ix entry_def)
qed

end
