(* ===== verification/Mmu_Map.thy ===== *)
theory Mmu_Map
  imports Mmu_Walk
begin

text \<open>Mappings of ranges, and what the hardware finds in the tree.\<close>

unbundle bit_operations_syntax

section \<open>Virtual page numbers\<close>

definition vp :: "u64 \<Rightarrow> nat" where
  "vp a = unat a div 4096 mod 2 ^ 27"

lemma unat_index: "unat (drop_bit n a AND 511) = unat a div 2 ^ n mod 512" for a :: u64
proof -
  have "(511 :: u64) = mask 9" by (simp add: mask_eq_exp_minus_1)
  then have "drop_bit n a AND 511 = take_bit 9 (drop_bit n a)" by (simp only: take_bit_eq_mask)
  then have "unat (drop_bit n a AND 511) = take_bit 9 (drop_bit n (take_bit 64 (unat a)))"
    by (simp only: unsigned_take_bit_eq unsigned_drop_bit_eq len_bit0 len_num1) simp
  also have "take_bit 64 (unat a) = unat a" using u64_bound [of a] by (simp add: take_bit_nat_eq_self)
  finally show ?thesis by (simp add: take_bit_eq_mod drop_bit_eq_div)
qed

lemma word_of_index: "drop_bit n a AND 511 = of_nat (unat a div 2 ^ n mod 512)" for a :: u64
  unfolding word_unat_eq_iff unat_index by (simp add: unat_of_nat)

lemma mod_mult_div: "0 < b \<Longrightarrow> a mod (b * c) div b = a div b mod c" for a b c :: nat
  by (simp add: mod_mult2_eq)

lemma vp_bound: "vp a < 2 ^ 27"
  by (simp add: vp_def)

lemma vp_parts: "vp a div 2 ^ 18 = unat a div 2 ^ 30 mod 512" "vp a div 512 mod 512 = unat a div 2 ^ 21 mod 512"
  "vp a mod 512 = unat a div 2 ^ 12 mod 512"
proof -
  let ?x = "unat a div 4096"
  have e: "?x mod 2 ^ 27 = ?x mod (2 ^ 18 * 512)" "?x mod 2 ^ 27 = ?x mod (512 * 2 ^ 18)" by simp_all
  have "?x mod (2 ^ 18 * 512) div 2 ^ 18 = ?x div 2 ^ 18 mod 512" by (rule mod_mult_div) simp
  then show "vp a div 2 ^ 18 = unat a div 2 ^ 30 mod 512" unfolding vp_def e by (simp flip: div_mult2_eq)
  have "?x mod (512 * 2 ^ 18) div 512 = ?x div 512 mod 2 ^ 18" by (rule mod_mult_div) simp
  then show "vp a div 512 mod 512 = unat a div 2 ^ 21 mod 512" unfolding vp_def e(2) by (simp add: mod_mod_cancel flip: div_mult2_eq)
  show "vp a mod 512 = unat a div 2 ^ 12 mod 512" by (simp add: vp_def mod_mod_cancel)
qed

lemma index_vp:
  "pgd_index a = of_nat (vp a div 2 ^ 18)" "pmd_index a = of_nat (vp a div 512 mod 512)" "pte_index a = of_nat (vp a mod 512)"
  unfolding vp_parts word_of_index [symmetric]
  by (simp_all add: pgd_index_def pmd_index_def pte_index_def PGDIR_SHIFT_def PMD_SHIFT_def PAGE_SHIFT_def PTRS_PER_PGD_def PTRS_PER_PMD_def
      PTRS_PER_PTE_def)

lemma vpn_parts: "w < 2 ^ 27 \<Longrightarrow> vpn (w div 2 ^ 18) (w div 512 mod 512) (w mod 512) = w"
proof -
  have "w div 2 ^ 18 * 512 + w div 512 mod 512 = w div 512" using div_mult_mod_eq [of "w div 512" 512] by (simp flip: div_mult2_eq)
  then show ?thesis by (simp add: vpn_def)
qed

lemma vp_offset:
  assumes "vp a + n < 2 ^ 27"
  shows "vp (a + of_nat (n * 4096)) = vp a + n"
proof -
  have "unat (a + of_nat (n * 4096)) = (unat a + n * 4096) mod 2 ^ 64"
    by (simp add: unat_word_ariths unat_of_nat mod_simps del: of_nat_mult)
  then have "unat (a + of_nat (n * 4096)) div 4096 = (unat a + n * 4096) mod (4096 * 2 ^ 52) div 4096" by simp
  also have "\<dots> = (unat a div 4096 + n) mod 2 ^ 52" by (subst mod_mult_div) (simp_all add: add.commute)
  finally have "vp (a + of_nat (n * 4096)) = (unat a div 4096 + n) mod 2 ^ 27" by (simp add: vp_def mod_mod_cancel)
  also have "\<dots> = (vp a + n) mod 2 ^ 27" by (simp add: vp_def mod_simps)
  finally show ?thesis using assms by simp
qed

section \<open>Ranges\<close>

definition map_pages :: "(u64 \<Rightarrow> nat \<Rightarrow> u64) \<Rightarrow> u64 \<Rightarrow> u64 \<Rightarrow> u64 \<Rightarrow> nat \<Rightarrow> u64 \<Rightarrow> u64 \<Rightarrow> nat \<Rightarrow> u64" where
  "map_pages M r phys virt n prot =
     (\<lambda>r' w. if r' = r \<and> vp virt \<le> w \<and> w < vp virt + n then (phys + of_nat ((w - vp virt) * 4096)) OR prot else M r' w)"

lemma map_pages_Suc:
  "(map_pages M r phys virt n prot)(r := (map_pages M r phys virt n prot r)(vp virt + n := (phys + of_nat (n * 4096)) OR prot)) =
   map_pages M r phys virt (Suc n) prot"
  by (intro ext) (auto simp: map_pages_def)

definition needed :: "image \<Rightarrow> u64 \<Rightarrow> nat \<Rightarrow> bool" where
  "needed im r w \<longleftrightarrow> (r, w div 2 ^ 18, None) \<in> need im \<and> (r, w div 2 ^ 18, Some (w div 512 mod 512)) \<in> need im"

lemma or_type: "prot AND 3 = 3 \<Longrightarrow> (x OR prot) AND 3 = (3 :: u64)"
  by (simp add: bit.conj_disj_distrib2)

lemma create_pgd_loop_tree:
  assumes ok: "tables_ok im" and prot: "prot AND 3 = 3" and range: "vp virt + n \<le> 2 ^ 27"
    and sz: "\<And>i. i \<le> n \<Longrightarrow> i * 4096 < unat sz \<longleftrightarrow> i < n"
    and need: "\<And>w. vp virt \<le> w \<Longrightarrow> w < vp virt + n \<Longrightarrow> needed im r w"
  shows "i \<le> n \<Longrightarrow> tree im s T (map_pages M r phys virt i prot) \<Longrightarrow>
    \<exists>s' T'. create_pgd_loop im r phys virt sz prot (of_nat (i * 4096)) s = Some s' \<and> tree im s' T' (map_pages M r phys virt n prot)"
proof (induction "n - i" arbitrary: i s T)
  case 0
  then have i: "i = n" by simp
  have "unat (of_nat (i * 4096) :: u64) = i * 4096" using range i by (simp add: unat_of_nat del: of_nat_mult)
  then have "\<not> of_nat (i * 4096) < sz" using sz [of n] i by (simp add: word_less_nat_alt)
  then show ?case using 0 i by (subst create_pgd_loop.simps) auto
next
  case (Suc d)
  then have i: "i < n" by simp
  have "unat (of_nat (i * 4096) :: u64) = i * 4096" using range i by (simp add: unat_of_nat del: of_nat_mult)
  then have less: "of_nat (i * 4096) < sz" using sz [of i] i by (simp add: word_less_nat_alt)
  let ?a = "virt + of_nat (i * 4096)"
  have v: "vp ?a = vp virt + i" using vp_offset [of virt i] i range by simp
  have nd: "needed im r (vp ?a)" using need [of "vp ?a"] v i by simp
  let ?i = "vp ?a div 2 ^ 18" and ?j = "vp ?a div 512 mod 512" and ?e = "vp ?a mod 512"
  obtain s1 T1 k where w: "walk_to_pte im r ?a s = Some (s1, entry (tab im k) ?e)" "tree im s1 T1 (map_pages M r phys virt i prot)"
      "T1 (r, ?i, Some ?j) = Some k"
    using walk_to_pte_tree [OF ok Suc.prems(2) index_vp] nd unfolding needed_def by blast
  let ?v = "(phys + of_nat (i * 4096)) OR prot"
  let ?s = "s1\<lparr>entries := (entries s1)(entry (tab im k) ?e := ?v)\<rparr>"
  have "vpn ?i ?j ?e = vp virt + i" using vpn_parts [OF vp_bound, of ?a] v by simp
  then have t: "tree im ?s T1 (map_pages M r phys virt (Suc i) prot)"
    using tree_set [OF ok w(2,3), of ?e ?v] or_type [OF prot] by (simp add: map_pages_Suc del: of_nat_mult)
  have next_offset: "of_nat (i * 4096) + PAGE_SIZE = (of_nat (Suc i * 4096) :: u64)" by (simp add: PAGE_SIZE_def PAGE_SHIFT_def algebra_simps)
  have "create_pgd_loop im r phys virt sz prot (of_nat (i * 4096)) s = create_pgd_loop im r phys virt sz prot (of_nat (Suc i * 4096)) ?s"
    using less w(1) by (subst create_pgd_loop.simps) (simp add: next_offset del: of_nat_mult)
  then show ?case using Suc.hyps(1) [of "Suc i" ?s T1] Suc.hyps(2) i t by simp
qed

lemma create_pgd_mapping_tree:
  assumes "tables_ok im" "prot AND 3 = 3" "vp virt + n \<le> 2 ^ 27" "unat sz = n * 4096"
    and "\<And>w. vp virt \<le> w \<Longrightarrow> w < vp virt + n \<Longrightarrow> needed im r w" and t: "tree im s T M"
  shows "\<exists>s' T'. create_pgd_mapping im r phys virt sz prot s = Some s' \<and> tree im s' T' (map_pages M r phys virt n prot)"
proof -
  have "map_pages M r phys virt 0 prot = M" by (intro ext) (auto simp: map_pages_def)
  then show ?thesis
    using create_pgd_loop_tree [OF assms(1-3) _ assms(5), of sz 0 s T M phys] assms(4) t by (simp add: create_pgd_mapping_def)
qed

section \<open>The hardware walk\<close>

lemma hw_walk_tree:
  assumes ok: "tables_ok im" and t: "tree im s T M" and r: "r \<in> roots im"
    and m: "\<And>b e. frame b \<Longrightarrow> e < 512 \<Longrightarrow> b \<noteq> idmap_pg_dir im \<Longrightarrow> m (entry b e) = entries s (entry b e)"
  shows "hw_walk m r va = (if M r (vp va) = 0 then None else Some (3, M r (vp va)))"
proof -
  let ?i = "vp va div 2 ^ 18" and ?j = "vp va div 512 mod 512" and ?e = "vp va mod 512"
  have b: "?i < 512" "?j < 512" "?e < 512" using vp_bound [of va] by auto
  have ix: "drop_bit 30 va AND 511 = of_nat ?i" "drop_bit 21 va AND 511 = of_nat ?j" "drop_bit 12 va AND 511 = of_nat ?e"
    unfolding word_of_index vp_parts by simp_all
  have v: "vpn ?i ?j ?e = vp va" by (rule vpn_parts [OF vp_bound])
  have rf: "frame r" "r \<noteq> idmap_pg_dir im" using root_frame [OF ok r] idmap_apart [OF ok] r by auto
  have d1: "m (r + 8 * (drop_bit 30 va AND 511)) = tlink im T (r, ?i, None)"
    using m [OF rf(1) b(1) rf(2)] treeD(4) [OF t, of "(r, ?i, None)"] r b(1) unfolding ix by (simp add: entry_def)
  show ?thesis
  proof (cases "T (r, ?i, None)")
    case None
    then have "T (r, ?i, Some ?j) = None" using treeD(8) [OF t, of r ?i ?j] by (cases "T (r, ?i, Some ?j)") auto
    then have "M r (vp va) = 0" using treeD(9) [OF t _ b, of r] v by simp
    then show ?thesis using d1 None unfolding hw_walk_def by (simp add: tlink_def)
  next
    case (Some k)
    have k: "k < 70" by (rule tree_used(3) [OF ok t Some])
    have f: "frame (tab im k)" "tab im k \<noteq> idmap_pg_dir im" using frame_tab [OF ok k] idmap_apart [OF ok] k by auto
    have d2: "m (tab im k + 8 * (drop_bit 21 va AND 511)) = tlink im T (r, ?i, Some ?j)"
      using m [OF f(1) b(2) f(2)] treeD(4) [OF t, of "(r, ?i, Some ?j)"] Some b(2) unfolding ix by (simp add: entry_def)
    show ?thesis
    proof (cases "T (r, ?i, Some ?j)")
      case None
      then have "M r (vp va) = 0" using treeD(9) [OF t _ b, of r] v by simp
      then show ?thesis using d1 d2 None Some descriptor_fields [OF f(1)] unfolding hw_walk_def by (simp add: tlink_def)
    next
      case (Some l)
      have l: "l < 70" by (rule tree_used(3) [OF ok t Some])
      have g: "frame (tab im l)" "tab im l \<noteq> idmap_pg_dir im" using frame_tab [OF ok l] idmap_apart [OF ok] l by auto
      have d3: "m (tab im l + 8 * (drop_bit 12 va AND 511)) = M r (vp va)"
        using m [OF g(1) b(3) g(2)] treeD(5) [OF t Some b(3)] v unfolding ix by (simp add: entry_def)
      show ?thesis
        using d1 d2 d3 Some \<open>T (r, ?i, None) = Some k\<close> descriptor_fields [OF f(1)] descriptor_fields [OF g(1)] treeD(10) [OF t, of r "vp va"]
        unfolding hw_walk_def by (auto simp: tlink_def)
    qed
  qed
qed

end
