(* ===== verification/Mmu_Init.thy ===== *)
theory Mmu_Init
  imports Mmu_Map
begin

text \<open>\<^verbatim>\<open>mmu_init\<close> as a whole: the descriptors it leaves, by directory and virtual page number.\<close>

unbundle bit_operations_syntax

section \<open>The image\<close>

text \<open>
  What the linker script and \<^verbatim>\<open>alignas\<close> guarantee: the tables are pages of their own, and the segments are whole pages of RAM below the application slots, text before
  read-only data. The start-up code has cleared the tables.
\<close>

definition layout_ok :: "image \<Rightarrow> bool" where
  "layout_ok im \<longleftrightarrow> tables_ok im \<and>
     4096 dvd unat (text_start im) \<and> 4096 dvd unat (text_end im) \<and> 4096 dvd unat (rodata_start im) \<and> 4096 dvd unat (rodata_end im) \<and>
     0x40000000 \<le> unat (text_start im) \<and> unat (text_start im) \<le> unat (text_end im) \<and> unat (text_end im) \<le> unat (rodata_start im) \<and>
     unat (rodata_start im) \<le> unat (rodata_end im) \<and> unat (rodata_end im) \<le> 0x41000000"

definition cleared :: "image \<Rightarrow> mmu \<Rightarrow> bool" where
  "cleared im s \<longleftrightarrow> early_pgtables_used s = 0 \<and>
     (\<forall>b e. (b \<in> {swapper_pg_dir im, idmap_pg_dir im, user_pg_dir im} \<or> (\<exists>k<70. b = tab im k)) \<longrightarrow> e < 512 \<longrightarrow> entries s (entry b e) = 0)"

lemma cleared_tree:
  assumes "tables_ok im" "cleared im s"
  shows "tree im s Map.empty (\<lambda>_ _. 0)"
proof -
  have "entries s a = 0" if "loc im Map.empty o' = Some a" for o' a
  proof -
    obtain r i x where o': "o' = (r, i, x)" by (cases o')
    then show ?thesis using that assms(2) by (cases x) (auto simp: cleared_def roots_def split: if_splits)
  qed
  moreover have "entries s (entry (tab im k) e) = 0" if "k < 70" "e < 512" for k e using assms(2) that unfolding cleared_def by blast
  moreover have "entries s (entry (idmap_pg_dir im) e) = 0" if "e < 512" for e using assms(2) that unfolding cleared_def by blast
  moreover have "early_pgtables_used s = 0" using assms(2) by (simp add: cleared_def)
  ultimately show ?thesis by (simp add: tree_def tlink_def)
qed

section \<open>The regions\<close>

lemma needed_linear: "0x4000000 \<le> w \<Longrightarrow> w < 0x4008000 \<Longrightarrow> needed im (swapper_pg_dir im) w"
proof -
  assume w: "0x4000000 \<le> w" "w < 0x4008000"
  have d: "0x20000 \<le> w div 512" "w div 512 < 0x20000 + 64" using w by simp_all
  define j where "j = w div 512 - 0x20000"
  then have "w div 512 = 256 * 512 + j" "j < 64" using d by linarith+
  then have "w div 512 mod 512 = j mod 512" by (metis mod_mult_self3)
  then have "w div 512 mod 512 < 64" using \<open>j < 64\<close> by simp
  moreover have "w div 2 ^ 18 = 256" using w by (intro div_nat_eqI) simp_all
  ultimately show ?thesis by (simp add: needed_def need_def)
qed

lemma needed_io: "0x8000 \<le> w \<Longrightarrow> w < 0x8200 \<Longrightarrow> needed im (swapper_pg_dir im) w" "0x9000 \<le> w \<Longrightarrow> w < 0x9001 \<Longrightarrow> needed im (swapper_pg_dir im) w"
proof -
  assume w: "0x8000 \<le> w" "w < 0x8200"
  have "w div 2 ^ 18 = 0" "w div 512 = 64" using w by (auto intro: div_nat_eqI)
  then show "needed im (swapper_pg_dir im) w" by (simp add: needed_def need_def)
next
  assume "0x9000 \<le> w" "w < 0x9001"
  then have "w = 0x9000" by simp
  then show "needed im (swapper_pg_dir im) w" by (simp add: needed_def need_def)
qed

lemma needed_user: "0x41000 \<le> w \<Longrightarrow> w < 0x41200 \<Longrightarrow> needed im (user_pg_dir im) w"
proof -
  assume w: "0x41000 \<le> w" "w < 0x41200"
  have "w div 2 ^ 18 = 1" "w div 512 = 520" using w by (auto intro: div_nat_eqI)
  then show "needed im (user_pg_dir im) w" by (simp add: needed_def need_def)
qed

lemmas prot_defs =
  PAGE_KERNEL_def PAGE_KERNEL_RO_def PAGE_KERNEL_ROX_def PAGE_SHARED_def PAGE_READONLY_EXEC_def PROT_DEVICE_nGnRnE_def PROT_NORMAL_NC_def
  PAGE_DEFAULT_def PROT_DEFAULT_def PTE_TYPE_PAGE_def PTE_AF_def PTE_SHARED_def PTE_PXN_def PTE_UXN_def PTE_ATTRINDX_def PTE_USER_def
  PTE_RDONLY_def MT_DEVICE_nGnRnE_def MT_NORMAL_NC_def

lemma prot_values:
  "PAGE_KERNEL = 0x60000000000707" "PAGE_KERNEL_RO = 0x60000000000787" "PAGE_KERNEL_ROX = 0x40000000000787"
  "PAGE_SHARED = 0x60000000000747" "PAGE_READONLY_EXEC = 0x200000000007c7" "PROT_DEVICE_nGnRnE = 0x60000000000703"
  by (simp_all add: prot_defs)

definition slot_map :: "image \<Rightarrow> u64 \<Rightarrow> (u64 \<Rightarrow> nat \<Rightarrow> u64) \<Rightarrow> u64 \<Rightarrow> nat \<Rightarrow> u64" where
  "slot_map im slot M =
     map_pages (map_pages M (user_pg_dir im) slot slot 16 PAGE_READONLY_EXEC) (user_pg_dir im) (slot + 0x1c000) (slot + 0x1c000) 4 PAGE_SHARED"

definition kernel_map :: "image \<Rightarrow> u64 \<Rightarrow> nat \<Rightarrow> u64" where
  "kernel_map im = (
     let sw = swapper_pg_dir im;
         M = map_pages (\<lambda>_ _. 0) sw PHYS_OFFSET PAGE_OFFSET 0x8000 PAGE_KERNEL;
         M = map_pages M sw (text_start im) (kva (text_start im)) ((unat (text_end im) - unat (text_start im)) div 4096) PAGE_KERNEL_ROX;
         M = map_pages M sw (rodata_start im) (kva (rodata_start im)) ((unat (rodata_end im) - unat (rodata_start im)) div 4096) PAGE_KERNEL_RO;
         M = map_pages M sw 0x08000000 (IO_ADDRESS 0x08000000) 16 PROT_DEVICE_nGnRnE;
         M = map_pages M sw 0x080a0000 (IO_ADDRESS 0x080a0000) 32 PROT_DEVICE_nGnRnE
     in map_pages M sw 0x09000000 (IO_ADDRESS 0x09000000) 1 PROT_DEVICE_nGnRnE)"

definition final_map :: "image \<Rightarrow> u64 \<Rightarrow> nat \<Rightarrow> u64" where
  "final_map im = slot_map im 0x41040000 (slot_map im 0x41020000 (slot_map im 0x41000000 (kernel_map im)))"

lemma slot_tree:
  assumes ok: "tables_ok im" and t: "tree im s T M" and w: "0x41000 \<le> vp slot" "vp slot + 32 \<le> 0x41200"
  shows "\<exists>s1 s2 T'. create_pgd_mapping im (user_pg_dir im) slot slot APP_IMAGE_SIZE PAGE_READONLY_EXEC s = Some s1 \<and>
    create_pgd_mapping im (user_pg_dir im) (slot + APP_SLOT_SIZE - APP_STACK_SIZE) (slot + APP_SLOT_SIZE - APP_STACK_SIZE) APP_STACK_SIZE PAGE_SHARED s1 = Some s2 \<and>
    tree im s2 T' (slot_map im slot M)"
proof -
  have n: "needed im (user_pg_dir im) v" if "vp slot \<le> v" "v < vp slot + 32" for v using needed_user [of v im] that w by simp
  have "\<exists>s' T'. create_pgd_mapping im (user_pg_dir im) slot slot APP_IMAGE_SIZE PAGE_READONLY_EXEC s = Some s' \<and>
      tree im s' T' (map_pages M (user_pg_dir im) slot slot 16 PAGE_READONLY_EXEC)"
    by (rule create_pgd_mapping_tree [OF ok _ _ _ _ t]) (use w n in \<open>simp_all add: prot_values APP_IMAGE_SIZE_def\<close>)
  then obtain s1 T1 where 1: "create_pgd_mapping im (user_pg_dir im) slot slot APP_IMAGE_SIZE PAGE_READONLY_EXEC s = Some s1"
      "tree im s1 T1 (map_pages M (user_pg_dir im) slot slot 16 PAGE_READONLY_EXEC)" by blast
  have v: "vp (slot + 0x1c000) = vp slot + 28" using vp_offset [of slot 28] w by simp
  have "\<exists>s' T'. create_pgd_mapping im (user_pg_dir im) (slot + 0x1c000) (slot + 0x1c000) APP_STACK_SIZE PAGE_SHARED s1 = Some s' \<and>
      tree im s' T' (map_pages (map_pages M (user_pg_dir im) slot slot 16 PAGE_READONLY_EXEC) (user_pg_dir im) (slot + 0x1c000) (slot + 0x1c000) 4 PAGE_SHARED)"
    by (rule create_pgd_mapping_tree [OF ok _ _ _ _ 1(2)]) (use w n v in \<open>simp_all add: prot_values APP_STACK_SIZE_def\<close>)
  moreover have "slot + APP_SLOT_SIZE - APP_STACK_SIZE = slot + 0x1c000" by (simp add: APP_SLOT_SIZE_def APP_STACK_SIZE_def)
  ultimately show ?thesis unfolding slot_map_def using 1(1) by metis
qed

lemma map_slots_tree:
  assumes ok: "tables_ok im" and t: "tree im s T M"
  shows "\<exists>s' T'. map_slots im APP_FIRST s = Some s' \<and>
    tree im s' T' (slot_map im 0x41040000 (slot_map im 0x41020000 (slot_map im 0x41000000 M)))"
proof -
  have step: "\<exists>s2 T'. map_slots im slot s = map_slots im (slot + 0x20000) s2 \<and> tree im s2 T' (slot_map im slot M)"
    if tr: "tree im s T M" and top: "slot < 0x41060000" and w: "0x41000 \<le> vp slot" "vp slot + 32 \<le> 0x41200" for slot s T M
  proof -
    obtain s1 s2 T' where s: "create_pgd_mapping im (user_pg_dir im) slot slot APP_IMAGE_SIZE PAGE_READONLY_EXEC s = Some s1"
      "create_pgd_mapping im (user_pg_dir im) (slot + APP_SLOT_SIZE - APP_STACK_SIZE) (slot + APP_SLOT_SIZE - APP_STACK_SIZE) APP_STACK_SIZE PAGE_SHARED s1 = Some s2"
      "tree im s2 T' (slot_map im slot M)"
      using slot_tree [OF ok tr w] by blast
    have "slot < APP_FIRST + of_nat APP_COUNT * APP_SLOT_SIZE" using top by (simp add: APP_FIRST_def APP_COUNT_def APP_SLOT_SIZE_def)
    then have "map_slots im slot s = map_slots im (slot + APP_SLOT_SIZE) s2" using s by (subst map_slots.simps) (simp add: Let_def)
    then show ?thesis using s(3) by (auto simp: APP_SLOT_SIZE_def)
  qed
  obtain s1 T1 where 1: "map_slots im 0x41000000 s = map_slots im 0x41020000 s1" "tree im s1 T1 (slot_map im 0x41000000 M)"
    using step [OF t, of "0x41000000"] by (auto simp: vp_def)
  obtain s2 T2 where 2: "map_slots im 0x41020000 s1 = map_slots im 0x41040000 s2" "tree im s2 T2 (slot_map im 0x41020000 (slot_map im 0x41000000 M))"
    using step [OF 1(2), of "0x41020000"] by (auto simp: vp_def)
  obtain s3 T3 where 3: "map_slots im 0x41040000 s2 = map_slots im 0x41060000 s3"
      "tree im s3 T3 (slot_map im 0x41040000 (slot_map im 0x41020000 (slot_map im 0x41000000 M)))"
    using step [OF 2(2), of "0x41040000"] by (auto simp: vp_def)
  have "map_slots im 0x41060000 s3 = Some s3" by (subst map_slots.simps) (simp add: APP_FIRST_def APP_COUNT_def APP_SLOT_SIZE_def)
  then show ?thesis using 1(1) 2(1) 3 by (auto simp: APP_FIRST_def)
qed

section \<open>The segments\<close>

lemma unat_kva: "0x40000000 \<le> unat a \<Longrightarrow> unat a \<le> 0x48000000 \<Longrightarrow> unat (kva a) = unat a - 0x40000000 + 0xffffffc000000000"
proof -
  assume a: "0x40000000 \<le> unat a" "unat a \<le> 0x48000000"
  have "unat (a - PHYS_OFFSET) = unat a - 0x40000000"
    using a(1) by (subst unat_sub_le) (simp_all add: word_le_nat_alt PHYS_OFFSET_def)
  then show ?thesis using a unfolding kva_def by (subst unat_add_nowrap) (simp_all add: PAGE_OFFSET_def)
qed

lemma vp_kva: "0x40000000 \<le> unat a \<Longrightarrow> unat a \<le> 0x48000000 \<Longrightarrow> vp (kva a) = 0x4000000 + (unat a - 0x40000000) div 4096"
proof -
  assume a: "0x40000000 \<le> unat a" "unat a \<le> 0x48000000"
  have d: "(unat a - 0x40000000) div 4096 \<le> 0x8000" using a by simp
  have "unat (kva a) div 4096 = (unat a - 0x40000000) div 4096 + 0xffffffc000000" unfolding unat_kva [OF a] by simp
  also have "\<dots> = 0x4000000 + (unat a - 0x40000000) div 4096 + 2 ^ 27 * 33554431" by simp
  finally have "vp (kva a) = (0x4000000 + (unat a - 0x40000000) div 4096 + 2 ^ 27 * 33554431) mod 2 ^ 27" unfolding vp_def by (rule arg_cong)
  then show ?thesis unfolding mod_mult_self2 using d by simp
qed

lemma segment_tree:
  assumes ok: "tables_ok im" and t: "tree im s T M" and prot: "prot AND 3 = 3"
    and a: "4096 dvd unat a" "4096 dvd unat b" "0x40000000 \<le> unat a" "unat a \<le> unat b" "unat b \<le> 0x48000000"
  shows "\<exists>s' T'. map_kernel_segment im a b prot s = Some s' \<and>
    tree im s' T' (map_pages M (swapper_pg_dir im) a (kva a) ((unat b - unat a) div 4096) prot)"
proof -
  let ?n = "(unat b - unat a) div 4096"
  have "4096 dvd unat b - unat a" using a(1,2) by (rule dvd_diff_nat [rotated])
  then have n: "?n * 4096 = unat b - unat a" by simp
  have v: "vp (kva a) = 0x4000000 + (unat a - 0x40000000) div 4096" by (rule vp_kva) (use a in simp_all)
  obtain x where x: "unat a = 4096 * x" using a(1) by (elim dvdE)
  have "(unat a - 0x40000000) div 4096 = x - 0x40000" unfolding x by simp
  then have top: "vp (kva a) + ?n \<le> 0x4008000" using v n x a(3,5) a(4) by linarith
  have "unat (b - a) = ?n * 4096" using a(4) n by (subst unat_sub_le) (simp_all add: word_le_nat_alt)
  then show ?thesis unfolding map_kernel_segment_def
    by (intro create_pgd_mapping_tree [OF ok prot _ _ _ t]) (use top v needed_linear in \<open>auto\<close>)
qed

lemma kernel_tree:
  assumes ok: "layout_ok im" and c: "cleared im s"
  shows "\<exists>s1 s2 s3 s4 s5 s6 T. create_pgd_mapping im (swapper_pg_dir im) PHYS_OFFSET PAGE_OFFSET RAM_SIZE PAGE_KERNEL s = Some s1 \<and>
     map_kernel_segment im (text_start im) (text_end im) PAGE_KERNEL_ROX s1 = Some s2 \<and>
     map_kernel_segment im (rodata_start im) (rodata_end im) PAGE_KERNEL_RO s2 = Some s3 \<and>
     create_pgd_mapping im (swapper_pg_dir im) 0x08000000 (IO_ADDRESS 0x08000000) 0x10000 PROT_DEVICE_nGnRnE s3 = Some s4 \<and>
     create_pgd_mapping im (swapper_pg_dir im) 0x080a0000 (IO_ADDRESS 0x080a0000) 0x20000 PROT_DEVICE_nGnRnE s4 = Some s5 \<and>
     create_pgd_mapping im (swapper_pg_dir im) 0x09000000 (IO_ADDRESS 0x09000000) PAGE_SIZE PROT_DEVICE_nGnRnE s5 = Some s6 \<and>
     tree im s6 T (kernel_map im)"
proof -
  let ?sw = "swapper_pg_dir im"
  have tok: "tables_ok im" using ok by (simp add: layout_ok_def)
  note io = needed_io [of _ im] and v = vp_def IO_ADDRESS_def IO_OFFSET_def PAGE_OFFSET_def
  have "\<exists>s' T'. create_pgd_mapping im ?sw PHYS_OFFSET PAGE_OFFSET RAM_SIZE PAGE_KERNEL s = Some s' \<and>
      tree im s' T' (map_pages (\<lambda>_ _. 0) ?sw PHYS_OFFSET PAGE_OFFSET 0x8000 PAGE_KERNEL)"
    by (rule create_pgd_mapping_tree [OF tok _ _ _ _ cleared_tree [OF tok c]])
      (use needed_linear [of _ im] in \<open>auto simp: prot_values RAM_SIZE_def v\<close>)
  then obtain s1 T1 where 1: "create_pgd_mapping im ?sw PHYS_OFFSET PAGE_OFFSET RAM_SIZE PAGE_KERNEL s = Some s1"
      "tree im s1 T1 (map_pages (\<lambda>_ _. 0) ?sw PHYS_OFFSET PAGE_OFFSET 0x8000 PAGE_KERNEL)" by blast
  have "PAGE_KERNEL_ROX AND 3 = 3" "PAGE_KERNEL_RO AND 3 = 3" "PROT_DEVICE_nGnRnE AND 3 = 3" by (simp_all add: prot_values)
  note pr = this
  obtain s2 T2 M2 where 2: "map_kernel_segment im (text_start im) (text_end im) PAGE_KERNEL_ROX s1 = Some s2" "tree im s2 T2 M2"
      "M2 = map_pages (map_pages (\<lambda>_ _. 0) ?sw PHYS_OFFSET PAGE_OFFSET 0x8000 PAGE_KERNEL) ?sw (text_start im) (kva (text_start im))
        ((unat (text_end im) - unat (text_start im)) div 4096) PAGE_KERNEL_ROX"
    using segment_tree [OF tok 1(2) pr(1), of "text_start im" "text_end im"] ok by (auto simp: layout_ok_def)
  obtain s3 T3 M3 where 3: "map_kernel_segment im (rodata_start im) (rodata_end im) PAGE_KERNEL_RO s2 = Some s3" "tree im s3 T3 M3"
      "M3 = map_pages M2 ?sw (rodata_start im) (kva (rodata_start im)) ((unat (rodata_end im) - unat (rodata_start im)) div 4096) PAGE_KERNEL_RO"
    using segment_tree [OF tok 2(2) pr(2), of "rodata_start im" "rodata_end im"] ok by (auto simp: layout_ok_def)
  have "\<exists>s' T'. create_pgd_mapping im ?sw 0x08000000 (IO_ADDRESS 0x08000000) 0x10000 PROT_DEVICE_nGnRnE s3 = Some s' \<and>
      tree im s' T' (map_pages M3 ?sw 0x08000000 (IO_ADDRESS 0x08000000) 16 PROT_DEVICE_nGnRnE)"
    by (rule create_pgd_mapping_tree [OF tok pr(3) _ _ _ 3(2)]) (use io in \<open>auto simp: v\<close>)
  then obtain s4 T4 M4 where 4: "create_pgd_mapping im ?sw 0x08000000 (IO_ADDRESS 0x08000000) 0x10000 PROT_DEVICE_nGnRnE s3 = Some s4"
      "tree im s4 T4 M4" "M4 = map_pages M3 ?sw 0x08000000 (IO_ADDRESS 0x08000000) 16 PROT_DEVICE_nGnRnE" by blast
  have "\<exists>s' T'. create_pgd_mapping im ?sw 0x080a0000 (IO_ADDRESS 0x080a0000) 0x20000 PROT_DEVICE_nGnRnE s4 = Some s' \<and>
      tree im s' T' (map_pages M4 ?sw 0x080a0000 (IO_ADDRESS 0x080a0000) 32 PROT_DEVICE_nGnRnE)"
    by (rule create_pgd_mapping_tree [OF tok pr(3) _ _ _ 4(2)]) (use io in \<open>auto simp: v\<close>)
  then obtain s5 T5 M5 where 5: "create_pgd_mapping im ?sw 0x080a0000 (IO_ADDRESS 0x080a0000) 0x20000 PROT_DEVICE_nGnRnE s4 = Some s5"
      "tree im s5 T5 M5" "M5 = map_pages M4 ?sw 0x080a0000 (IO_ADDRESS 0x080a0000) 32 PROT_DEVICE_nGnRnE" by blast
  have "\<exists>s' T'. create_pgd_mapping im ?sw 0x09000000 (IO_ADDRESS 0x09000000) PAGE_SIZE PROT_DEVICE_nGnRnE s5 = Some s' \<and>
      tree im s' T' (map_pages M5 ?sw 0x09000000 (IO_ADDRESS 0x09000000) 1 PROT_DEVICE_nGnRnE)"
    by (rule create_pgd_mapping_tree [OF tok pr(3) _ _ _ 5(2)]) (use io in \<open>auto simp: v PAGE_SIZE_def PAGE_SHIFT_def\<close>)
  then obtain s6 T6 where 6: "create_pgd_mapping im ?sw 0x09000000 (IO_ADDRESS 0x09000000) PAGE_SIZE PROT_DEVICE_nGnRnE s5 = Some s6"
      "tree im s6 T6 (map_pages M5 ?sw 0x09000000 (IO_ADDRESS 0x09000000) 1 PROT_DEVICE_nGnRnE)" by blast
  have "kernel_map im = map_pages M5 ?sw 0x09000000 (IO_ADDRESS 0x09000000) 1 PROT_DEVICE_nGnRnE"
    unfolding kernel_map_def Let_def 5(3) 4(3) 3(3) 2(3) by simp
  then show ?thesis using 1(1) 2(1) 3(1) 4(1) 5(1) 6 by metis
qed

end
