(* ===== verification/Mmu_Props.thy ===== *)
theory Mmu_Props
  imports Mmu_Init
begin

text \<open>
  The address spaces that \<^verbatim>\<open>mmu_init\<close> and \<^verbatim>\<open>cpu_uninstall_idmap\<close> leave, for every virtual address.
\<close>

unbundle bit_operations_syntax

section \<open>The descriptors by page\<close>

definition kernel_prot :: "image \<Rightarrow> u64 \<Rightarrow> u64" where
  "kernel_prot im p =
     (if text_start im \<le> p \<and> p < text_end im then PAGE_KERNEL_ROX
      else if rodata_start im \<le> p \<and> p < rodata_end im then PAGE_KERNEL_RO
      else PAGE_KERNEL)"

definition ram_page :: "nat \<Rightarrow> u64" where
  "ram_page w = of_nat (0x40000000 + (w - 0x4000000) * 4096)"

lemma unat_ram_page: "w < 0x4008000 \<Longrightarrow> unat (ram_page w) = 0x40000000 + (w - 0x4000000) * 4096"
  by (simp add: ram_page_def unat_of_nat del: of_nat_add of_nat_mult)

lemma segment_pages:
  assumes a: "4096 dvd unat a" "4096 dvd unat b" "0x40000000 \<le> unat a" "unat a \<le> unat b" "unat b \<le> 0x48000000"
    and w: "0x4000000 \<le> w" "w < 0x4008000"
  shows "vp (kva a) \<le> w \<and> w < vp (kva a) + (unat b - unat a) div 4096 \<longleftrightarrow> a \<le> ram_page w \<and> ram_page w < b"
    "a \<le> ram_page w \<Longrightarrow> a + of_nat ((w - vp (kva a)) * 4096) = ram_page w"
proof -
  obtain x y where xy: "unat a = 4096 * x" "unat b = 4096 * y" using a(1,2) by (elim dvdE)
  have v: "vp (kva a) = 0x4000000 + (x - 0x40000)"
    using vp_kva [of a] a xy(1) by (simp add: xy(1) flip: diff_mult_distrib2 [of 4096 x "0x40000", simplified])
  have n: "(unat b - unat a) div 4096 = y - x" unfolding xy by (simp flip: diff_mult_distrib2)
  have x: "0x40000 \<le> x" "x \<le> y" using a(3,4) xy by simp_all
  have u: "unat (ram_page w) = 4096 * (0x40000 + (w - 0x4000000))" using unat_ram_page [OF w(2)] by simp
  have le: "a \<le> ram_page w \<longleftrightarrow> x \<le> 0x40000 + (w - 0x4000000)" unfolding word_le_nat_alt u xy by (simp only: mult_le_cancel1) simp
  have "ram_page w < b \<longleftrightarrow> 0x40000 + (w - 0x4000000) < y" unfolding word_less_nat_alt u xy by (simp only: mult_less_cancel1) simp
  then show "vp (kva a) \<le> w \<and> w < vp (kva a) + (unat b - unat a) div 4096 \<longleftrightarrow> a \<le> ram_page w \<and> ram_page w < b"
    unfolding v n le using x w by linarith
  show "a + of_nat ((w - vp (kva a)) * 4096) = ram_page w" if "a \<le> ram_page w"
  proof -
    have "x \<le> 0x40000 + (w - 0x4000000)" using le that by simp
    then have e: "4096 * x + (w - vp (kva a)) * 4096 = 0x40000000 + (w - 0x4000000) * 4096" unfolding v using x w by linarith
    have "a = of_nat (4096 * x)" unfolding xy(1) [symmetric] by simp
    then show ?thesis unfolding ram_page_def e [symmetric] of_nat_add by (rule arg_cong)
  qed
qed

lemma segment_map:
  assumes "4096 dvd unat a" "4096 dvd unat b" "0x40000000 \<le> unat a" "unat a \<le> unat b" "unat b \<le> 0x48000000"
    and w: "0x4000000 \<le> w" "w < 0x4008000"
  shows "map_pages M r a (kva a) ((unat b - unat a) div 4096) prot r w =
    (if a \<le> ram_page w \<and> ram_page w < b then ram_page w OR prot else M r w)"
  using segment_pages [OF assms] by (auto simp: map_pages_def)

lemma segment_outside:
  assumes "4096 dvd unat a" "4096 dvd unat b" "0x40000000 \<le> unat a" "unat a \<le> unat b" "unat b \<le> 0x48000000"
    and w: "\<not> (0x4000000 \<le> w \<and> w < 0x4008000)"
  shows "map_pages M r a (kva a) ((unat b - unat a) div 4096) prot r w = M r w"
proof -
  obtain x y where xy: "unat a = 4096 * x" "unat b = 4096 * y" using assms(1,2) by (elim dvdE)
  have "(unat b - unat a) div 4096 = y - x" unfolding xy by (simp flip: diff_mult_distrib2)
  moreover have "vp (kva a) = 0x4000000 + (x - 0x40000)"
    using vp_kva [of a] assms xy(1) by (simp add: xy(1) flip: diff_mult_distrib2 [of 4096 x "0x40000", simplified])
  ultimately have "\<not> (vp (kva a) \<le> w \<and> w < vp (kva a) + (unat b - unat a) div 4096)"
    using w assms(3-5) xy by linarith
  then show ?thesis by (auto simp: map_pages_def)
qed

definition device_page :: "nat \<Rightarrow> bool" where
  "device_page w \<longleftrightarrow> 0x8000 \<le> w \<and> w < 0x8010 \<or> 0x80a0 \<le> w \<and> w < 0x80c0 \<or> w = 0x9000"

lemma device_offset: "base \<le> w \<Longrightarrow> of_nat (base * 4096) + of_nat ((w - base) * 4096) = (of_nat (w * 4096) :: u64)"
  by (simp flip: of_nat_add distrib_right add_mult_distrib)

lemma kernel_map_swapper:
  assumes ok: "layout_ok im"
  shows "kernel_map im (swapper_pg_dir im) w =
    (if 0x4000000 \<le> w \<and> w < 0x4008000 then ram_page w OR kernel_prot im (ram_page w)
     else if device_page w then of_nat (w * 4096) OR PROT_DEVICE_nGnRnE else 0)"
proof -
  let ?sw = "swapper_pg_dir im"
  define M1 where "M1 = map_pages (\<lambda>_ _. 0) ?sw PHYS_OFFSET PAGE_OFFSET 0x8000 PAGE_KERNEL"
  define M2 where "M2 = map_pages M1 ?sw (text_start im) (kva (text_start im)) ((unat (text_end im) - unat (text_start im)) div 4096) PAGE_KERNEL_ROX"
  define M3 where "M3 = map_pages M2 ?sw (rodata_start im) (kva (rodata_start im)) ((unat (rodata_end im) - unat (rodata_start im)) div 4096) PAGE_KERNEL_RO"
  have m1: "M1 ?sw w = (if 0x4000000 \<le> w \<and> w < 0x4008000 then ram_page w OR PAGE_KERNEL else 0)"
    by (auto simp: M1_def map_pages_def vp_def PAGE_OFFSET_def PHYS_OFFSET_def ram_page_def)
  have m3: "M3 ?sw w = (if 0x4000000 \<le> w \<and> w < 0x4008000 then ram_page w OR kernel_prot im (ram_page w) else 0)"
  proof (cases "0x4000000 \<le> w \<and> w < 0x4008000")
    case True
    have "\<not> (rodata_start im \<le> ram_page w \<and> text_start im \<le> ram_page w \<and> ram_page w < text_end im)"
      using ok by (auto simp: layout_ok_def word_le_nat_alt word_less_nat_alt)
    then show ?thesis using ok True m1 unfolding M3_def M2_def
      by (subst segment_map; (subst segment_map)?) (auto simp: layout_ok_def kernel_prot_def)
  next
    case False
    then show ?thesis using ok m1 unfolding M3_def M2_def
      by (subst segment_outside; (subst segment_outside)?) (auto simp: layout_ok_def)
  qed
  have "kernel_map im ?sw w = (if device_page w then of_nat (w * 4096) OR PROT_DEVICE_nGnRnE else M3 ?sw w)"
    using device_offset [of "0x8000" w] device_offset [of "0x80a0" w]
    unfolding kernel_map_def Let_def M1_def [symmetric] M2_def [symmetric] M3_def [symmetric]
    by (auto simp: map_pages_def vp_def IO_ADDRESS_def IO_OFFSET_def device_page_def)
  then show ?thesis using m3 by (auto simp: device_page_def)
qed

text \<open>The page of a slot decides what is mapped: 16 pages of image, a gap of 12 pages, 4 pages of stack.\<close>

definition user_page :: "nat \<Rightarrow> u64" where
  "user_page w =
     (if 0x41000 \<le> w \<and> w < 0x41060 then
        if (w - 0x41000) mod 32 < 16 then of_nat (w * 4096) OR PAGE_READONLY_EXEC
        else if 28 \<le> (w - 0x41000) mod 32 then of_nat (w * 4096) OR PAGE_SHARED
        else 0
      else 0)"

lemma slot_map_user:
  assumes "n < 3"
  shows "slot_map im (of_nat (0x41000000 + n * 0x20000)) M (user_pg_dir im) w =
    (if 0x41000 + n * 32 \<le> w \<and> w < 0x41000 + Suc n * 32 then
       if (w - 0x41000) mod 32 < 16 then of_nat (w * 4096) OR PAGE_READONLY_EXEC
       else if 28 \<le> (w - 0x41000) mod 32 then of_nat (w * 4096) OR PAGE_SHARED
       else M (user_pg_dir im) w
     else M (user_pg_dir im) w)"
proof -
  let ?slot = "of_nat (0x41000000 + n * 0x20000) :: u64"
  have e: "?slot = of_nat ((0x41000 + n * 32) * 4096)" "?slot + 0x1c000 = of_nat ((0x41000 + n * 32 + 28) * 4096)" by simp_all
  have v: "vp (of_nat (x * 4096)) = x" if "x < 2 ^ 27" for x
    using that by (simp add: vp_def unat_of_nat del: of_nat_mult)
  have vs: "vp ?slot = 0x41000 + n * 32" "vp (?slot + 0x1c000) = 0x41000 + n * 32 + 28"
    unfolding e(1) by (rule v, use assms in simp) (unfold e(2) [unfolded e(1)], rule v, use assms in simp)
  have m: "(w - 0x41000) mod 32 = w - (0x41000 + n * 32)" if "0x41000 + n * 32 \<le> w" "w < 0x41000 + Suc n * 32"
  proof -
    have "w - 0x41000 = (w - (0x41000 + n * 32)) + n * 32" using that by simp
    then have "(w - 0x41000) mod 32 = (w - (0x41000 + n * 32)) mod 32" by (metis mod_mult_self1)
    then show ?thesis using that by simp
  qed
  have image: "map_pages M r ?slot ?slot 16 prot r w =
      (if 0x41000 + n * 32 \<le> w \<and> w < 0x41000 + n * 32 + 16 then of_nat (w * 4096) OR prot else M r w)" for r prot
    unfolding map_pages_def vs unfolding e(1) using device_offset [of "0x41000 + n * 32" w] by (simp only: simp_thms cong: if_cong conj_cong)
  have stack: "map_pages M r (?slot + 0x1c000) (?slot + 0x1c000) 4 prot r w =
      (if 0x41000 + n * 32 + 28 \<le> w \<and> w < 0x41000 + n * 32 + 28 + 4 then of_nat (w * 4096) OR prot else M r w)" for M r prot
    unfolding map_pages_def vs unfolding e(2) using device_offset [of "0x41000 + n * 32 + 28" w] by (simp only: simp_thms cong: if_cong conj_cong)
  consider "w < 0x41000 + n * 32" | "0x41000 + Suc n * 32 \<le> w"
    | k where "w = 0x41000 + n * 32 + k" "k < 16" | k where "w = 0x41000 + n * 32 + k" "16 \<le> k" "k < 28"
    | k where "w = 0x41000 + n * 32 + k" "28 \<le> k" "k < 32"
    using le_Suc_ex [of "0x41000 + n * 32" w] by (metis add_less_cancel_left mult_Suc add.assoc add.commute not_le)
  then show ?thesis unfolding slot_map_def stack image using m by cases (simp_all del: of_nat_mult of_nat_add)
qed

lemma map_pages_other: "r' \<noteq> r \<Longrightarrow> map_pages M r phys virt n prot r' w = M r' w"
  by (simp add: map_pages_def)

lemma roots_differ: "layout_ok im \<Longrightarrow> user_pg_dir im \<noteq> swapper_pg_dir im \<and> swapper_pg_dir im \<noteq> user_pg_dir im"
  by (auto simp: layout_ok_def tables_ok_def)

lemma final_map_user: "layout_ok im \<Longrightarrow> final_map im (user_pg_dir im) w = user_page w"
proof -
  assume ok: "layout_ok im"
  have "kernel_map im (user_pg_dir im) w = 0"
    unfolding kernel_map_def Let_def using roots_differ [OF ok] by (simp add: map_pages_other)
  then show ?thesis
    using slot_map_user [of 0 im "kernel_map im" w] slot_map_user [of 1 im "slot_map im 0x41000000 (kernel_map im)" w]
      slot_map_user [of 2 im "slot_map im 0x41020000 (slot_map im 0x41000000 (kernel_map im))" w]
    by (auto simp: final_map_def user_page_def)
qed

lemma final_map_swapper:
  "layout_ok im \<Longrightarrow> final_map im (swapper_pg_dir im) w =
    (if 0x4000000 \<le> w \<and> w < 0x4008000 then ram_page w OR kernel_prot im (ram_page w)
     else if device_page w then of_nat (w * 4096) OR PROT_DEVICE_nGnRnE else 0)"
  using kernel_map_swapper [of im w] roots_differ [of im] by (simp add: final_map_def slot_map_def map_pages_other)

section \<open>Walks after the initialisation\<close>

lemma mmu_init_state:
  assumes ok: "layout_ok im" and c: "cleared im s"
  obtains s0 T s' where "tree im s0 T (final_map im)" "mmu_init im s = Some s'"
    "entries s' = (entries s0)(entry (idmap_pg_dir im) 1 := entries s0 (entry (swapper_pg_dir im) 256))"
    "ttbr0_el1 s' = idmap_pg_dir im" "ttbr1_el1 s' = swapper_pg_dir im"
    "tcr_el1 s' = 0xb0193019" "mair_el1 s' = 0x4400" "sctlr_el1 s' AND 1 = 1"
proof -
  have tok: "tables_ok im" using ok by (simp add: layout_ok_def)
  obtain s1 s2 s3 s4 s5 s6 T6 where k: "create_pgd_mapping im (swapper_pg_dir im) PHYS_OFFSET PAGE_OFFSET RAM_SIZE PAGE_KERNEL s = Some s1"
     "map_kernel_segment im (text_start im) (text_end im) PAGE_KERNEL_ROX s1 = Some s2"
     "map_kernel_segment im (rodata_start im) (rodata_end im) PAGE_KERNEL_RO s2 = Some s3"
     "create_pgd_mapping im (swapper_pg_dir im) 0x08000000 (IO_ADDRESS 0x08000000) 0x10000 PROT_DEVICE_nGnRnE s3 = Some s4"
     "create_pgd_mapping im (swapper_pg_dir im) 0x080a0000 (IO_ADDRESS 0x080a0000) 0x20000 PROT_DEVICE_nGnRnE s4 = Some s5"
     "create_pgd_mapping im (swapper_pg_dir im) 0x09000000 (IO_ADDRESS 0x09000000) PAGE_SIZE PROT_DEVICE_nGnRnE s5 = Some s6"
     "tree im s6 T6 (kernel_map im)"
    using kernel_tree [OF ok c] by blast
  obtain s0 T where f: "map_slots im APP_FIRST s6 = Some s0" "tree im s0 T (final_map im)"
    using map_slots_tree [OF tok k(7)] by (auto simp: final_map_def)
  have ix: "idmap_pg_dir im + 8 * pgd_index PHYS_OFFSET = entry (idmap_pg_dir im) 1"
    "swapper_pg_dir im + 8 * pgd_index PAGE_OFFSET = entry (swapper_pg_dir im) 256"
    by (simp_all add: pgd_index_def PGDIR_SHIFT_def PTRS_PER_PGD_def PHYS_OFFSET_def PAGE_OFFSET_def entry_def)
  have "mmu_init im s = Some (s0\<lparr>entries := (entries s0)(entry (idmap_pg_dir im) 1 := entries s0 (entry (swapper_pg_dir im) 256)),
      mair_el1 := 0x4400, tcr_el1 := 0xb0193019, ttbr0_el1 := idmap_pg_dir im, ttbr1_el1 := swapper_pg_dir im,
      sctlr_el1 := (sctlr_el1 s0 AND NOT (push_bit 1 1 OR push_bit 2 1 OR push_bit 12 1 OR push_bit 19 1)) OR 1\<rparr>)"
    by (simp add: mmu_init_def k f(1) Let_def ix MAIR_def MT_DEVICE_nGnRnE_def MT_NORMAL_NC_def)
  then show thesis by (rule that [OF f(2)]) (simp_all add: bit.conj_disj_distrib2)
qed

definition found :: "u64 \<Rightarrow> (nat \<times> u64) option" where
  "found d = (if d = 0 then None else Some (3, d))"

lemma hw_walk_idmap:
  assumes e: "m (entry a 1) = m (entry b 256)" and z: "\<And>i. i < 512 \<Longrightarrow> i \<noteq> 1 \<Longrightarrow> m (entry a i) = 0"
    and v: "vp va' = 256 * 2 ^ 18 + vp va mod 2 ^ 18"
  shows "hw_walk m a va = (if vp va div 2 ^ 18 = 1 then hw_walk m b va' else None)"
proof -
  have ix: "drop_bit 30 x AND 511 = of_nat (vp x div 2 ^ 18)" "drop_bit 21 x AND 511 = of_nat (vp x div 512 mod 512)"
    "drop_bit 12 x AND 511 = of_nat (vp x mod 512)" for x
    unfolding word_of_index vp_parts by simp_all
  have i: "vp va div 2 ^ 18 < 512" using vp_bound [of va] by simp
  have "vp va mod 2 ^ 18 = vp va mod (512 * 512)" by simp
  then have low: "vp va mod 2 ^ 18 div 512 = vp va div 512 mod 512" "vp va mod 2 ^ 18 mod 512 = vp va mod 512"
    using mod_mult_div [of 512 "vp va" 512] by (simp_all add: mod_mod_cancel)
  have p: "vp va' div 2 ^ 18 = 256" "vp va' div 512 mod 512 = vp va div 512 mod 512" "vp va' mod 512 = vp va mod 512"
  proof -
    show "vp va' div 2 ^ 18 = 256" unfolding v by simp
    have "vp va' = (256 * 512) * 512 + vp va mod 2 ^ 18" using v by simp
    then have "vp va' div 512 = 256 * 512 + vp va mod 2 ^ 18 div 512" "vp va' mod 512 = vp va mod 2 ^ 18 mod 512"
      by (simp_all only: div_mult_self3 mod_mult_self3)
    then show "vp va' div 512 mod 512 = vp va div 512 mod 512" "vp va' mod 512 = vp va mod 512"
      using low by (simp_all only: mod_mult_self3 mod_mod_trivial)
  qed
  show ?thesis
  proof (cases "vp va div 2 ^ 18 = 1")
    case True
    then show ?thesis using e unfolding hw_walk_def ix p by (simp add: entry_def)
  next
    case False
    then have "m (a + 8 * of_nat (vp va div 2 ^ 18)) = 0" using z [OF i] by (simp add: entry_def)
    then show ?thesis using False unfolding hw_walk_def ix by simp
  qed
qed

lemma mmu_init_walks:
  assumes ok: "layout_ok im" and c: "cleared im s"
  obtains s' where "mmu_init im s = Some s'" "ttbr0_el1 s' = idmap_pg_dir im" "ttbr1_el1 s' = swapper_pg_dir im"
    "tcr_el1 s' = 0xb0193019" "mair_el1 s' = 0x4400" "sctlr_el1 s' AND 1 = 1"
    "\<And>va. hw_walk (entries s') (swapper_pg_dir im) va = found (final_map im (swapper_pg_dir im) (vp va))"
    "\<And>va. hw_walk (entries s') (user_pg_dir im) va = found (final_map im (user_pg_dir im) (vp va))"
    "\<And>va. hw_walk (entries s') (idmap_pg_dir im) va =
       (if vp va div 2 ^ 18 = 1 then found (final_map im (swapper_pg_dir im) (256 * 2 ^ 18 + vp va mod 2 ^ 18)) else None)"
proof -
  have tok: "tables_ok im" using ok by (simp add: layout_ok_def)
  obtain s0 T s' where i: "tree im s0 T (final_map im)" "mmu_init im s = Some s'"
    "entries s' = (entries s0)(entry (idmap_pg_dir im) 1 := entries s0 (entry (swapper_pg_dir im) 256))"
    "ttbr0_el1 s' = idmap_pg_dir im" "ttbr1_el1 s' = swapper_pg_dir im"
    "tcr_el1 s' = 0xb0193019" "mair_el1 s' = 0x4400" "sctlr_el1 s' AND 1 = 1"
    using mmu_init_state [OF assms] .
  have id: "frame (idmap_pg_dir im)" using idmap_apart [OF tok] by blast
  have m: "entries s' (entry b e) = entries s0 (entry b e)" if "frame b" "e < 512" "b \<noteq> idmap_pg_dir im" for b e
    using that entry_inj [OF that(1) id that(2), of 1] i(3) by simp
  note hw = hw_walk_tree [OF tok i(1), of _ "entries s'", OF _ m]
  have sw: "hw_walk (entries s') (swapper_pg_dir im) va = found (final_map im (swapper_pg_dir im) (vp va))"
    and us: "hw_walk (entries s') (user_pg_dir im) va = found (final_map im (user_pg_dir im) (vp va))" for va
    by (simp_all add: hw roots_def found_def)
  have sw0: "frame (swapper_pg_dir im)" "swapper_pg_dir im \<noteq> idmap_pg_dir im" using tok by (auto simp: tables_ok_def)
  have "hw_walk (entries s') (idmap_pg_dir im) va =
       (if vp va div 2 ^ 18 = 1 then found (final_map im (swapper_pg_dir im) (256 * 2 ^ 18 + vp va mod 2 ^ 18)) else None)" for va
  proof -
    let ?w = "256 * 2 ^ 18 + vp va mod 2 ^ 18"
    have w: "?w < 2 ^ 27" using mod_less_divisor [of "2 ^ 18" "vp va"] by simp
    then have v: "vp (of_nat (?w * 4096)) = ?w" by (simp add: vp_def unat_of_nat del: of_nat_mult of_nat_add)
    have "hw_walk (entries s') (idmap_pg_dir im) va = (if vp va div 2 ^ 18 = 1 then hw_walk (entries s') (swapper_pg_dir im) (of_nat (?w * 4096)) else None)"
    proof (rule hw_walk_idmap [OF _ _ v])
      show "entries s' (entry (idmap_pg_dir im) 1) = entries s' (entry (swapper_pg_dir im) 256)" using m [of "swapper_pg_dir im" 256] sw0 i(3) by simp
      show "entries s' (entry (idmap_pg_dir im) j) = 0" if "j < 512" "j \<noteq> 1" for j
        using that treeD(7) [OF i(1) that(1)] entry_inj [OF id id that(1), of 1] i(3) by simp
    qed
    then show ?thesis unfolding sw v .
  qed
  then show thesis using that i(2,4-8) sw us by blast
qed

section \<open>The address spaces\<close>

definition page_base :: "u64 \<Rightarrow> u64" where
  "page_base a = of_nat (unat a div 4096 * 4096)"

definition device :: "u64 \<Rightarrow> bool" where
  "device p \<longleftrightarrow> 0x08000000 \<le> p \<and> p < 0x08010000 \<or> 0x080a0000 \<le> p \<and> p < 0x080c0000 \<or> 0x09000000 \<le> p \<and> p < 0x09001000"

definition kernel_space :: "image \<Rightarrow> u64 \<Rightarrow> u64 option" where
  "kernel_space im va =
     (if PAGE_OFFSET \<le> va \<and> va < PAGE_OFFSET + RAM_SIZE then Some (page_base (kpa va) OR kernel_prot im (page_base (kpa va)))
      else if device (va - IO_OFFSET) then Some (page_base (va - IO_OFFSET) OR PROT_DEVICE_nGnRnE)
      else None)"

definition identity_space :: "image \<Rightarrow> u64 \<Rightarrow> u64 option" where
  "identity_space im va =
     (if PHYS_OFFSET \<le> va \<and> va < PHYS_OFFSET + RAM_SIZE then Some (page_base va OR kernel_prot im (page_base va)) else None)"

definition user_space :: "u64 \<Rightarrow> u64 option" where
  "user_space va =
     (if APP_FIRST \<le> va \<and> va < APP_FIRST + of_nat APP_COUNT * APP_SLOT_SIZE then
        let offset = (va - APP_FIRST) mod APP_SLOT_SIZE in
        if offset < APP_IMAGE_SIZE then Some (page_base va OR PAGE_READONLY_EXEC)
        else if APP_SLOT_SIZE - APP_STACK_SIZE \<le> offset then Some (page_base va OR PAGE_SHARED)
        else None
      else None)"

lemma nonzero_descriptor: "prot AND 3 = 3 \<Longrightarrow> x OR prot \<noteq> (0 :: u64)"
  using or_type [of prot x] by auto

lemma found_descriptor:
  "found (x OR PROT_DEVICE_nGnRnE) = Some (3, x OR PROT_DEVICE_nGnRnE)" "found (x OR kernel_prot im y) = Some (3, x OR kernel_prot im y)"
  "found (x OR PAGE_SHARED) = Some (3, x OR PAGE_SHARED)" "found (x OR PAGE_READONLY_EXEC) = Some (3, x OR PAGE_READONLY_EXEC)" "found 0 = None"
  by (simp_all add: found_def nonzero_descriptor prot_values kernel_prot_def)

text \<open>The two halves of the address space.\<close>

lemma low_half: "drop_bit 39 va = 0 \<longleftrightarrow> unat va < 2 ^ 39" for va :: u64
proof -
  have "drop_bit 39 va = 0 \<longleftrightarrow> unat va div 2 ^ 39 = 0" unfolding word_unat_eq_iff unat_drop_bit_eq by (simp add: drop_bit_eq_div)
  then show ?thesis by (simp add: div_eq_0_iff)
qed

lemma high_half: "drop_bit 39 va = 0x1ffffff \<longleftrightarrow> 2 ^ 64 - 2 ^ 39 \<le> unat va" for va :: u64
proof -
  have "drop_bit 39 va = 0x1ffffff \<longleftrightarrow> unat va div 2 ^ 39 = 0x1ffffff" unfolding word_unat_eq_iff unat_drop_bit_eq by (simp add: drop_bit_eq_div)
  also have "\<dots> \<longleftrightarrow> 2 ^ 64 - 2 ^ 39 \<le> unat va" using u64_bound [of va] by (auto intro: div_nat_eqI)
  finally show ?thesis .
qed

lemma unat_io: "2 ^ 64 - 2 ^ 39 \<le> unat va \<Longrightarrow> unat (va - IO_OFFSET) = unat va - (2 ^ 64 - 2 ^ 39)"
  by (subst unat_sub_le) (simp_all add: IO_OFFSET_def word_le_nat_alt)

lemma io_wrap: "unat va < 2 ^ 64 - 2 ^ 39 \<Longrightarrow> \<not> device (va - IO_OFFSET)"
proof -
  assume va: "unat va < 2 ^ 64 - 2 ^ 39"
  have "unat (va - IO_OFFSET) = 2 ^ 64 + unat va - unat IO_OFFSET" using va by (intro unat_sub_wrap) (simp add: IO_OFFSET_def)
  then show ?thesis by (simp add: device_def word_le_nat_alt word_less_nat_alt IO_OFFSET_def)
qed

lemma page_le: "c \<le> h div 4096 \<longleftrightarrow> c * 4096 \<le> h" "h div 4096 < c \<longleftrightarrow> h < c * 4096" for c h :: nat
  by (simp_all add: less_eq_div_iff_mult_less_eq div_less_iff_less_mult)

lemma page_shift: "a = b + c * 4096 \<Longrightarrow> a div 4096 = b div 4096 + c" for a b c :: nat
  by simp

lemma vp_low: "unat va < 2 ^ 39 \<Longrightarrow> vp va = unat va div 4096"
  by (simp add: vp_def page_le(2))

lemma vp_high: "2 ^ 64 - 2 ^ 39 \<le> unat va \<Longrightarrow> vp va = unat (va - IO_OFFSET) div 4096"
proof -
  assume va: "2 ^ 64 - 2 ^ 39 \<le> unat va"
  let ?h = "unat (va - IO_OFFSET)"
  have b: "?h < 2 ^ 39" using unat_io [OF va] u64_bound [of va] by simp
  have "unat va = ?h + 0xffffff8000000 * 4096" using unat_io [OF va] va by simp
  then have "unat va div 4096 = ?h div 4096 + 2 ^ 27 * 33554431" by simp
  then have "vp va = ?h div 4096 mod 2 ^ 27" unfolding vp_def by (simp only: mod_mult_self2)
  then show ?thesis using b by (simp add: page_le(2))
qed

lemma kernel_walk:
  assumes ok: "layout_ok im" and va: "2 ^ 64 - 2 ^ 39 \<le> unat va"
  shows "found (final_map im (swapper_pg_dir im) (vp va)) = map_option (Pair 3) (kernel_space im va)"
proof -
  define h where "h = unat (va - IO_OFFSET)"
  have u: "unat va = h + (2 ^ 64 - 2 ^ 39)" using unat_io [OF va] va by (simp add: h_def)
  have lin: "PAGE_OFFSET \<le> va \<and> va < PAGE_OFFSET + RAM_SIZE \<longleftrightarrow> 0x4000000 \<le> h div 4096 \<and> h div 4096 < 0x4008000"
    unfolding word_le_nat_alt word_less_nat_alt u page_le by (simp add: PAGE_OFFSET_def RAM_SIZE_def)
  have dev: "device (va - IO_OFFSET) \<longleftrightarrow> device_page (h div 4096)"
  proof -
    have "h div 4096 = 0x9000 \<longleftrightarrow> 0x9000 \<le> h div 4096 \<and> h div 4096 < 0x9001" by linarith
    then show ?thesis unfolding device_def device_page_def word_le_nat_alt word_less_nat_alt h_def [symmetric] page_le by simp
  qed
  have ram: "ram_page (h div 4096) = page_base (kpa va)" if "0x4000000 \<le> h div 4096" "h div 4096 < 0x4008000"
  proof -
    have b: "0x4000000000 \<le> h" "h < 0x4008000000" using that unfolding page_le by simp_all
    have "unat (va - PAGE_OFFSET) = h - 0x4000000000"
      using b u by (subst unat_sub_le) (simp_all add: PAGE_OFFSET_def word_le_nat_alt)
    then have "unat (kpa va) = h - 0x4000000000 + 0x40000000" using b unfolding kpa_def by (subst unat_add_nowrap) (simp_all add: PHYS_OFFSET_def)
    moreover have "(h - 0x4000000000 + 0x40000000) div 4096 = h div 4096 - 0x4000000 + 0x40000"
    proof -
      have "h div 4096 = (h - 0x4000000000) div 4096 + 0x4000000" by (rule page_shift) (use b in simp)
      moreover have "(h - 0x4000000000 + 0x40000 * 4096) div 4096 = (h - 0x4000000000) div 4096 + 0x40000" by simp
      ultimately show ?thesis by simp
    qed
    ultimately have "page_base (kpa va) = of_nat ((h div 4096 - 0x4000000 + 0x40000) * 4096)" by (simp add: page_base_def)
    also have "(h div 4096 - 0x4000000 + 0x40000) * 4096 = 0x40000000 + (h div 4096 - 0x4000000) * 4096" by simp
    finally show ?thesis by (simp add: ram_page_def)
  qed
  have "(of_nat (h div 4096 * 4096) :: u64) = page_base (va - IO_OFFSET)" by (simp only: page_base_def h_def)
  then show ?thesis
    unfolding final_map_swapper [OF ok] vp_high [OF va] h_def [symmetric] kernel_space_def lin dev using ram by (simp add: found_descriptor)
qed

lemma identity_walk:
  assumes ok: "layout_ok im" and va: "unat va < 2 ^ 39"
  shows "(if vp va div 2 ^ 18 = 1 then found (final_map im (swapper_pg_dir im) (256 * 2 ^ 18 + vp va mod 2 ^ 18)) else None) =
    map_option (Pair 3) (identity_space im va)"
proof -
  let ?w = "unat va div 4096"
  have ram: "PHYS_OFFSET \<le> va \<and> va < PHYS_OFFSET + RAM_SIZE \<longleftrightarrow> 0x40000 \<le> ?w \<and> ?w < 0x48000"
    unfolding word_le_nat_alt word_less_nat_alt page_le by (simp add: PHYS_OFFSET_def RAM_SIZE_def)
  have one: "?w div 2 ^ 18 = 1 \<longleftrightarrow> 0x40000 \<le> ?w \<and> ?w < 0x80000" by (auto intro: div_nat_eqI)
  show ?thesis
  proof (cases "?w div 2 ^ 18 = 1")
    case True
    then have m: "?w mod 2 ^ 18 = ?w - 0x40000" using div_mult_mod_eq [of ?w "2 ^ 18"] by simp
    have p: "ram_page (256 * 2 ^ 18 + (?w - 0x40000)) = page_base va" if "0x40000 \<le> ?w"
      using that by (simp add: ram_page_def page_base_def del: of_nat_mult of_nat_add) (simp add: diff_mult_distrib)
    have d: "\<not> device_page x" if "0x4000000 \<le> x" for x using that by (simp add: device_page_def)
    show ?thesis using True one p d unfolding vp_low [OF va] identity_space_def ram m final_map_swapper [OF ok]
      by (auto simp: found_descriptor)
  next
    case False
    then show ?thesis using one unfolding vp_low [OF va] identity_space_def ram by auto
  qed
qed

lemma user_walk:
  assumes ok: "layout_ok im" and va: "unat va < 2 ^ 39"
  shows "found (final_map im (user_pg_dir im) (vp va)) = map_option (Pair 3) (user_space va)"
proof -
  let ?w = "unat va div 4096"
  have slot: "APP_FIRST \<le> va \<and> va < APP_FIRST + of_nat APP_COUNT * APP_SLOT_SIZE \<longleftrightarrow> 0x41000 \<le> ?w \<and> ?w < 0x41060"
    unfolding word_le_nat_alt word_less_nat_alt page_le by (simp add: APP_FIRST_def APP_COUNT_def APP_SLOT_SIZE_def)
  have off: "(va - APP_FIRST) mod APP_SLOT_SIZE < APP_IMAGE_SIZE \<longleftrightarrow> (?w - 0x41000) mod 32 < 16"
    "APP_SLOT_SIZE - APP_STACK_SIZE \<le> (va - APP_FIRST) mod APP_SLOT_SIZE \<longleftrightarrow> 28 \<le> (?w - 0x41000) mod 32" if "0x41000 \<le> ?w"
  proof -
    have b: "0x41000000 \<le> unat va" using that unfolding page_le by simp
    have "unat (va - APP_FIRST) = unat va - 0x41000000" using b by (subst unat_sub_le) (simp_all add: APP_FIRST_def word_le_nat_alt)
    then have o: "unat ((va - APP_FIRST) mod APP_SLOT_SIZE) = (unat va - 0x41000000) mod (4096 * 32)" by (simp add: unat_mod APP_SLOT_SIZE_def)
    have "?w = (unat va - 0x41000000) div 4096 + 0x41000" by (rule page_shift) (use b in simp)
    then have "(?w - 0x41000) mod 32 = (unat va - 0x41000000) mod (4096 * 32) div 4096" using mod_mult_div [of 4096 "unat va - 0x41000000" 32] by simp
    then show "(va - APP_FIRST) mod APP_SLOT_SIZE < APP_IMAGE_SIZE \<longleftrightarrow> (?w - 0x41000) mod 32 < 16"
      "APP_SLOT_SIZE - APP_STACK_SIZE \<le> (va - APP_FIRST) mod APP_SLOT_SIZE \<longleftrightarrow> 28 \<le> (?w - 0x41000) mod 32"
      unfolding word_le_nat_alt word_less_nat_alt o by (simp_all add: page_le APP_IMAGE_SIZE_def APP_SLOT_SIZE_def APP_STACK_SIZE_def)
  qed
  have "(of_nat (?w * 4096) :: u64) = page_base va" by (simp only: page_base_def)
  then show ?thesis
    unfolding final_map_user [OF ok] vp_low [OF va] user_page_def user_space_def slot Let_def using off by (simp add: found_descriptor)
qed

lemma address_spaces:
  assumes ok: "layout_ok im" and c: "cleared im s"
  obtains s' where "mmu_init im s = Some s'" "tcr_el1 s' = 0xb0193019" "mair_el1 s' = 0x4400" "sctlr_el1 s' AND 1 = 1"
    "\<And>va. translate s' va = map_option (Pair 3) (if unat va < 2 ^ 39 then identity_space im va else kernel_space im va)"
    "\<And>va. translate (cpu_uninstall_idmap im s') va = map_option (Pair 3) (if unat va < 2 ^ 39 then user_space va else kernel_space im va)"
proof -
  show thesis
  proof (rule mmu_init_walks [OF assms], goal_cases init)
    case (init s')
    note i = init(1-6) and w = init(7-9)
    have mid: "kernel_space im va = None" if "unat va < 2 ^ 64 - 2 ^ 39" for va
      using io_wrap [OF that] that by (simp add: kernel_space_def PAGE_OFFSET_def word_le_nat_alt)
    have kern: "(if drop_bit 39 va = 0x1ffffff then hw_walk (entries s') (swapper_pg_dir im) va else None) = map_option (Pair 3) (kernel_space im va)" for va
      unfolding high_half w using kernel_walk [OF ok, of va] mid [of va] by (simp add: not_le)
    have "translate s' va = map_option (Pair 3) (if unat va < 2 ^ 39 then identity_space im va else kernel_space im va)" for va
      unfolding translate_def i low_half using kern [of va] identity_walk [OF ok, of va] w(3) [of va] by simp
    moreover have "translate (cpu_uninstall_idmap im s') va = map_option (Pair 3) (if unat va < 2 ^ 39 then user_space va else kernel_space im va)" for va
    proof -
      have e: "entries (cpu_uninstall_idmap im s') = entries s'" "ttbr0_el1 (cpu_uninstall_idmap im s') = user_pg_dir im"
        "ttbr1_el1 (cpu_uninstall_idmap im s') = swapper_pg_dir im"
        by (simp_all add: cpu_uninstall_idmap_def i)
      show ?thesis unfolding translate_def e low_half using kern [of va] user_walk [OF ok, of va] w(2) [of va] by simp
    qed
    ultimately show thesis using that i by blast
  qed
qed

section \<open>Permissions\<close>

lemma descriptor_bits:
  assumes "frame b" "n < 12 \<or> 48 \<le> n"
  shows "bit (b OR p) n \<longleftrightarrow> bit p n"
  using frame_low [OF assms(1), of n] frame_high [OF assms(1), of n] assms(2) by (auto simp: bit_or_iff)

lemma descriptor_output: "frame b \<Longrightarrow> p AND 0x0000fffffffff000 = 0 \<Longrightarrow> output_addr (b OR p) = b"
proof -
  assume b: "frame b" and p: "p AND 0x0000fffffffff000 = 0"
  have "b AND 0x0000fffffffff000 = b"
  proof (rule bit_word_eqI)
    fix n
    show "bit (b AND 0x0000fffffffff000) n \<longleftrightarrow> bit b n"
      using frame_low [OF b, of n] frame_high [OF b, of n] unfolding bit_and_iff bit_addr_mask by force
  qed
  then show ?thesis using p by (simp add: output_addr_def bit.conj_disj_distrib2)
qed

lemma frame_page_base: "unat a < 2 ^ 48 \<Longrightarrow> frame (page_base a) \<and> unat (page_base a) = unat a div 4096 * 4096"
proof -
  assume a: "unat a < 2 ^ 48"
  have le: "unat a div 4096 * 4096 \<le> unat a" by simp
  then have "unat (page_base a) = unat a div 4096 * 4096" using a unfolding page_base_def by (simp add: unat_of_nat del: of_nat_mult)
  then show ?thesis using a le by (simp add: frame_def)
qed

lemmas permission_defs = el0_read_def el0_write_def el0_exec_def el1_write_def el1_exec_def

lemma permissions:
  assumes "frame b"
  shows "el0_read (b OR p) \<longleftrightarrow> el0_read p" "el0_write (b OR p) \<longleftrightarrow> el0_write p" "el0_exec (b OR p) \<longleftrightarrow> el0_exec p"
    "el1_write (b OR p) \<longleftrightarrow> el1_write p" "el1_exec (b OR p) \<longleftrightarrow> el1_exec p"
  using descriptor_bits [OF assms] by (simp_all add: permission_defs)

lemma prot_permissions:
  "\<not> el0_read PAGE_KERNEL \<and> \<not> el0_write PAGE_KERNEL \<and> \<not> el0_exec PAGE_KERNEL \<and> el1_write PAGE_KERNEL \<and> \<not> el1_exec PAGE_KERNEL"
  "\<not> el0_read PAGE_KERNEL_RO \<and> \<not> el0_write PAGE_KERNEL_RO \<and> \<not> el0_exec PAGE_KERNEL_RO \<and> \<not> el1_write PAGE_KERNEL_RO \<and> \<not> el1_exec PAGE_KERNEL_RO"
  "\<not> el0_read PAGE_KERNEL_ROX \<and> \<not> el0_write PAGE_KERNEL_ROX \<and> \<not> el0_exec PAGE_KERNEL_ROX \<and> \<not> el1_write PAGE_KERNEL_ROX \<and> el1_exec PAGE_KERNEL_ROX"
  "\<not> el0_read PROT_DEVICE_nGnRnE \<and> \<not> el0_write PROT_DEVICE_nGnRnE \<and> \<not> el0_exec PROT_DEVICE_nGnRnE \<and> el1_write PROT_DEVICE_nGnRnE \<and> \<not> el1_exec PROT_DEVICE_nGnRnE"
  "el0_read PAGE_SHARED \<and> el0_write PAGE_SHARED \<and> \<not> el0_exec PAGE_SHARED \<and> el1_write PAGE_SHARED \<and> \<not> el1_exec PAGE_SHARED"
  "el0_read PAGE_READONLY_EXEC \<and> \<not> el0_write PAGE_READONLY_EXEC \<and> el0_exec PAGE_READONLY_EXEC \<and> \<not> el1_write PAGE_READONLY_EXEC \<and> \<not> el1_exec PAGE_READONLY_EXEC"
  unfolding permission_defs prot_values by (simp_all add: bit_u64_iff)

lemma prot_output:
  "kernel_prot im p AND 0x0000fffffffff000 = 0" "PROT_DEVICE_nGnRnE AND 0x0000fffffffff000 = 0"
  "PAGE_SHARED AND 0x0000fffffffff000 = 0" "PAGE_READONLY_EXEC AND 0x0000fffffffff000 = 0"
  by (simp_all add: kernel_prot_def prot_values)

lemma kernel_permissions:
  assumes "frame p"
  shows "\<not> el0_read (p OR kernel_prot im p)" "\<not> el0_write (p OR kernel_prot im p)" "\<not> el0_exec (p OR kernel_prot im p)"
    "el1_write (p OR kernel_prot im p) \<longleftrightarrow> \<not> (text_start im \<le> p \<and> p < text_end im) \<and> \<not> (rodata_start im \<le> p \<and> p < rodata_end im)"
    "el1_exec (p OR kernel_prot im p) \<longleftrightarrow> text_start im \<le> p \<and> p < text_end im"
  unfolding permissions [OF assms] using prot_permissions(1-3) by (simp_all add: kernel_prot_def)

text \<open>What every mapped address satisfies.\<close>

definition protected :: "image \<Rightarrow> u64 \<Rightarrow> u64 \<Rightarrow> bool" where
  "protected im va d \<longleftrightarrow>
     (el0_write d \<or> el1_write d \<longrightarrow> \<not> el0_exec d \<and> \<not> el1_exec d) \<and>
     (el0_read d \<or> el0_write d \<or> el0_exec d \<longrightarrow> user_space va = Some d \<and> output_addr d = page_base va) \<and>
     (el1_exec d \<longrightarrow> text_start im \<le> output_addr d \<and> output_addr d < text_end im) \<and>
     (text_start im \<le> output_addr d \<and> output_addr d < text_end im \<or> rodata_start im \<le> output_addr d \<and> output_addr d < rodata_end im \<longrightarrow>
        \<not> el0_write d \<and> \<not> el1_write d)"

lemma kernel_protected:
  assumes ok: "layout_ok im" and d: "kernel_space im va = Some d"
  shows "protected im va d"
proof -
  have ends: "unat (text_start im) \<ge> 0x40000000" "unat (rodata_start im) \<ge> 0x40000000" using ok by (simp_all add: layout_ok_def)
  from d consider "PAGE_OFFSET \<le> va" "va < PAGE_OFFSET + RAM_SIZE" "d = page_base (kpa va) OR kernel_prot im (page_base (kpa va))"
    | "device (va - IO_OFFSET)" "d = page_base (va - IO_OFFSET) OR PROT_DEVICE_nGnRnE"
    by (auto simp: kernel_space_def split: if_splits)
  then show ?thesis
  proof cases
    case 1
    have "unat (va - PAGE_OFFSET) < 0x8000000"
      using 1(1,2) by (subst unat_sub_le) (simp_all add: word_less_nat_alt word_le_nat_alt PAGE_OFFSET_def RAM_SIZE_def)
    then have "unat (kpa va) < 2 ^ 48" unfolding kpa_def by (subst unat_add_nowrap) (simp_all add: PHYS_OFFSET_def)
    then have f: "frame (page_base (kpa va))" using frame_page_base by blast
    have "output_addr d = page_base (kpa va)" unfolding 1(3) by (rule descriptor_output [OF f prot_output(1)])
    then show ?thesis unfolding protected_def 1(3) using kernel_permissions [OF f, of im] by simp
  next
    case 2
    have u: "unat (va - IO_OFFSET) < 0x40000000" using 2(1) by (auto simp: device_def word_less_nat_alt)
    then have f: "frame (page_base (va - IO_OFFSET))" "unat (page_base (va - IO_OFFSET)) \<le> unat (va - IO_OFFSET)"
      using frame_page_base [of "va - IO_OFFSET"] by simp_all
    have o: "output_addr d = page_base (va - IO_OFFSET)" unfolding 2(2) by (rule descriptor_output [OF f(1) prot_output(2)])
    have "\<not> text_start im \<le> output_addr d" "\<not> rodata_start im \<le> output_addr d"
      unfolding o word_le_nat_alt using u f(2) ends by linarith+
    then show ?thesis unfolding protected_def unfolding 2(2) permissions [OF f(1)] using prot_permissions(4) by simp
  qed
qed

lemma user_protected:
  assumes ok: "layout_ok im" and d: "user_space va = Some d"
  shows "protected im va d"
proof -
  have ends: "unat (text_end im) \<le> 0x41000000" "unat (rodata_end im) \<le> 0x41000000" using ok by (simp_all add: layout_ok_def)
  obtain p where p: "d = page_base va OR p" "p = PAGE_READONLY_EXEC \<or> p = PAGE_SHARED" and va: "0x41000000 \<le> unat va" "unat va < 0x41060000"
    using d by (auto simp: user_space_def Let_def word_le_nat_alt word_less_nat_alt APP_FIRST_def APP_COUNT_def APP_SLOT_SIZE_def split: if_splits)
  have f: "frame (page_base va)" "0x41000000 \<le> unat (page_base va)"
    using frame_page_base [of va] va mult_le_mono1 [of "0x41000" "unat va div 4096" 4096] by (simp_all add: page_le)
  have o: "output_addr d = page_base va" unfolding p(1) by (rule descriptor_output [OF f(1)]) (use p(2) prot_output(3,4) in auto)
  have "\<not> output_addr d < text_end im" "\<not> output_addr d < rodata_end im" unfolding o word_less_nat_alt using ends f(2) by linarith+
  then show ?thesis using p(2) prot_permissions(5,6) d o unfolding protected_def unfolding p(1) permissions [OF f(1)] by auto
qed

section \<open>A concrete image\<close>

definition example_image :: image where
  "example_image = \<lparr>swapper_pg_dir = 0x40090000, idmap_pg_dir = 0x40091000, user_pg_dir = 0x40092000, early_pgtables = 0x40093000,
     text_start = 0x40080000, text_end = 0x40088000, rodata_start = 0x40088000, rodata_end = 0x4008a000\<rparr>"

definition example_mmu :: mmu where
  "example_mmu = \<lparr>entries = (\<lambda>_. 0), early_pgtables_used = 0, mair_el1 = 0, tcr_el1 = 0, ttbr0_el1 = 0, ttbr1_el1 = 0, sctlr_el1 = 0\<rparr>"

lemma example_image: "layout_ok example_image" "cleared example_image example_mmu"
proof -
  have t: "unat (tab example_image k) = 0x40093000 + k * 4096" if "k < 70" for k
    using that unfolding tab_def example_image_def by (subst unat_add_nowrap) (simp_all add: unat_of_nat del: of_nat_mult)
  then have "b \<noteq> tab example_image k" if "k < 70" "unat b < 0x40093000" for b k using t [OF that(1)] that(2) by auto
  then show "layout_ok example_image" by (simp add: layout_ok_def tables_ok_def frame_def example_image_def)
  show "cleared example_image example_mmu" by (simp add: cleared_def example_mmu_def)
qed

lemma example_spaces:
  "kernel_space example_image 0xffffffc000080004 = Some (0x40080000 OR PAGE_KERNEL_ROX)"
  "kernel_space example_image 0xffffffc000080000 = Some (0x40080000 OR PAGE_KERNEL_ROX)"
  "identity_space example_image 0x40080004 = Some (0x40080000 OR PAGE_KERNEL_ROX)"
  "user_space 0x40080004 = None" "user_space 0x41010000 = None" "user_space 0x4101c008 = Some (0x4101c000 OR PAGE_SHARED)"
  "user_space 0xffffffc000080000 = None"
  by (simp_all add: kernel_space_def identity_space_def user_space_def Let_def PAGE_OFFSET_def RAM_SIZE_def PHYS_OFFSET_def kpa_def page_base_def
      kernel_prot_def example_image_def APP_FIRST_def APP_COUNT_def APP_SLOT_SIZE_def APP_IMAGE_SIZE_def APP_STACK_SIZE_def)

section \<open>Properties\<close>

text \<open>
  C36: from cleared tables \<^verbatim>\<open>mmu_init\<close> never takes more tables than the array has and returns with the MMU on, 39-bit address spaces in 4 KiB pages in both halves
  and the two memory types set. Every virtual address then translates as documented: the upper half holds the linear map of all
  RAM, with the kernel text read-only and executable and the read-only data read-only, and the three device ranges; the
  lower half maps RAM to itself until \<^verbatim>\<open>cpu_uninstall_idmap\<close> and afterwards exactly the images and stacks of the applications. All other
  addresses fault.
\<close>

theorem mmu_init_maps:
  assumes "layout_ok im" "cleared im s"
  shows "\<exists>s'. mmu_init im s = Some s' \<and> sctlr_el1 s' AND 1 = 1 \<and> mair_el1 s' = 0x4400 \<and>
    tcr_el1 s' AND 0x3f = 25 \<and> drop_bit 16 (tcr_el1 s') AND 0x3f = 25 \<and> drop_bit 14 (tcr_el1 s') AND 3 = 0 \<and> drop_bit 30 (tcr_el1 s') AND 3 = 2 \<and>
    (\<forall>va. translate s' va = map_option (Pair 3) (if unat va < 2 ^ 39 then identity_space im va else kernel_space im va)) \<and>
    (\<forall>va. translate (cpu_uninstall_idmap im s') va = map_option (Pair 3) (if unat va < 2 ^ 39 then user_space va else kernel_space im va))"
proof (rule address_spaces [OF assms], goal_cases init)
  case (init s')
  then show ?case by (intro exI [of _ s']) simp
qed

theorem mmu_init_maps_witness:
  "\<exists>s'. mmu_init example_image example_mmu = Some s' \<and>
     translate s' 0xffffffc000080004 = Some (3, 0x40080000 OR PAGE_KERNEL_ROX) \<and> translate s' 0x40080004 = Some (3, 0x40080000 OR PAGE_KERNEL_ROX) \<and>
     translate (cpu_uninstall_idmap example_image s') 0x40080004 = None \<and>
     translate (cpu_uninstall_idmap example_image s') 0x41010000 = None \<and>
     translate (cpu_uninstall_idmap example_image s') 0x4101c008 = Some (3, 0x4101c000 OR PAGE_SHARED)"
proof -
  obtain s' where "mmu_init example_image example_mmu = Some s'"
    and t: "\<And>va. translate s' va = map_option (Pair 3) (if unat va < 2 ^ 39 then identity_space example_image va else kernel_space example_image va)"
    "\<And>va. translate (cpu_uninstall_idmap example_image s') va = map_option (Pair 3) (if unat va < 2 ^ 39 then user_space va else kernel_space example_image va)"
    using mmu_init_maps [OF example_image] by blast
  then show ?thesis by (intro exI [of _ s'] conjI) (simp_all add: t example_spaces)
qed

text \<open>
  C4: once the kernel has switched to its own address space, no page is both writable and executable at any exception level, an application reaches
  only the images and stacks of the application slots, at their own addresses, the kernel executes only its text, and neither
  text nor read-only data is writable through any address.
\<close>

theorem mmu_protects:
  assumes "layout_ok im" "cleared im s" "mmu_init im s = Some s'" "translate (cpu_uninstall_idmap im s') va = Some (level, d)"
  shows "level = 3 \<and> (el0_write d \<or> el1_write d \<longrightarrow> \<not> el0_exec d \<and> \<not> el1_exec d) \<and>
     (el0_read d \<or> el0_write d \<or> el0_exec d \<longrightarrow> user_space va = Some d \<and> output_addr d = page_base va) \<and>
     (el1_exec d \<longrightarrow> text_start im \<le> output_addr d \<and> output_addr d < text_end im) \<and>
     (text_start im \<le> output_addr d \<and> output_addr d < text_end im \<or> rodata_start im \<le> output_addr d \<and> output_addr d < rodata_end im \<longrightarrow>
        \<not> el0_write d \<and> \<not> el1_write d)"
proof (rule address_spaces [OF assms(1,2)], goal_cases init)
  case (init s1)
  then have "s1 = s'" using assms(3) by simp
  then have "map_option (Pair 3) (if unat va < 2 ^ 39 then user_space va else kernel_space im va) = Some (level, d)" using init(6) [of va] assms(4) by simp
  then have "level = 3" "(if unat va < 2 ^ 39 then user_space va else kernel_space im va) = Some d" unfolding map_option_eq_Some by blast+
  moreover from this(2) have "protected im va d"
    using user_protected [OF assms(1)] kernel_protected [OF assms(1)] by (cases "unat va < 2 ^ 39") simp_all
  ultimately show ?case unfolding protected_def by blast
qed

theorem mmu_protects_witness:
  "\<exists>s' d. mmu_init example_image example_mmu = Some s' \<and> translate (cpu_uninstall_idmap example_image s') 0xffffffc000080000 = Some (3, d) \<and>
     \<not> el1_write d \<and> \<not> el0_exec d"
proof (rule address_spaces [OF example_image], goal_cases init)
  case (init s')
  let ?d = "0x40080000 OR PAGE_KERNEL_ROX"
  have t: "translate (cpu_uninstall_idmap example_image s') 0xffffffc000080000 = Some (3, ?d)"
    unfolding init(6) by (simp add: example_spaces)
  have o: "output_addr ?d = 0x40080000" by (simp add: output_addr_def prot_values)
  have tx: "text_start example_image \<le> 0x40080000 \<and> 0x40080000 < text_end example_image" by (simp add: example_image_def)
  show ?case using mmu_protects [OF example_image init(1) t] t init(1) tx unfolding o example_spaces by (intro exI [of _ s'] exI [of _ ?d]) simp
qed

end
