(* ===== verification/System.thy ===== *)
theory System
  imports Init_Props Mmu_Props
begin

text \<open>
  The running system: the allocators and the tasks that \<^verbatim>\<open>start_kernel\<close> leaves, in the address spaces that \<^verbatim>\<open>mmu_init\<close> and
  \<^verbatim>\<open>cpu_uninstall_idmap\<close> have set up, under any interleaving of exceptions and stores by the applications.
\<close>

unbundle bit_operations_syntax

section \<open>Access through the tables\<close>

definition target :: "u64 \<Rightarrow> u64 \<Rightarrow> u64" where
  "target d va = output_addr d + (va AND 0xfff)"

definition final_spaces :: "image \<Rightarrow> mmu \<Rightarrow> bool" where
  "final_spaces im t \<longleftrightarrow> (\<forall>va. translate t va = map_option (Pair 3) (if unat va < 2 ^ 39 then user_space va else kernel_space im va))"

lemma final_spaces:
  assumes "layout_ok im" "cleared im s" "mmu_init im s = Some s'"
  shows "final_spaces im (cpu_uninstall_idmap im s')"
proof (rule address_spaces [OF assms(1,2)], goal_cases init)
  case (init s1)
  then show ?case using assms(3) unfolding final_spaces_def by simp
qed

lemma offset_mod: "a AND 0xfff = of_nat (unat a mod 4096)" for a :: u64
proof -
  have "a AND 0xfff = take_bit 12 a" by (simp add: take_bit_eq_mask mask_eq_exp_minus_1)
  also have "\<dots> = of_nat (unat a mod 4096)" by (simp add: word_unat_eq_iff unat_mod unat_of_nat take_bit_eq_mod)
  finally show ?thesis .
qed

lemma page_base_offset: "page_base a + (a AND 0xfff) = a"
proof -
  have "page_base a + (a AND 0xfff) = of_nat (unat a div 4096 * 4096 + unat a mod 4096)" by (simp only: page_base_def offset_mod of_nat_add)
  then show ?thesis by (simp only: div_mult_mod_eq) simp
qed

text \<open>The stacks of the applications.\<close>

definition app_stacks :: "u64 set" where
  "app_stacks = {a. \<exists>i<APP_COUNT. a \<in> slot i \<and> 0x1c000 \<le> unat (a - (APP_FIRST + of_nat i * APP_SLOT_SIZE))}"

text \<open>An access from EL0 reaches the address it names, and that is in a slot; a store in a stack.\<close>

lemma user_access:
  assumes sp: "final_spaces im t" and ok: "layout_ok im" and d: "translate t va = Some (l, d)" and r: "el0_read d \<or> el0_write d"
  shows "target d va = va" "\<exists>i<APP_COUNT. va \<in> slot i" "el0_write d \<Longrightarrow> va \<in> app_stacks"
proof -
  have "(if unat va < 2 ^ 39 then user_space va else kernel_space im va) = Some d"
    using sp d by (auto simp: final_spaces_def)
  then have "protected im va d" using user_protected [OF ok] kernel_protected [OF ok] by (auto split: if_splits)
  then have u: "user_space va = Some d" "output_addr d = page_base va" using r unfolding protected_def by blast+
  then show "target d va = va" by (simp add: target_def page_base_offset)
  have va: "0x41000000 \<le> unat va" "unat va < 0x41060000"
    using u(1) by (auto simp: user_space_def Let_def word_le_nat_alt word_less_nat_alt APP_FIRST_def APP_COUNT_def APP_SLOT_SIZE_def split: if_splits)
  define i where "i = (unat va - 0x41000000) div 0x20000"
  have i: "i < APP_COUNT" using va by (simp add: i_def APP_COUNT_def less_mult_imp_div_less)
  have "i * 0x20000 \<le> unat va - 0x41000000" "unat va - 0x41000000 < i * 0x20000 + 0x20000"
    using div_mult_mod_eq [of "unat va - 0x41000000" "0x20000"] mod_less_divisor [of "0x20000" "unat va - 0x41000000"]
    unfolding i_def by linarith+
  then have slot: "va \<in> slot i" using va i unfolding less_APP_COUNT by (auto simp: slot_def app_layout)
  then show "\<exists>i<APP_COUNT. va \<in> slot i" using i by blast
  assume w: "el0_write d"
  have "frame (page_base va)" using frame_page_base [of va] va by simp
  then have "d \<noteq> page_base va OR PAGE_READONLY_EXEC" using w permissions prot_permissions(6) by auto
  then have "0x1c000 \<le> unat ((va - APP_FIRST) mod APP_SLOT_SIZE)"
    using u(1) by (auto simp: user_space_def Let_def word_le_nat_alt app_layout split: if_splits)
  also have "\<dots> = (unat va - 0x41000000) mod 0x20000" using va by (simp add: unat_mod unat_sub_if' app_layout)
  also have "\<dots> = unat va - 0x41000000 - i * 0x20000" by (simp add: i_def minus_div_mult_eq_mod)
  finally have "0x1c000 \<le> unat (va - (APP_FIRST + of_nat i * APP_SLOT_SIZE))"
    using va i unfolding less_APP_COUNT by (auto simp: app_layout unat_sub_if')
  then show "va \<in> app_stacks" using i slot by (auto simp: app_stacks_def)
qed

section \<open>The running system\<close>

text \<open>A store of one byte by an application: it happens when the tables permit it, and faults otherwise.\<close>

definition user_store :: "mmu \<Rightarrow> u64 \<Rightarrow> u8 \<Rightarrow> kernel \<Rightarrow> kernel option" where
  "user_store t va v k =
     (case translate t va of
        Some (level, d) \<Rightarrow> if el0_write d then Some (k\<lparr>phys_mem := (phys_mem k)(target d va := v)\<rparr>) else None
      | None \<Rightarrow> None)"

inductive sys_step :: "mmu \<Rightarrow> kernel \<Rightarrow> kernel \<Rightarrow> bool" for t where
  exception: "length (r_regs regs) = 31 \<Longrightarrow> trap sr regs irq k = Some (k', Resume j) \<Longrightarrow> sys_step t k k'"
| store: "user_store t va v k = Some k' \<Longrightarrow> sys_step t k k'"

definition changes_stacks :: "kernel \<Rightarrow> kernel \<Rightarrow> bool" where
  "changes_stacks k k' \<longleftrightarrow> (\<forall>a. a \<notin> app_stacks \<longrightarrow> phys_mem k' a = phys_mem k a)"

lemma user_store_changes:
  assumes "final_spaces im t" "layout_ok im" "user_store t va v k = Some k'"
  shows "changes_stacks k k'" "running k' \<longleftrightarrow> running k"
proof -
  obtain l d where d: "translate t va = Some (l, d)" "el0_write d" "k' = k\<lparr>phys_mem := (phys_mem k)(target d va := v)\<rparr>"
    using assms(3) by (auto simp: user_store_def split: option.splits if_splits)
  have "target d va = va" "va \<in> app_stacks" using user_access [OF assms(1,2) d(1)] d(2) by blast+
  then show "changes_stacks k k'" by (auto simp: changes_stacks_def d(3))
  show "running k' \<longleftrightarrow> running k" by (simp add: d(3) running_def kernel_ok_def)
qed

lemma sys_step_keeps:
  assumes "sys_step t k k'" "final_spaces im t" "layout_ok im" "running k"
  shows "running k' \<and> changes_stacks k k'"
  using assms(1)
proof cases
  case (exception regs sr irq j)
  then have f: "full_frame (sr, regs, irq)" by (simp add: full_frame_def)
  note r = trap_resumes [OF assms(4) f exception(2)]
  then show ?thesis by (simp add: changes_stacks_def trap_effect_def only_task_def)
next
  case (store va v)
  then show ?thesis using user_store_changes [OF assms(2,3)] assms(4) by blast
qed

lemma sys_run_keeps:
  assumes "(sys_step t)\<^sup>*\<^sup>* k0 k" "final_spaces im t" "layout_ok im" "running k0"
  shows "running k \<and> changes_stacks k0 k"
  using assms(1)
proof (induction rule: rtranclp_induct)
  case base
  then show ?case using assms(4) by (simp add: changes_stacks_def)
next
  case (step k k')
  then show ?case using sys_step_keeps [OF step(2) assms(2,3)] by (auto simp: changes_stacks_def)
qed

text \<open>The bytes of an image are below the stack of their slot.\<close>

lemma image_byte:
  assumes "i < APP_COUNT" "app_fits bs" "j < length bs"
  shows "APP_FIRST + of_nat i * APP_SLOT_SIZE + of_nat j \<in> slot i" "APP_FIRST + of_nat i * APP_SLOT_SIZE + of_nat j \<notin> app_stacks"
    "loaded i bs m (APP_FIRST + of_nat i * APP_SLOT_SIZE + of_nat j) = bs ! j"
proof -
  let ?a = "APP_FIRST + of_nat i * APP_SLOT_SIZE + of_nat j"
  have j: "j < 0x10000" using assms(2,3) by (simp add: app_fits_def)
  have u: "unat ?a = 0x41000000 + i * 0x20000 + j"
    using assms(1) j unfolding less_APP_COUNT by (auto simp: app_layout unat_word_ariths unat_of_nat)
  show slot: "?a \<in> slot i" using assms(1) j unfolding slot_def mem_Collect_eq u less_APP_COUNT by (auto simp: app_layout)
  have same: "i' = i" if "i' < APP_COUNT" "?a \<in> slot i'" for i'
    using that assms(1) j unfolding slot_def mem_Collect_eq u less_APP_COUNT by (auto simp: app_layout)
  show "?a \<notin> app_stacks"
  proof
    assume "?a \<in> app_stacks"
    then obtain i' where "i' < APP_COUNT" "?a \<in> slot i'" "0x1c000 \<le> unat (?a - (APP_FIRST + of_nat i' * APP_SLOT_SIZE))"
      by (auto simp: app_stacks_def)
    with same [of i'] j show False by (simp add: unat_of_nat)
  qed
  show "loaded i bs m ?a = bs ! j" using j assms(3) by (simp add: loaded_def Let_def unat_of_nat)
qed

lemma app_stacks_slot: "a \<in> app_stacks \<Longrightarrow> \<exists>i<APP_COUNT. a \<in> slot i"
  by (auto simp: app_stacks_def)

text \<open>A byte of the heap, reached through the linear map.\<close>

lemma heap_byte_mapped:
  assumes sp: "final_spaces im t" and ok: "layout_ok im" and x: "0xffffffc000000000 \<le> unat x"
    and k: "unat (rodata_end im) \<le> unat (page_base (kpa x))" "unat (kpa x) < 0x48000000"
  obtains d where "translate t x = Some (3, d)" "target d x = kpa x" "el1_write d" "\<not> el1_exec d" "\<not> el0_read d" "\<not> el0_write d"
proof -
  let ?b = "page_base (kpa x)"
  have u: "unat (kpa x) = unat x - 0xffffffc000000000 + 0x40000000"
    using x u64_bound [of x] unfolding kpa_def PAGE_OFFSET_def PHYS_OFFSET_def by (subst unat_add_nowrap) (simp_all add: unat_sub_if')
  have f: "frame ?b" using frame_page_base [of "kpa x"] k(2) by simp
  have "unat x < 0xffffffc008000000" using u k(2) x by linarith
  then have "kernel_space im x = Some (?b OR kernel_prot im ?b)"
    using x by (simp add: kernel_space_def word_le_nat_alt word_less_nat_alt PAGE_OFFSET_def RAM_SIZE_def)
  moreover have "\<not> unat x < 2 ^ 39" using x by simp
  ultimately have t: "translate t x = Some (3, ?b OR kernel_prot im ?b)" using sp by (simp add: final_spaces_def)
  have "unat (kpa x) mod 4096 = unat x mod 4096"
  proof -
    define y where "y = unat x - 0xffffffc000000 * 4096"
    then have y: "unat x = y + 0xffffffc000000 * 4096" using x by simp
    then have "unat (kpa x) = y + 0x40000 * 4096" using u by simp
    then show ?thesis unfolding y by (simp only: mod_mult_self1)
  qed
  then have "x AND 0xfff = kpa x AND 0xfff" unfolding offset_mod by simp
  then have "target (?b OR kernel_prot im ?b) x = kpa x"
    unfolding target_def descriptor_output [OF f prot_output(1)] by (simp add: page_base_offset)
  moreover have "unat (text_end im) \<le> unat (rodata_end im)" using ok by (simp add: layout_ok_def)
  then have "\<not> ?b < text_end im" "\<not> ?b < rodata_end im" using k(1) by (simp_all add: word_less_nat_alt)
  ultimately show thesis using that [OF t] kernel_permissions [OF f, of im] by simp
qed

section \<open>The start\<close>

text \<open>What the start of the kernel relies on: the state of the static variables, room for the page descriptors, images that fit and a device that answers.\<close>

definition bootable :: "device \<Rightarrow> nat \<Rightarrow> u64 \<Rightarrow> u64 \<Rightarrow> u64 \<Rightarrow> u8 list list \<Rightarrow> boot \<Rightarrow> bool" where
  "bootable dev wait cntfrq e p payloads b \<longleftrightarrow>
     mblock b = static_memblock \<and> length (nr_free (zone b)) = MAX_ORDER \<and> length (caches b) = 8 \<and>
     0x40000000 \<le> unat (kpa e) \<and> unat (kpa e) \<le> 0x48000000 \<and> (\<exists>a. room_for_map (unused_ram (phys_mem (kern b)) e p) a) \<and>
     length payloads = APP_COUNT \<and> list_all app_fits payloads \<and> boot_tables (kern b) \<and>
     (\<forall>h reg n. answers dev reg n wait h) \<and> 100 \<le> unat cntfrq \<and> unat cntfrq div 100 \<le> 0x7fffffff"

lemma bootable_starts:
  assumes "bootable dev wait cntfrq e p payloads b"
  obtains h' b' F where "start_kernel dev sre cntfrq sr br e p payloads h b = Some (h', b', Resume 0)"
    "running (kern b')" "heap_ok F (boot_heap b') {}"
    "\<And>f x. f \<in> F \<Longrightarrow> f * 4096 \<le> x \<Longrightarrow> x < (f + 1) * 4096 \<Longrightarrow> unat (kpa e) \<le> x \<and> x < 0x48000000 \<and> (\<forall>i<APP_COUNT. of_nat x \<notin> slot i)"
    "\<And>i a. i < APP_COUNT \<Longrightarrow> a \<in> slot i \<Longrightarrow> phys_mem (kern b') a = loaded i (payloads ! i) (phys_mem (kern b)) a"
    "\<And>a. (\<And>i. i < APP_COUNT \<Longrightarrow> a \<notin> slot i) \<Longrightarrow> phys_mem (kern b') a = phys_mem (kern b) a"
    "\<exists>d :: u64. F = page_frames (unused_ram (phys_mem (kern b)) e p - {unat d..<unat d + 0x180000})"
proof -
  have "mblock b = static_memblock" "length (nr_free (zone b)) = MAX_ORDER" "length (caches b) = 8"
    "0x40000000 \<le> unat (kpa e)" "unat (kpa e) \<le> 0x48000000" "\<exists>a. room_for_map (unused_ram (phys_mem (kern b)) e p) a"
    "length payloads = APP_COUNT" "list_all app_fits payloads" "boot_tables (kern b)" "\<And>h reg n. answers dev reg n wait h"
    "100 \<le> unat cntfrq" "unat cntfrq div 100 \<le> 0x7fffffff"
    using assms by (simp_all add: bootable_def)
  note start = start_kernel_ok [OF this(1-5) refl this(6-12), where sre = sre and sr = sr and br = br and h = h]
  show thesis by (rule start) (use that in blast)
qed

lemma example_bootable: "bootable (\<lambda>_ _. 0) 1 62500000 (kva 0x40100000) 0 sample_payloads example_boot"
proof -
  have "list_all app_fits sample_payloads" by (simp add: sample_payloads_def app_fits_def)
  moreover have "boot_tables (kern example_boot)" using sample_boot(1) by (simp add: example_boot_def)
  ultimately show ?thesis using example_boot sample_boot(2) example_room(1) by (auto simp: bootable_def)
qed

lemma boot_heap_serves:
  assumes "bootable dev wait cntfrq e p payloads b" "unused_ram (phys_mem (kern b)) e p = {0x40100000..<0x41000000} \<union> {0x41060000..<0x48000000}"
    and "start_kernel dev sre cntfrq sr br e p payloads h b = Some (h', b', Resume 0)"
  obtains s a where "kmalloc 100 (boot_heap b') = Some (s, a)" "a \<noteq> 0"
proof (rule bootable_starts [OF assms(1), where sre = sre and sr = sr and br = br and h = h], goal_cases start)
  case (start h1 b1 F)
  have b1: "b1 = b'" using start(2) assms(3) by simp
  obtain d :: u64 where F: "F = page_frames ({0x40100000..<0x41000000} \<union> {0x41060000..<0x48000000} - {unat d..<unat d + 0x180000})"
    using start(8) assms(2) by auto
  have "0x42000 \<in> F \<or> 0x45000 \<in> F" unfolding F page_frames_def by (auto simp: subset_iff)
  then have "free_frames (pa (boot_heap b')) \<noteq> {}" using heap_ok_empty(1) [OF start(4)] b1 by auto
  then obtain k q where "(k, q) \<in> free_blocks (pa (boot_heap b'))" by (auto simp: free_frames_def frames_def)
  moreover have "1 \<le> (2 :: nat) ^ k" by simp
  then have "\<not> 4096 * 2 ^ k < (100 :: nat)" by linarith
  ultimately have large: "\<not> (\<forall>(k, p)\<in>free_blocks (pa (boot_heap b')). 4096 * 2 ^ k < unat (100 :: u64))" by force
  from start(4) [unfolded b1] show thesis
  proof (cases rule: kmalloc_ok [where sz = 100, consumes 1])
    case none
    then show thesis using large by simp
  next
    case (object s a n)
    then show thesis using that by blast
  qed
qed

section \<open>Properties\<close>





end
