(* ===== verification/Apps.thy ===== *)
theory Apps
  imports Task_Load
begin

text \<open>
  The applications of \<^verbatim>\<open>apps/*.c\<close> and the logging functions of \<^verbatim>\<open>apps/app.h\<close> they use. What an application does
  to its surroundings is its sequence of system calls: the number of each and the bytes its two arguments, an address and a length,
  delimit; no application reads the answer. The local arrays of
  \<^verbatim>\<open>log_value\<close> are lists that hold what the stack held before, an argument; an access outside makes the result \<open>None\<close>.
\<close>

unbundle bit_operations_syntax

section \<open>System calls\<close>

type_synonym calls = "(u64 \<times> u8 list) list"

definition bytes :: "string \<Rightarrow> u8 list" where
  "bytes text = map of_char text"

definition app_syscall :: "u64 \<Rightarrow> u8 list \<Rightarrow> calls \<Rightarrow> calls" where
  "app_syscall number data calls = calls @ [(number, data)]"

fun text_length :: "string \<Rightarrow> nat" where
  "text_length [] = 0"
| "text_length (c # cs) = (if c \<noteq> CHR 0x00 then Suc (text_length cs) else 0)"

definition log_text :: "string \<Rightarrow> calls \<Rightarrow> calls" where
  "log_text text calls = app_syscall NR_log (bytes (take (text_length text) text)) calls"

section \<open>Logging a number\<close>

definition get_at :: "u8 list \<Rightarrow> nat \<Rightarrow> u8 option" where
  "get_at xs i = (if i < length xs then Some (xs ! i) else None)"

definition put_at :: "u8 list \<Rightarrow> nat \<Rightarrow> u8 \<Rightarrow> u8 list option" where
  "put_at xs i v = (if i < length xs then Some (xs[i := v]) else None)"

fun label_loop :: "string \<Rightarrow> u8 list \<Rightarrow> nat \<Rightarrow> (u8 list \<times> nat) option" where
  "label_loop [] buffer len = Some (buffer, len)"
| "label_loop (c # label) buffer len =
     (if c \<noteq> CHR 0x00 \<and> len < 74 then do {
        buffer \<leftarrow> put_at buffer len (of_char c);
        label_loop label buffer (len + 1)
      }
      else Some (buffer, len))"

lemma div10_less: "v div 10 \<noteq> 0 \<Longrightarrow> unat (v div 10) < unat v" for v :: u64
  by (cases "v = 0") (simp_all add: unat_div unat_gt_0)

function digits_loop :: "u64 \<Rightarrow> u8 list \<Rightarrow> nat \<Rightarrow> (u8 list \<times> nat) option" where
  "digits_loop v digits count = do {
     digits \<leftarrow> put_at digits count (ucast (48 + v mod 10));
     if v div 10 \<noteq> 0 then digits_loop (v div 10) digits (count + 1) else Some (digits, count + 1)
   }"
  by pat_completeness auto
termination
  by (relation "measure (\<lambda>(v, ds, c). unat v)") (simp_all add: div10_less)

declare digits_loop.simps [simp del]

fun copy_loop :: "nat \<Rightarrow> u8 list \<Rightarrow> u8 list \<Rightarrow> nat \<Rightarrow> (u8 list \<times> nat) option" where
  "copy_loop 0 digits buffer len = Some (buffer, len)"
| "copy_loop (Suc count) digits buffer len = do {
     d \<leftarrow> get_at digits count;
     buffer \<leftarrow> put_at buffer len d;
     copy_loop count digits buffer (len + 1)
   }"

definition log_value :: "u8 list \<Rightarrow> u8 list \<Rightarrow> string \<Rightarrow> u64 \<Rightarrow> calls \<Rightarrow> calls option" where
  "log_value buffer digits label v calls = do {
     (buffer, len) \<leftarrow> label_loop label buffer 0;
     (digits, count) \<leftarrow> digits_loop v digits 0;
     (buffer, len) \<leftarrow> copy_loop count digits buffer len;
     buffer \<leftarrow> put_at buffer len 10;
     Some (app_syscall NR_log (take (len + 1) buffer) calls)
   }"

section \<open>The applications\<close>

text \<open>Each returns the status it exits with.\<close>

function sequence_loop :: "u8 list \<Rightarrow> u8 list \<Rightarrow> u64 \<Rightarrow> u64 \<Rightarrow> calls \<Rightarrow> (u64 \<times> calls) option" where
  "sequence_loop bf ds number tot calls =
     (if number \<le> 3000000 then do {
        let tot = tot + number;
        calls \<leftarrow> (if number mod 1000000 = 0 then log_value bf ds ''sequence progress='' number calls else Some calls);
        sequence_loop bf ds (number + 1) tot calls
      }
      else Some (tot, calls))"
  by pat_completeness auto
termination
  by (relation "measure (\<lambda>(bf, ds, number, tot, calls). 3000001 - unat number)")
    (auto simp: word_le_nat_alt unat_word_ariths)

declare sequence_loop.simps [simp del]

definition sequence_main :: "u8 list \<Rightarrow> u8 list \<Rightarrow> (u32 \<times> calls) option" where
  "sequence_main bf ds = do {
     let calls = log_text (''sequence start'' @ NL) [];
     (tot, calls) \<leftarrow> sequence_loop bf ds 1 0 calls;
     calls \<leftarrow> log_value bf ds ''sequence result='' tot calls;
     Some (if tot = 4500001500000 then 0 else 1, calls)
   }"

function checksum_loop :: "u8 list \<Rightarrow> u8 list \<Rightarrow> u32 \<Rightarrow> u32 \<Rightarrow> calls \<Rightarrow> (u32 \<times> calls) option" where
  "checksum_loop bf ds number checksum calls =
     (if number < 4000000 then do {
        let checksum = checksum + (number AND 255);
        calls \<leftarrow> (if (number + 1) mod 1000000 = 0 then log_value bf ds ''checksum progress='' (ucast (number + 1)) calls else Some calls);
        checksum_loop bf ds (number + 1) checksum calls
      }
      else Some (checksum, calls))"
  by pat_completeness auto
termination
  by (relation "measure (\<lambda>(bf, ds, number, c, calls). 4000000 - unat number)")
    (auto simp: word_less_nat_alt unat_word_ariths)

declare checksum_loop.simps [simp del]

definition checksum_main :: "u8 list \<Rightarrow> u8 list \<Rightarrow> (u32 \<times> calls) option" where
  "checksum_main bf ds = do {
     let calls = log_text (''checksum start'' @ NL) [];
     (checksum, calls) \<leftarrow> checksum_loop bf ds 0 0 calls;
     calls \<leftarrow> log_value bf ds ''checksum result='' (ucast checksum) calls;
     Some (if checksum = 510000000 then 0 else 1, calls)
   }"

text \<open>The inner loop of \<^verbatim>\<open>primes.c\<close>; the square of the divisor is taken modulo \<open>2 ^ 32\<close>.\<close>

partial_function (option) divisor_loop :: "u32 \<Rightarrow> u32 \<Rightarrow> bool option" where
  "divisor_loop candidate divisor =
     (if divisor * divisor \<le> candidate then
        if candidate mod divisor = 0 then Some False else divisor_loop candidate (divisor + 1)
      else Some True)"

function primes_loop :: "u8 list \<Rightarrow> u8 list \<Rightarrow> u32 \<Rightarrow> u32 \<Rightarrow> calls \<Rightarrow> (u32 \<times> calls) option" where
  "primes_loop bf ds candidate count calls =
     (if candidate \<le> 100000 then do {
        is_prime \<leftarrow> divisor_loop candidate 2;
        let count = count + (if is_prime then 1 else 0);
        calls \<leftarrow> (if candidate mod 25000 = 0 then log_value bf ds ''primes progress='' (ucast candidate) calls else Some calls);
        primes_loop bf ds (candidate + 1) count calls
      }
      else Some (count, calls))"
  by pat_completeness auto
termination
  by (relation "measure (\<lambda>(bf, ds, candidate, c, calls). 100001 - unat candidate)")
    (auto simp: word_le_nat_alt unat_word_ariths)

declare primes_loop.simps [simp del]

definition primes_main :: "u8 list \<Rightarrow> u8 list \<Rightarrow> (u32 \<times> calls) option" where
  "primes_main bf ds = do {
     let calls = log_text (''primes start'' @ NL) [];
     (count, calls) \<leftarrow> primes_loop bf ds 2 0 calls;
     calls \<leftarrow> log_value bf ds ''primes result='' (ucast count) calls;
     Some (if count = 9592 then 0 else 1, calls)
   }"

end
