(* ===== verification/Apps_Props.thy ===== *)
theory Apps_Props
  imports Apps Vsprintf_Text
begin

text \<open>
  The applications stay inside their arrays, every message they log is one the kernel accepts, and the loops end with the results the
  applications expect.
\<close>

unbundle bit_operations_syntax

section \<open>Numbers in decimal\<close>

definition decimal :: "nat \<Rightarrow> u8 list" where
  "decimal v = map (\<lambda>d. 48 + of_nat d) (radix 10 v)"

lemma radix_short: "2 \<le> b \<Longrightarrow> v < b ^ n \<Longrightarrow> 0 < n \<Longrightarrow> length (radix b v) \<le> n"
proof (induction b v arbitrary: n rule: radix.induct)
  case (1 b v)
  obtain k where n: "n = Suc k" using 1(4) by (cases n) auto
  show ?case
  proof (cases "v < b")
    case True
    then show ?thesis using n by (subst radix.simps) simp
  next
    case False
    then have "k \<noteq> 0" using 1(3) n by (cases k) auto
    have "v div b < b ^ k" using 1(2,3) n by (simp add: less_mult_imp_div_less mult.commute)
    then have "length (radix b (v div b)) \<le> k" using 1(1) [of k] 1(2) False \<open>k \<noteq> 0\<close> by simp
    then show ?thesis using n 1(2) False by (subst radix.simps) simp
  qed
qed

lemma decimal_short: "length (decimal (unat (v :: u64))) \<le> 20"
  unfolding decimal_def length_map by (rule radix_short) (use u64_bound [of v] in simp_all)

lemma decimal_nonempty [simp]: "decimal v \<noteq> []"
  by (simp add: decimal_def)

lemma decimal_step: "decimal v = (if v < 10 then [48 + of_nat v] else decimal (v div 10) @ [48 + of_nat (v mod 10)])"
  unfolding decimal_def by (subst radix.simps) simp

section \<open>The message\<close>

lemma put_at_take:
  assumes "i < length xs"
  shows "put_at xs i v = Some (xs[i := v])" "take (Suc i) (xs[i := v]) = take i xs @ [v]" "take i (xs[i := v]) = take i xs"
  using assms by (simp_all add: put_at_def take_Suc_conv_app_nth)

lemma label_loop_writes:
  assumes "length buffer = 96" "len \<le> 74"
  shows "\<exists>buffer' len'. label_loop label buffer len = Some (buffer', len') \<and> length buffer' = 96 \<and> len' \<le> 74 \<and>
    take len' buffer' = take len buffer @ bytes (take (74 - len) (takeWhile (\<lambda>c. c \<noteq> CHR 0x00) label))"
  using assms
proof (induction label buffer len rule: label_loop.induct)
  case (2 c label buffer len)
  show ?case
  proof (cases "c \<noteq> CHR 0x00 \<and> len < 74")
    case True
    then have i: "len < length buffer" using 2(2) by simp
    have "74 - len = Suc (74 - Suc len)" using True by arith
    then show ?thesis using 2(1) [of "buffer[len := of_char c]"] True 2(2) put_at_take [OF i, of "of_char c"] by (auto simp: bytes_def)
  next
    case False
    then show ?thesis using 2 by (auto simp: bytes_def)
  qed
qed (simp add: bytes_def)

lemma digit_byte: "ucast (48 + v mod 10 :: u64) = (48 + of_nat (unat v mod 10) :: u8)"
  by (simp add: unsigned_ucast_eq word_unat_eq_iff unat_word_ariths unat_mod unat_of_nat take_bit_eq_mod)

lemma digits_loop_writes:
  "length digits = 20 \<Longrightarrow> count + length (decimal (unat v)) \<le> 20 \<Longrightarrow>
    \<exists>digits'. digits_loop v digits count = Some (digits', count + length (decimal (unat v))) \<and> length digits' = 20 \<and>
      take (count + length (decimal (unat v))) digits' = take count digits @ rev (decimal (unat v))"
proof (induction v digits count rule: digits_loop.induct)
  case (1 v digits count)
  have "0 < length (decimal (unat v))" by simp
  then have i: "count < length digits" using 1(2,3) by linarith
  note put = put_at_take [OF i, of "48 + of_nat (unat v mod 10)"]
  note step = digits_loop.simps [of v digits count, unfolded digit_byte put(1)]
  show ?case
  proof (cases "v div 10 = 0")
    case True
    then have "unat v < 10" using unat_div [of v 10] by simp
    then show ?thesis using True 1(2) put(2) by (simp add: step decimal_step [of "unat v"])
  next
    case False
    then have d: "unat (v div 10) = unat v div 10" "\<not> unat v < 10" by (auto simp: unat_div word_unat_eq_iff)
    have l: "length (decimal (unat v)) = Suc (length (decimal (unat (v div 10))))" using d by (subst decimal_step) simp
    show ?thesis
      using 1(1) [OF put(1) [folded digit_byte] False] 1(2,3) False put(2) l d by (auto simp: step digit_byte decimal_step [of "unat v"])
  qed
qed

lemma copy_loop_writes:
  assumes "count \<le> length digits" "length buffer = 96" "len + count \<le> 96"
  shows "\<exists>buffer'. copy_loop count digits buffer len = Some (buffer', len + count) \<and> length buffer' = 96 \<and>
    take (len + count) buffer' = take len buffer @ rev (take count digits)"
  using assms
proof (induction count digits buffer len rule: copy_loop.induct)
  case (2 count digits buffer len)
  have i: "len < length buffer" and d: "get_at digits count = Some (digits ! count)" using 2(2-4) by (simp_all add: get_at_def)
  note put = put_at_take [OF i, of "digits ! count"]
  have "rev (take (Suc count) digits) = digits ! count # rev (take count digits)" using 2(2) by (simp add: take_Suc_conv_app_nth)
  then show ?case using 2(1) [OF d put(1)] 2(2-4) d put by simp
qed simp

text \<open>The text that \<^verbatim>\<open>log_value\<close> logs.\<close>

definition value_text :: "string \<Rightarrow> u64 \<Rightarrow> u8 list" where
  "value_text label v = bytes (take 74 (takeWhile (\<lambda>c. c \<noteq> CHR 0x00) label)) @ decimal (unat v) @ [10]"

lemma length_value_text: "length (value_text label v) \<le> 95"
  using decimal_short [of v] by (simp add: value_text_def bytes_def min_def)

lemma log_value_logs:
  assumes "length buffer = 96" "length digits = 20"
  shows "log_value buffer digits label v calls = Some (calls @ [(NR_log, value_text label v)])"
proof -
  obtain b1 len where b1: "label_loop label buffer 0 = Some (b1, len)" "length b1 = 96" "len \<le> 74"
    "take len b1 = bytes (take 74 (takeWhile (\<lambda>c. c \<noteq> CHR 0x00) label))"
    using label_loop_writes [OF assms(1), of 0 label] by auto
  obtain d1 where d1: "digits_loop v digits 0 = Some (d1, length (decimal (unat v)))" "length d1 = 20"
    "take (length (decimal (unat v))) d1 = rev (decimal (unat v))"
    using digits_loop_writes [OF assms(2), of 0 v] decimal_short [of v] by auto
  obtain b2 where b2: "copy_loop (length (decimal (unat v))) d1 b1 len = Some (b2, len + length (decimal (unat v)))" "length b2 = 96"
    "take (len + length (decimal (unat v))) b2 = take len b1 @ decimal (unat v)"
    using copy_loop_writes [of "length (decimal (unat v))" d1 b1 len] d1 b1(2,3) decimal_short [of v] by auto
  have "len + length (decimal (unat v)) < length b2" using b2(2) b1(3) decimal_short [of v] by simp
  note put = put_at_take [OF this, of 10]
  show ?thesis using b1(1,4) d1(1) b2(1,3) put(1,2) by (simp add: log_value_def app_syscall_def value_text_def)
qed

lemma log_text_logs: "log_text s calls = calls @ [(NR_log, bytes (takeWhile (\<lambda>c. c \<noteq> CHR 0x00) s))]"
proof -
  have "take (text_length s) s = takeWhile (\<lambda>c. c \<noteq> CHR 0x00) s" by (induction s) auto
  then show ?thesis by (simp add: log_text_def app_syscall_def)
qed

section \<open>Progress messages\<close>

text \<open>The multiples of a number in an initial segment.\<close>

lemma filter_multiples:
  assumes "0 < k"
  shows "filter (\<lambda>n. n mod k = 0) [1..<m * k + 1] = map (\<lambda>i. i * k) [1..<m + 1]"
proof (induction m)
  case (Suc m)
  have "filter (\<lambda>n. n mod k = 0) [m * k + 1..<m * k + k] = []"
  proof -
    have "n mod k \<noteq> 0" if "m * k + 1 \<le> n" "n < m * k + k" for n
    proof -
      define r where "r = n - m * k"
      have "n = m * k + r" "0 < r" "r < k" using that by (auto simp: r_def)
      then show ?thesis by simp
    qed
    then show ?thesis by (auto simp: filter_empty_conv)
  qed
  moreover have "[1..<Suc m * k + 1] = [1..<m * k + 1] @ [m * k + 1..<m * k + k] @ [Suc m * k]"
  proof -
    have "[1..<Suc m * k + 1] = [1..<m * k + 1] @ [m * k + 1..<Suc m * k + 1]" using upt_add_eq_append [of 1 "m * k + 1" k] by (simp add: ac_simps)
    moreover have "[m * k + 1..<Suc m * k + 1] = [m * k + 1..<m * k + k] @ [Suc m * k]" using assms by (simp add: add.commute)
    ultimately show ?thesis by simp
  qed
  ultimately show ?case using Suc by simp
qed simp

definition progress :: "string \<Rightarrow> nat \<Rightarrow> nat \<Rightarrow> nat \<Rightarrow> calls" where
  "progress label k m n = map (\<lambda>i. (NR_log, value_text label (of_nat i))) (filter (\<lambda>i. i mod k = 0) [m..<n])"

lemma progress_all: "0 < k \<Longrightarrow> progress label k 1 (m * k + 1) = map (\<lambda>i. (NR_log, value_text label (of_nat (i * k)))) [1..<m + 1]"
  unfolding progress_def by (subst filter_multiples) simp_all

lemma progress_step:
  "m < n \<Longrightarrow> progress label k m n = (if m mod k = 0 then [(NR_log, value_text label (of_nat m))] else []) @ progress label k (Suc m) n"
  by (simp add: progress_def upt_conv_Cons)

section \<open>The loops\<close>

lemma sequence_loop_ends:
  assumes "length bf = 96" "length ds = 20"
  shows "n \<le> 3000001 \<Longrightarrow> sequence_loop bf ds (of_nat n) s calls =
     Some (s + of_nat (\<Sum>i = n..<3000001. i), calls @ progress ''sequence progress='' 1000000 n 3000001)"
proof (induction "3000001 - n" arbitrary: n s calls)
  case 0
  then show ?case by (simp add: sequence_loop.simps progress_def)
next
  case (Suc x)
  then have n: "n \<le> 3000000" "unat (of_nat n :: u64) = n" by (simp_all add: unat_of_nat)
  then have "of_nat n \<le> (3000000 :: u64)" "of_nat n mod (1000000 :: u64) = 0 \<longleftrightarrow> n mod 1000000 = 0"
    by (simp_all add: word_le_nat_alt word_unat_eq_iff unat_mod)
  moreover have "(\<Sum>i = n..<3000001. i) = n + (\<Sum>i = Suc n..<3000001. i)" using n(1) by (simp add: sum.atLeast_Suc_lessThan)
  ultimately show ?case using Suc.hyps(1) [of "Suc n"] Suc.hyps(2) n(1)
    by (simp add: sequence_loop.simps [of bf ds "of_nat n"] log_value_logs [OF assms] progress_step [of n] add.commute [of _ 1] Let_def)
qed

lemma checksum_loop_ends:
  assumes "length bf = 96" "length ds = 20"
  shows "n \<le> 4000000 \<Longrightarrow> checksum_loop bf ds (of_nat n) c calls =
     Some (c + of_nat (\<Sum>i = n..<4000000. i mod 256), calls @ progress ''checksum progress='' 1000000 (Suc n) 4000001)"
proof (induction "4000000 - n" arbitrary: n c calls)
  case 0
  then show ?case by (simp add: checksum_loop.simps progress_def)
next
  case (Suc x)
  then have n: "n < 4000000" "unat (of_nat n :: u32) = n" "unat (1 + of_nat n :: u32) = Suc n" "unat (of_nat n :: u64) = n"
    by (simp_all add: unat_of_nat unat_word_ariths)
  have m: "(of_nat n :: u32) AND 255 = of_nat (n mod 256)"
  proof -
    have "(of_nat n :: u32) AND 255 = take_bit 8 (of_nat n)" by (simp add: take_bit_eq_mask mask_eq_exp_minus_1)
    also have "\<dots> = of_nat (n mod 256)" using n(1,2) by (simp add: word_unat_eq_iff unat_mod unat_of_nat take_bit_eq_mod)
    finally show ?thesis .
  qed
  have "of_nat n < (4000000 :: u32)" "(1 + of_nat n) mod (1000000 :: u32) = 0 \<longleftrightarrow> Suc n mod 1000000 = 0" "ucast (1 + of_nat n :: u32) = (1 + of_nat n :: u64)"
    using n by (simp_all add: word_less_nat_alt word_unat_eq_iff unat_mod unsigned_ucast_eq unat_word_ariths take_bit_eq_mod)
  moreover have "(\<Sum>i = n..<4000000. i mod 256) = n mod 256 + (\<Sum>i = Suc n..<4000000. i mod 256)" using n(1) by (simp add: sum.atLeast_Suc_lessThan)
  ultimately show ?case using Suc.hyps(1) [of "Suc n"] Suc.hyps(2) n(1) m
    by (simp add: checksum_loop.simps [of bf ds "of_nat n"] log_value_logs [OF assms] progress_step [of "Suc n"] add.commute [of _ 1] Let_def)
qed

lemma checksum_total: "(\<Sum>i = 0..<256 * q. i mod 256) = q * (32640 :: nat)"
proof (induction q)
  case (Suc q)
  have "(\<Sum>i = 0..<256 * Suc q. i mod 256) = (\<Sum>i = 0..<256 * q. i mod 256) + (\<Sum>i = 256 * q..<256 * q + 256. i mod (256 :: nat))"
    using sum.atLeastLessThan_concat [of 0 "256 * q" "256 * q + 256" "\<lambda>i. i mod (256 :: nat)"] by (simp add: add.commute)
  also have "(\<Sum>i = 256 * q..<256 * q + 256. i mod (256 :: nat)) = (\<Sum>i = 0..<256. (i + 256 * q) mod 256)"
    using sum.shift_bounds_nat_ivl [of "\<lambda>i. i mod (256 :: nat)" 0 "256 * q" 256] by (simp add: add.commute)
  also have "\<dots> = (\<Sum>i = 0..<256. i)" by (rule sum.cong) auto
  also have "\<dots> = 32640" by (simp add: Sum_Ico_nat)
  finally show ?case using Suc by simp
qed simp

section \<open>Prime numbers\<close>

definition prime_number :: "nat \<Rightarrow> bool" where
  "prime_number n \<longleftrightarrow> 2 \<le> n \<and> (\<forall>d. 2 \<le> d \<and> d < n \<longrightarrow> \<not> d dvd n)"

lemma prime_by_small_divisors:
  assumes "2 \<le> n" "n < d * d" "\<And>e. 2 \<le> e \<Longrightarrow> e < d \<Longrightarrow> \<not> e dvd n"
  shows "prime_number n"
proof -
  have "\<not> e dvd n" if "2 \<le> e" "e < n" for e
  proof
    assume "e dvd n"
    then obtain f where f: "n = e * f" by (auto elim: dvdE)
    have "2 \<le> f" using f that assms(1) by (cases "f = 0 \<or> f = 1") auto
    have "e < d \<or> f < d" using f assms(2) by (meson mult_le_mono not_le)
    then show False using assms(3) [of e] assms(3) [of f] that(1) \<open>2 \<le> f\<close> f by auto
  qed
  then show ?thesis using assms(1) by (simp add: prime_number_def)
qed

lemma divisor_loop_decides:
  assumes "2 \<le> c" "c \<le> 100000"
  shows "2 \<le> d \<Longrightarrow> d \<le> 317 \<Longrightarrow> (\<And>e. 2 \<le> e \<Longrightarrow> e < d \<Longrightarrow> \<not> e dvd c) \<Longrightarrow>
    divisor_loop (of_nat c) (of_nat d) = Some (prime_number c)"
proof (induction "318 - d" arbitrary: d)
  case (Suc x)
  have "d * d \<le> 317 * 317" using Suc.prems(2) by (intro mult_le_mono) simp_all
  then have u: "unat (of_nat c :: u32) = c" "unat (of_nat d :: u32) = d" "unat (of_nat d * of_nat d :: u32) = d * d"
    using assms(2) Suc.prems(2) by (simp_all add: unat_of_nat unat_word_ariths)
  then have w: "(of_nat d * of_nat d :: u32) \<le> of_nat c \<longleftrightarrow> d * d \<le> c" "of_nat c mod (of_nat d :: u32) = 0 \<longleftrightarrow> d dvd c"
    by (simp_all add: word_le_nat_alt word_unat_eq_iff unat_mod dvd_eq_mod_eq_0)
  note step = divisor_loop.simps [of "of_nat c" "of_nat d"]
  consider "c < d * d" | "d * d \<le> c" "d dvd c" | "d * d \<le> c" "\<not> d dvd c" by linarith
  then show ?case
  proof cases
    case 1
    then show ?thesis using prime_by_small_divisors [OF assms(1) 1] Suc.prems(3) w by (simp add: step)
  next
    case 2
    have "d < d * d" using Suc.prems(1) by (cases d) auto
    then have "d < c" using 2(1) by (rule less_le_trans)
    then have "\<not> prime_number c" using 2 Suc.prems(1) by (auto simp: prime_number_def)
    then show ?thesis using 2 w by (simp add: step)
  next
    case 3
    have "d \<noteq> 317" using 3(1) assms(2) by auto
    moreover have "\<not> e dvd c" if "2 \<le> e" "e < Suc d" for e using that 3(2) Suc.prems(3) by (cases "e = d") auto
    ultimately have "divisor_loop (of_nat c) (of_nat (Suc d)) = Some (prime_number c)"
      using Suc.hyps(2) Suc.prems(1,2) 3(1) by (intro Suc.hyps(1)) simp_all
    then show ?thesis using 3 w by (simp add: step add.commute)
  qed
qed simp

lemma primes_loop_ends:
  assumes "length bf = 96" "length ds = 20"
  shows "2 \<le> n \<Longrightarrow> n \<le> 100001 \<Longrightarrow> primes_loop bf ds (of_nat n) c calls =
     Some (c + of_nat (card {p. prime_number p \<and> n \<le> p \<and> p \<le> 100000}), calls @ progress ''primes progress='' 25000 n 100001)"
proof (induction "100001 - n" arbitrary: n c calls)
  case 0
  then have "n = 100001" "{p. prime_number p \<and> 100001 \<le> p \<and> p \<le> 100000} = {}" by auto
  then show ?case by (simp add: primes_loop.simps progress_def del: Collect_empty_eq)
next
  case (Suc x)
  then have n: "n \<le> 100000" "unat (of_nat n :: u32) = n" by (simp_all add: unat_of_nat)
  have d: "divisor_loop (of_nat n) 2 = Some (prime_number n)" using divisor_loop_decides [of n 2] Suc.prems(1) n(1) by simp
  have "of_nat n \<le> (100000 :: u32)" "of_nat n mod (25000 :: u32) = 0 \<longleftrightarrow> n mod 25000 = 0" "ucast (of_nat n :: u32) = (of_nat n :: u64)"
    using n by (simp_all add: word_le_nat_alt word_unat_eq_iff unat_mod unsigned_ucast_eq unat_of_nat take_bit_eq_mod)
  moreover have "card {p. prime_number p \<and> n \<le> p \<and> p \<le> 100000} = (if prime_number n then 1 else 0) + card {p. prime_number p \<and> Suc n \<le> p \<and> p \<le> 100000}"
  proof -
    have "{p. prime_number p \<and> n \<le> p \<and> p \<le> 100000} = {p. prime_number p \<and> p = n} \<union> {p. prime_number p \<and> Suc n \<le> p \<and> p \<le> 100000}"
      using n(1) by auto
    moreover have "finite {p. prime_number p \<and> Suc n \<le> p \<and> p \<le> 100000}" by (rule finite_subset [of _ "{..100000}"]) auto
    moreover have "{p. prime_number p \<and> p = n} = (if prime_number n then {n} else {})" by auto
    ultimately show ?thesis by (simp add: card_Un_disjoint)
  qed
  ultimately show ?case using Suc.hyps(1) [of "Suc n"] Suc.hyps(2) Suc.prems n(1) d
    by (simp add: primes_loop.simps [of bf ds "of_nat n"] log_value_logs [OF assms] progress_step [of n] add.commute [of _ 1] Let_def)
qed

section \<open>Properties\<close>

text \<open>
  C38: \<^verbatim>\<open>log_value\<close> stays inside its two arrays for every label and every 64-bit value. It makes one system call, whose
  text is the label, cut off after 74 characters, the value in decimal and a line feed. The kernel accepts this
  text from an array anywhere in the caller's stack: it prints exactly these bytes after the prefix of the task and returns their number.
\<close>

theorem log_value_prints:
  assumes "length buffer = 96" "length digits = 20" and t: "task_ok i t" "i < APP_COUNT"
    and stack: "unat (t_stack_bottom t) \<le> unat a" "unat a + 96 \<le> unat (t_stack_top t)"
    and mem: "\<forall>j<length (value_text label v). phys_mem k (a + of_nat j) = value_text label v ! j"
  shows "log_value buffer digits label v calls = Some (calls @ [(NR_log, value_text label v)]) \<and>
    sys_log t a (of_nat (length (value_text label v))) k =
      (k\<lparr>console := console k @ map (Putc \<circ> of_char) (''[app '' @ [char_of (48 + current k)] @ ''] '') @ map Putc (value_text label v)\<rparr>,
       of_nat (length (value_text label v)))"
proof -
  let ?d = "value_text label v" and ?n = "of_nat (length (value_text label v)) :: u64"
  have n: "unat ?n = length ?d" using length_value_text [of label v] by (simp add: unat_of_nat)
  moreover have "?d \<noteq> []" by (simp add: value_text_def)
  ultimately have nz: "?n \<noteq> 0" by (metis length_0_conv unat_0)
  have "map (\<lambda>j. Putc (phys_mem k (a + of_nat j))) [0..<length ?d] = map Putc ?d"
    using mem by (auto intro: nth_equalityI)
  then show ?thesis
    using sys_log_branches [OF t, of a ?n k] log_value_logs [OF assms(1,2)] n nz stack length_value_text [of label v] by auto
qed

theorem log_value_prints_witness:
  "\<exists>k. log_value (replicate 96 0) (replicate 20 0) ''n='' 42 [] = Some [(NR_log, [110, 61, 52, 50, 10])] \<and>
     snd (sys_log (sample_task 1) 0x4103ff00 5 k) = 5"
proof -
  have d: "value_text ''n='' 42 = [110, 61, 52, 50, 10]" by (simp add: value_text_def bytes_def decimal_def radix.simps)
  let ?k = "sample_kernel\<lparr>phys_mem := (\<lambda>x. [110, 61, 52, 50, 10] ! unat (x - 0x4103ff00))\<rparr>"
  have "\<forall>j<length (value_text ''n='' 42). phys_mem ?k (0x4103ff00 + of_nat j) = value_text ''n='' 42 ! j"
    by (simp add: d unat_of_nat)
  from log_value_prints [OF _ _ sample_task_ok [of 1] _ _ _ this, of "replicate 96 0" "replicate 20 0" "[]"] show ?thesis
    by (intro exI [of _ ?k]) (simp add: d APP_COUNT_def sample_task_def app_layout)
qed



end
