(* ===== verification/Spec2Isabelle.thy ===== *)
theory Spec2Isabelle
  imports List_Props Page_Alloc_Props Memblock_Props String_Lib Task_Load Printk Slab_Props System Apps_Props
begin

text \<open>
  \<^bold>\<open>A verification of the miaow kernel\<close>

  miaow is a small AArch64 kernel that boots under an emulator, sets up its memory and its translation tables and runs three applications under a
  round-robin scheduler driven by a timer. This development models its C code and proves what makes each part
  correct. A definition is the code's sequence of reads, writes and branches, under the name of the C function
  where HOL leaves it free; the lemmas show that the definitions implement more abstract descriptions.

  \<^bold>\<open>Parts and theories.\<close> The theory that holds the model of a part is named first.

  \<^item> Linked lists, \<^verbatim>\<open>include/miaow/list.h\<close>: \<open>List_Head\<close>, \<open>List_Props\<close>. A memory of nodes with two pointers each. Every operation is
    shown to act on the pointers as the corresponding operation acts on a list.
  \<^item> Page allocator, \<^verbatim>\<open>mm/page_alloc.c\<close>: \<open>Page_Alloc\<close>. \<open>Buddy_Blocks\<close> is the abstract buddy system, a set of pairs of order and first frame;
    \<open>Page_Alloc_Inv\<close> has the invariant between the two, \<open>Page_Alloc_Spec\<close> the operations in terms of it, and
    \<open>Page_Alloc_Props\<close> the refinement and the runs of clients.
  \<^item> Early memory allocator, \<^verbatim>\<open>mm/memblock.c\<close>: \<open>Memblock\<close>. \<open>Memblock_Regions\<close> and \<open>Memblock_Range\<close> show what adding and removing a range does to
    the addresses a table covers, \<open>Memblock_Free\<close> what the walk over the free ranges reports, and \<open>Memblock_Props\<close> states the
    properties through the interface of a region table.
  \<^item> Object allocator, \<^verbatim>\<open>mm/slab.c\<close>: \<open>Slab\<close>. The invariant is in \<open>Slab_Inv\<close> and \<open>Slab_Ops\<close>; \<open>Slab_Spec\<close>, \<open>Slab_Free\<close> and \<open>Slab_Heap\<close> prove the operations against
    a set of live allocations; \<open>Slab_Props\<close> has the interface of an allocator and what its clients may rely on.
  \<^item> Translation tables, \<^verbatim>\<open>mm/mmu.c\<close>: \<open>Mmu\<close>, with the table walk of the hardware as a definition of its own. \<open>Mmu_Tables\<close>, \<open>Mmu_Walk\<close> and
    \<open>Mmu_Map\<close> show what one mapping changes, \<open>Mmu_Init\<close> and \<open>Mmu_Props\<close> what every virtual address translates to and with which permissions.
  \<^item> Memory functions, \<^verbatim>\<open>lib/string.c\<close>: \<open>String_Lib\<close> over the byte memory of \<open>Byte_Memory\<close>. The routines that copy eight bytes at a time are
    equivalent to copying byte by byte, for every alignment and overlap.
  \<^item> Formatted output, \<^verbatim>\<open>lib/vsprintf.c\<close> and \<^verbatim>\<open>lib/printk.c\<close>, and the serial port, \<^verbatim>\<open>kernel/uart.c\<close>: \<open>Vsprintf\<close>, \<open>Printk\<close>. \<open>Vsprintf_Text\<close> has the text a format stands for, and
    \<open>Vsprintf_Props\<close> that exactly this text is written.
  \<^item> Tasks, exceptions and the loader, \<^verbatim>\<open>kernel/task.c\<close> and \<^verbatim>\<open>kernel/task.h\<close>, and the timer, \<^verbatim>\<open>kernel/timer.c\<close>: \<open>Kernel_State\<close>, \<open>Timer\<close>, \<open>Task\<close>. \<open>Task_Props\<close> treats one exception,
    \<open>Task_Run\<close> sequences of them, \<open>Task_Load\<close> the start.
  \<^item> Start of the kernel, \<^verbatim>\<open>mm/init.c\<close> and \<^verbatim>\<open>kernel/main.c\<close>: \<open>Init\<close>, \<open>Init_Props\<close>. This is where the allocators, the loader and the kernel state meet.
  \<^item> The running system: \<open>System\<close> puts the start, the translation tables and the exceptions together: stores of the applications, through any virtual address, interleave with
    exceptions, and the clients of the heap with both address spaces in place.
  \<^item> Applications, \<^verbatim>\<open>apps/*.c\<close> and \<^verbatim>\<open>apps/app.h\<close>: \<open>Apps\<close>, \<open>Apps_Props\<close>.

  \<open>Prelude\<close> has the types of machine words and the lemmas on words, options and lists that several parts use.

  \<^bold>\<open>How the parts interact.\<close> At boot \<^verbatim>\<open>mem_init\<close> records RAM and what is in use in the early allocator, takes the
  array of page descriptors from it, gives every free range to the page allocator and initialises the object allocator, whose slabs and large objects come from the page
  allocator; both thread the same \<^verbatim>\<open>lru\<close> node of a page through their lists, so the page
  allocator's state has the nodes of both. \<^verbatim>\<open>start_apps\<close> then copies the images into their slots, starts the timer and enters the first task. From
  then on the kernel runs only in \<^verbatim>\<open>trap\<close>: a timer interrupt, a system call or a fault, each ending in the task to resume, in a halt or in a panic. The
  boot theorem of \<open>Init_Props\<close> composes these: the pages the heap owns overlap neither the kernel, nor a slot, nor the device tree. \<open>System\<close> adds the translation tables: in
  every state the applications can lead to, memory outside their stacks is as the kernel left it, and what the kernel allocates is mapped for the kernel alone. The tables are the same for all applications, as the code has it: one
  application can write to the stack of another.

  \<^bold>\<open>State and results.\<close> A C struct is a record, static variables are the fields of a record per file, a pointer to an element of
  an array is its index, and memory is a function from 64-bit addresses to bytes. \<^verbatim>\<open>uintptr_t\<close>, \<^verbatim>\<open>size_t\<close> and \<^verbatim>\<open>unsigned\<close> arithmetic wraps, in words of 64 and 32 bits;
  where an \<^verbatim>\<open>int\<close> could overflow the definition is \<open>None\<close>. \<open>None\<close> also stands for an access outside an array and for a null list pointer, so a
  theorem that an operation returns \<open>Some\<close> says that none of this happens. The error codes of the C functions are ordinary results. A function that does not return ends in
  a value of the type \<open>exit\<close>.

  \<^bold>\<open>Loops.\<close> A loop is a recursive function with a measure where its end is evident from the arguments, and a partial function in the option monad where it is
  not: walking a list, carving a slab, releasing a range of frames, filling the translation tables, sending a string, polling a device, the divisors of a candidate prime. For these the theorems show that a result
  is reached. There is no fuel in the model; \<open>walk_ranges\<close> bounds the number of calls only to state that the walk ends.

  \<^bold>\<open>Interfaces.\<close> The laws a client may use are locales, each interpreted on the definitions of the code: linked lists, region tables, the block
  allocator behind the page allocator's clients, and the object allocator with and without zeroing. The properties are stated outside of them, over the definitions.

  \<^bold>\<open>Not modelled.\<close> The assembly of \<^verbatim>\<open>boot.S\<close>, \<^verbatim>\<open>vectors.S\<close>, \<^verbatim>\<open>start.S\<close> and \<^verbatim>\<open>payloads.S\<close>: the model begins where it calls C, and the saved registers, the addresses of the
  sections and the images are arguments. The linker scripts: their layout is a hypothesis of the theorems that need it. Barriers, caches and invalidation of
  the TLB have no counterpart: a translation is read from the tables as they are. Devices are functions from the accesses so far to
  the next answer, and a theorem that a polling loop ends assumes that the device answers within a number of reads. Time is a sequence of exceptions.
  \<^verbatim>\<open>trap\<close> records its messages as calls of \<^verbatim>\<open>printk\<close> with their arguments; what \<^verbatim>\<open>printk\<close> sends for such a call is the subject of \<open>Printk\<close>. The bytes of the page
  descriptors are not modelled a second time beside the list that holds them. Tests, tools and build files are not part of the kernel.
\<close>

end
